(* ===== verification/Ramix_Prelude.thy ===== *)
theory Ramix_Prelude
  imports Main "HOL-Library.Word"
begin

text \<open>
  Shared vocabulary of the development: Go's fixed-width integers as words, the outcome of
  a Go call (a value, a returned error or a panic), bounds-checked slicing, and the
  byte-order routines of the package \<open>encoding/binary\<close> that the codecs use, with the
  generic lemmas that the component theories rest on.

  The platform is a 64-bit one: \<open>int\<close> and \<open>uint\<close> have 64 bits.
\<close>

unbundle bit_operations_syntax

section \<open>Go's integers\<close>

type_synonym byte = "8 word"
type_synonym uint16 = "16 word"
type_synonym uint32 = "32 word"
type_synonym uint64 = "64 word"
type_synonym goint = "64 word"  \<comment> \<open>\<open>int\<close> and \<open>int64\<close>: two's complement, read with \<open>sint\<close>\<close>
type_synonym duration = "64 word"  \<comment> \<open>\<open>time.Duration\<close>: an \<open>int64\<close> of nanoseconds\<close>

abbreviation MaxUint8 :: uint64 where "MaxUint8 \<equiv> 0xFF"
abbreviation MaxUint16 :: uint64 where "MaxUint16 \<equiv> 0xFFFF"
abbreviation MaxUint32 :: uint64 where "MaxUint32 \<equiv> 0xFFFFFFFF"
abbreviation MaxInt64 :: uint64 where "MaxInt64 \<equiv> 0x7FFFFFFFFFFFFFFF"
abbreviation MaxUint64 :: uint64 where "MaxUint64 \<equiv> 0xFFFFFFFFFFFFFFFF"
abbreviation MinInt64 :: goint where "MinInt64 \<equiv> 0x8000000000000000"

text \<open>The largest \<open>int\<close>, as the code computes it: \<open>int(^uint(0) >> 1)\<close>.\<close>

definition maxInt :: goint where
  "maxInt = drop_bit 1 (NOT 0)"

lemma maxInt_eq [simp]: "maxInt = MaxInt64"
  by (simp add: maxInt_def mask_eq_exp_minus_1)

section \<open>Outcomes of a call\<close>

text \<open>
  A Go function that returns \<open>(value, error)\<close> and may panic has three outcomes. The type
  of the errors is a parameter; the package's own errors are in the theory \<open>Errors\<close>.
\<close>

datatype ('e, 'a) outcome = Ok 'a | Err 'e | Panic

fun obind :: "('e, 'a) outcome \<Rightarrow> ('a \<Rightarrow> ('e, 'b) outcome) \<Rightarrow> ('e, 'b) outcome" where
  "obind (Ok x) f = f x"
| "obind (Err e) f = Err e"
| "obind Panic f = Panic"

lemma obind_Ok_iff: "obind r f = Ok y \<longleftrightarrow> (\<exists>x. r = Ok x \<and> f x = Ok y)"
  by (cases r) auto

lemma obind_Err_iff: "obind r f = Err e \<longleftrightarrow> r = Err e \<or> (\<exists>x. r = Ok x \<and> f x = Err e)"
  by (cases r) auto

lemma obind_Panic_iff: "obind r f = Panic \<longleftrightarrow> r = Panic \<or> (\<exists>x. r = Ok x \<and> f x = Panic)"
  by (cases r) auto

lemmas obind_iffs = obind_Ok_iff obind_Err_iff obind_Panic_iff

text \<open>
  The slice expression \<open>xs[lo:hi]\<close>. It panics unless \<open>0 \<le> lo \<le> hi \<le> len(xs)\<close>. (Go admits
  \<open>hi\<close> up to the capacity; the model is the stricter one, so a proof that no panic occurs
  also says that no byte beyond the length is read.)
\<close>

definition goslice :: "'a list \<Rightarrow> int \<Rightarrow> int \<Rightarrow> ('e, 'a list) outcome" where
  "goslice xs lo hi =
     (if 0 \<le> lo \<and> lo \<le> hi \<and> hi \<le> int (length xs)
      then Ok (take (nat (hi - lo)) (drop (nat lo) xs)) else Panic)"

lemma goslice_ok [simp]:
  "0 \<le> lo \<Longrightarrow> lo \<le> hi \<Longrightarrow> hi \<le> int (length xs) \<Longrightarrow>
   goslice xs lo hi = Ok (take (nat (hi - lo)) (drop (nat lo) xs))"
  by (simp add: goslice_def)

lemma goslice_nat:
  "a \<le> b \<Longrightarrow> b \<le> length xs \<Longrightarrow> goslice xs (int a) (int b) = Ok (take (b - a) (drop a xs))"
  by (simp add: goslice_def flip: of_nat_diff)

lemma goslice_nat_Ok_iff:
  "goslice xs (int a) (int b) = Ok ys \<longleftrightarrow> a \<le> b \<and> b \<le> length xs \<and> ys = drop a (take b xs)"
  by (auto simp: goslice_def drop_take simp flip: of_nat_diff)

text \<open>A slice inside a prefix does not see what follows the prefix.\<close>

lemma goslice_append:
  assumes "hi \<le> int (length xs)"
  shows "goslice (xs @ ys) lo hi = goslice xs lo hi"
proof (cases "0 \<le> lo \<and> lo \<le> hi")
  case True
  then have "nat (hi - lo) - (length xs - nat lo) = 0"
    using assms by linarith
  with True assms show ?thesis by (simp add: goslice_def)
next
  case False
  with assms show ?thesis by (auto simp: goslice_def)
qed

section \<open>Byte orders\<close>

text \<open>
  \<open>encoding/binary\<close>: reading panics when the slice is too short (the routines index its last
  byte first), writing is modelled by the bytes written.
\<close>

fun le_Uint16 :: "byte list \<Rightarrow> ('e, uint16) outcome" where
  "le_Uint16 (b0 # b1 # _) = Ok (ucast b0 OR push_bit 8 (ucast b1))"
| "le_Uint16 _ = Panic"

fun be_Uint16 :: "byte list \<Rightarrow> ('e, uint16) outcome" where
  "be_Uint16 (b0 # b1 # _) = Ok (ucast b1 OR push_bit 8 (ucast b0))"
| "be_Uint16 _ = Panic"

fun le_Uint32 :: "byte list \<Rightarrow> ('e, uint32) outcome" where
  "le_Uint32 (b0 # b1 # b2 # b3 # _) =
     Ok (ucast b0 OR push_bit 8 (ucast b1) OR push_bit 16 (ucast b2) OR push_bit 24 (ucast b3))"
| "le_Uint32 _ = Panic"

fun be_Uint32 :: "byte list \<Rightarrow> ('e, uint32) outcome" where
  "be_Uint32 (b0 # b1 # b2 # b3 # _) =
     Ok (ucast b3 OR push_bit 8 (ucast b2) OR push_bit 16 (ucast b1) OR push_bit 24 (ucast b0))"
| "be_Uint32 _ = Panic"

fun le_Uint64 :: "byte list \<Rightarrow> ('e, uint64) outcome" where
  "le_Uint64 (b0 # b1 # b2 # b3 # b4 # b5 # b6 # b7 # _) =
     Ok (ucast b0 OR push_bit 8 (ucast b1) OR push_bit 16 (ucast b2) OR push_bit 24 (ucast b3)
         OR push_bit 32 (ucast b4) OR push_bit 40 (ucast b5) OR push_bit 48 (ucast b6)
         OR push_bit 56 (ucast b7))"
| "le_Uint64 _ = Panic"

fun be_Uint64 :: "byte list \<Rightarrow> ('e, uint64) outcome" where
  "be_Uint64 (b0 # b1 # b2 # b3 # b4 # b5 # b6 # b7 # _) =
     Ok (ucast b7 OR push_bit 8 (ucast b6) OR push_bit 16 (ucast b5) OR push_bit 24 (ucast b4)
         OR push_bit 32 (ucast b3) OR push_bit 40 (ucast b2) OR push_bit 48 (ucast b1)
         OR push_bit 56 (ucast b0))"
| "be_Uint64 _ = Panic"

definition le_PutUint32 :: "uint32 \<Rightarrow> byte list" where
  "le_PutUint32 v = [ucast v, ucast (drop_bit 8 v), ucast (drop_bit 16 v), ucast (drop_bit 24 v)]"

lemma length_le_PutUint32 [simp]: "length (le_PutUint32 v) = 4"
  by (simp add: le_PutUint32_def)

lemma le_Uint32_Put [simp]: "le_Uint32 (le_PutUint32 v @ bs) = Ok v"
proof -
  have "ucast (ucast v :: byte) OR push_bit 8 (ucast (ucast (drop_bit 8 v) :: byte))
        OR push_bit 16 (ucast (ucast (drop_bit 16 v) :: byte))
        OR push_bit 24 (ucast (ucast (drop_bit 24 v) :: byte)) = v" (is "?w = v")
  proof (rule bit_word_eqI)
    fix n assume "n < LENGTH(32)"
    then consider "n < 8" | "8 \<le> n \<and> n < 16" | "16 \<le> n \<and> n < 24" | "24 \<le> n \<and> n < 32"
      by force
    then show "bit ?w n = bit v n"
      by cases (auto simp: bit_or_iff bit_push_bit_iff bit_ucast_iff bit_drop_bit_eq)
  qed
  then show ?thesis by (simp add: le_PutUint32_def)
qed

lemma le_Uint32_Put_exact [simp]: "le_Uint32 (le_PutUint32 v) = Ok v"
  using le_Uint32_Put [of v "[]"] by simp

lemma le_PutUint32_inject [simp]: "le_PutUint32 a = le_PutUint32 b \<longleftrightarrow> a = b"
proof
  assume "le_PutUint32 a = le_PutUint32 b"
  then have "(le_Uint32 (le_PutUint32 a) :: (unit, uint32) outcome) = le_Uint32 (le_PutUint32 b)"
    by simp
  then show "a = b" by (simp only: le_Uint32_Put_exact outcome.inject)
qed simp

text \<open>Reading four bytes and writing the value back gives the bytes: the encoding is canonical.\<close>

lemma le_Put_Uint32:
  assumes "length bs = 4" and "le_Uint32 bs = Ok v"
  shows "le_PutUint32 v = bs"
proof -
  from assms(1) obtain b0 b1 b2 b3 where bs: "bs = [b0, b1, b2, b3]"
    by (auto simp: length_Suc_conv numeral_eq_Suc)
  with assms(2) have v: "v = ucast b0 OR push_bit 8 (ucast b1) OR push_bit 16 (ucast b2)
      OR push_bit 24 (ucast b3)"
    by simp
  have "ucast v = b0"
    by (rule bit_word_eqI) (auto simp: v bit_or_iff bit_push_bit_iff bit_ucast_iff)
  moreover have "ucast (drop_bit 8 v) = b1"
    by (rule bit_word_eqI)
      (auto simp: v bit_or_iff bit_push_bit_iff bit_ucast_iff bit_drop_bit_eq
        dest: bit_imp_le_length)
  moreover have "ucast (drop_bit 16 v) = b2"
    by (rule bit_word_eqI)
      (auto simp: v bit_or_iff bit_push_bit_iff bit_ucast_iff bit_drop_bit_eq
        dest: bit_imp_le_length)
  moreover have "ucast (drop_bit 24 v) = b3"
    by (rule bit_word_eqI)
      (auto simp: v bit_or_iff bit_push_bit_iff bit_ucast_iff bit_drop_bit_eq
        dest: bit_imp_le_length)
  ultimately show ?thesis by (simp add: le_PutUint32_def bs)
qed

lemma le_Uint32_ok: "length bs \<ge> 4 \<Longrightarrow> \<exists>v. le_Uint32 bs = Ok v"
  by (induction bs rule: le_Uint32.induct) auto

section \<open>Words\<close>

lemma unat_of_nat_u64 [simp]: "n < 2 ^ 64 \<Longrightarrow> unat (of_nat n :: uint64) = n"
  by (simp add: unat_of_nat take_bit_nat_eq_self)

lemma unat_of_nat_u32 [simp]: "n < 2 ^ 32 \<Longrightarrow> unat (of_nat n :: uint32) = n"
  by (simp add: unat_of_nat take_bit_nat_eq_self)

lemma unat_ucast_u32_u64 [simp]: "unat (ucast (w :: uint32) :: uint64) = unat w"
proof -
  have "unat w < 2 ^ 64" using unsigned_less [of w, where ?'a = nat] by simp
  then show ?thesis by (simp add: unsigned_ucast_eq take_bit_nat_eq_self)
qed

lemma unat_u32_less: "unat (w :: uint32) < 2 ^ 32"
  using unsigned_less [of w, where ?'a = nat] by simp

lemma uint_ucast_u32_u64 [simp]: "uint (ucast (w :: uint32) :: uint64) = uint w"
  using unat_ucast_u32_u64 [of w] by (simp only: uint_nat)

text \<open>A non-negative \<open>int\<close> has the same reading as unsigned and as signed.\<close>

lemma sint_eq_uint_minus:
  "sint (w :: goint) = uint w - 2 ^ 64 * of_bool (bit w 63)"
  using take_bit_int_eq_self [of "uint w" 64] uint_lt2p [of w]
  by (simp add: sint_uint signed_take_bit_eq_take_bit_minus bit_uint_iff)

lemma sint_uint_nonneg: "0 \<le> sint (w :: goint) \<Longrightarrow> sint w = uint w"
  using uint_lt2p [of w] by (auto simp: sint_eq_uint_minus of_bool_def split: if_splits)

lemma sint_int_unat: "0 \<le> sint (w :: goint) \<Longrightarrow> sint w = int (unat w)"
  by (simp add: sint_uint_nonneg)

lemma sint_nonneg_iff: "0 \<le> sint (w :: goint) \<longleftrightarrow> unat w < 2 ^ 63"
proof
  assume "0 \<le> sint w"
  then show "unat w < 2 ^ 63"
    using sint_lt [of w] by (simp add: sint_int_unat flip: of_nat_less_iff [where 'a = int])
next
  assume "unat w < 2 ^ 63"
  then have "uint w < 2 ^ 63" by (simp flip: of_nat_less_iff [where 'a = int])
  then have "\<not> bit (uint w) 63"
    by (simp add: bit_iff_odd)
  then show "0 \<le> sint w" by (simp add: sint_eq_uint_minus bit_uint_iff)
qed

section \<open>Maps as association lists\<close>

text \<open>
  A Go map as a list of entries with distinct keys, in the order in which a \<open>range\<close> loop
  happens to visit them: \<open>m[k] = v\<close> and \<open>delete(m, k)\<close>.
\<close>

fun map_put :: "'k \<Rightarrow> 'v \<Rightarrow> ('k \<times> 'v) list \<Rightarrow> ('k \<times> 'v) list" where
  "map_put k v [] = [(k, v)]"
| "map_put k v ((k', v') # m) = (if k = k' then (k, v) # m else (k', v') # map_put k v m)"

definition map_delete :: "'k \<Rightarrow> ('k \<times> 'v) list \<Rightarrow> ('k \<times> 'v) list" where
  "map_delete k m = filter (\<lambda>e. fst e \<noteq> k) m"

lemma map_of_map_put [simp]: "map_of (map_put k v m) = (map_of m)(k \<mapsto> v)"
  by (induction m) auto

lemma fst_map_put: "fst ` set (map_put k v m) = insert k (fst ` set m)"
  by (induction k v m rule: map_put.induct) auto

lemma distinct_map_put: "distinct (map fst m) \<Longrightarrow> distinct (map fst (map_put k v m))"
  by (induction k v m rule: map_put.induct) (simp_all add: fst_map_put)

lemma map_of_map_delete [simp]: "map_of (map_delete k m) = (map_of m)(k := None)"
  by (induction m) (auto simp: map_delete_def)

lemma distinct_map_delete: "distinct (map fst m) \<Longrightarrow> distinct (map fst (map_delete k m))"
  by (auto simp: map_delete_def distinct_map intro: inj_on_subset)

section \<open>Sequences of operations\<close>

text \<open>
  A component is driven by operations that return a result and a new state; \<open>None\<close> marks an
  operation that cannot be issued in the state. Two such machines are related by a function
  from the detailed states to the abstract ones and an invariant of the detailed states.
\<close>

fun run_ops :: "('o \<Rightarrow> 's \<Rightarrow> ('r \<times> 's) option) \<Rightarrow> 'o list \<Rightarrow> 's \<Rightarrow> ('r list \<times> 's) option" where
  "run_ops step [] s = Some ([], s)"
| "run_ops step (opn # ops) s =
     (case step opn s of
        None \<Rightarrow> None
      | Some (r, s') \<Rightarrow> map_option (apfst (Cons r)) (run_ops step ops s'))"

lemma run_ops_Cons_Some:
  "run_ops step (opn # ops) s = Some (rs, t) \<longleftrightarrow>
   (\<exists>r s' rs'. step opn s = Some (r, s') \<and> run_ops step ops s' = Some (rs', t) \<and> rs = r # rs')"
  by (auto split: option.splits)

lemma run_ops_invariant:
  assumes "\<And>opn s r s'. P s \<Longrightarrow> opn \<in> set ops \<Longrightarrow> step opn s = Some (r, s') \<Longrightarrow> P s'"
    and "run_ops step ops s = Some (rs, t)" "P s"
  shows "P t"
  using assms
proof (induction ops arbitrary: s rs)
  case (Cons opn ops)
  then show ?case unfolding run_ops_Cons_Some by (metis list.set_intros)
qed simp

lemma run_ops_snoc:
  "run_ops step ops s = Some (rs, t) \<Longrightarrow> step opn t = Some (r, u) \<Longrightarrow> run_ops step (ops @ [opn]) s = Some (rs @ [r], u)"
  by (induction ops arbitrary: s rs) (auto split: option.splits)

locale functional_refinement =
  fixes cstep :: "'o \<Rightarrow> 'c \<Rightarrow> ('r \<times> 'c) option"
    and astep :: "'o \<Rightarrow> 'a \<Rightarrow> ('r \<times> 'a) option"
    and abs :: "'c \<Rightarrow> 'a"
    and inv :: "'c \<Rightarrow> bool"
  assumes step_inv: "inv c \<Longrightarrow> cstep opn c = Some (r, c') \<Longrightarrow> inv c'"
    and step_refines: "inv c \<Longrightarrow> map_option (apsnd abs) (cstep opn c) = astep opn (abs c)"
begin

lemma run_inv: "run_ops cstep ops c = Some (rs, c') \<Longrightarrow> inv c \<Longrightarrow> inv c'"
  by (erule run_ops_invariant [rotated]) (use step_inv in auto)

lemma run_refines: "inv c \<Longrightarrow> map_option (apsnd abs) (run_ops cstep ops c) = run_ops astep ops (abs c)"
proof (induction ops arbitrary: c)
  case (Cons opn ops)
  show ?case
  proof (cases "cstep opn c")
    case None
    then show ?thesis using step_refines [OF Cons.prems, of opn] by simp
  next
    case (Some rc)
    then obtain r c' where rc: "cstep opn c = Some (r, c')" by (cases rc) simp
    have "inv c'" by (rule step_inv [OF Cons.prems rc])
    moreover have "astep opn (abs c) = Some (r, abs c')" using step_refines [OF Cons.prems, of opn] rc by simp
    ultimately show ?thesis
      using rc by (simp add: option.map_comp comp_def flip: Cons.IH)
  qed
qed simp

end

text \<open>
  Machines that come to an end by themselves. \<open>internal\<close> are the operations they carry out
  without an outside call and \<open>left\<close> bounds what is left to do. If from every state that is not
  final some internal operation leaves less to do, a final state can be reached within the
  bound; if every internal operation does, all runs of internal operations are bounded and
  cannot stop short of a final state.
\<close>

locale progressing =
  fixes mstep :: "'o \<Rightarrow> 's \<Rightarrow> ('r \<times> 's) option"
    and internal :: "'o \<Rightarrow> bool"
    and inv :: "'s \<Rightarrow> bool"
    and final :: "'s \<Rightarrow> bool"
    and left :: "'s \<Rightarrow> nat"
  assumes inv_step: "inv s \<Longrightarrow> internal opn \<Longrightarrow> mstep opn s = Some (r, s') \<Longrightarrow> inv s'"
    and progress: "inv s \<Longrightarrow> \<not> final s \<Longrightarrow> \<exists>opn r s'. internal opn \<and> mstep opn s = Some (r, s') \<and> left s' < left s"
begin

lemma reaches_final:
  "inv s \<Longrightarrow> \<exists>ops rs t. length ops \<le> left s \<and> (\<forall>opn\<in>set ops. internal opn) \<and> run_ops mstep ops s = Some (rs, t) \<and> final t \<and> inv t"
proof (induction "left s" arbitrary: s rule: less_induct)
  case less
  show ?case
  proof (cases "final s")
    case True
    then show ?thesis using less.prems by (intro exI [of _ "[]"]) simp
  next
    case False
    then obtain opn r s' where step: "internal opn" "mstep opn s = Some (r, s')" "left s' < left s" using progress [OF less.prems] by blast
    then obtain ops rs t where "length ops \<le> left s'" "\<forall>opn\<in>set ops. internal opn" "run_ops mstep ops s' = Some (rs, t)" "final t" "inv t"
      using less.hyps inv_step [OF less.prems] by metis
    then show ?thesis using step by (intro exI [of _ "opn # ops"] exI [of _ "r # rs"] exI [of _ t]) simp
  qed
qed

end

locale terminating = progressing +
  assumes decreases: "inv s \<Longrightarrow> internal opn \<Longrightarrow> mstep opn s = Some (r, s') \<Longrightarrow> left s' < left s"
begin

lemma run_bounded:
  "inv s \<Longrightarrow> \<forall>opn\<in>set ops. internal opn \<Longrightarrow> run_ops mstep ops s = Some (rs, t) \<Longrightarrow> length ops + left t \<le> left s \<and> inv t"
proof (induction ops arbitrary: s rs)
  case (Cons opn ops)
  then obtain r s' rs' where step: "mstep opn s = Some (r, s')" "run_ops mstep ops s' = Some (rs', t)" unfolding run_ops_Cons_Some by blast
  then have "length ops + left t \<le> left s' \<and> inv t" using Cons inv_step by (metis list.set_intros)
  moreover have "left s' < left s" using decreases [OF Cons.prems(1) _ step(1)] Cons.prems(2) by simp
  ultimately show ?case by simp
qed simp

text \<open>Every run of internal operations is bounded and ends in a final state or can go on.\<close>

lemma run_ends:
  assumes "inv s" "\<forall>opn\<in>set ops. internal opn" "run_ops mstep ops s = Some (rs, t)"
  shows "length ops \<le> left s \<and> (final t \<or> (\<exists>opn r u. internal opn \<and> mstep opn t = Some (r, u)))"
  using run_bounded [OF assms] progress [of t] by auto

end

end
