(* ===== verification/Errors.thy ===== *)
theory Errors
  imports Ramix_Prelude
begin

text \<open>
  The errors of the package (\<open>src/errors.go\<close>). The code builds its errors with
  \<open>fmt.Errorf("%w: ...", sentinel, ...)\<close>: a sentinel that callers test with \<open>errors.Is\<close>,
  and a text. The model keeps the sentinel as a constructor and, where one sentinel is
  wrapped at several places, a reason that names the place; the rendered text is left out.
  \<open>errors.Is(err, sentinel)\<close> is the constructor's discriminator.
\<close>

datatype config_reason =
    OptionNil | ByteOrderNil | LengthFieldLengthUnsupported | LengthFieldOffsetNegative
  | InitialBytesToStripNegative | MaxFrameLengthZero | LengthFieldEndOffsetOverflow
  | LengthFieldEndOffsetTooLarge | LengthAdjustmentMinInt | NegativeAdjustmentTooLarge
  | PositiveAdjustmentTooLarge
  | TransportsEmpty | TransportUnsupported | TransportDuplicate | PortRange
  | WebSocketPortRange | WebSocketPathEmpty | WebSocketPathNoSlash | WebSocketPathWildcard
  | WebSocketPathInvalid | WebSocketPathUnclean | MaxConnectionsNotPositive
  | GroupsNotPositive | ReadBufferZero | WriteBufferZero | WorkerCountZero
  | QueueCapacityZero | ShutdownTimeoutNotPositive | HeartbeatIntervalNotPositive
  | HeartbeatTimeoutNotPositive | HeartbeatTimeoutBelowInterval | CertKeyMismatch
  | IPVersionInvalid

datatype frame_reason =
    FrameTooShort | BodyExceedsUint32 | BodySizeMismatch | BodyLengthUnsupported
  | AdjustedLengthOverflow | AdjustedLengthBelowHeader | AdjustedLengthExceedsInt
  | StripExceedsFrame | LengthFieldExceedsInt64
  | ConnectionEndedPartial | MessageNotBinary | MessageEmpty | MessageEndedPartial

datatype go_error =
    is_ErrInvalidConfiguration: ErrInvalidConfiguration config_reason
  | is_ErrInvalidFrame: ErrInvalidFrame frame_reason
  | is_ErrFrameTooLarge: ErrFrameTooLarge
  | is_ErrConnectionClosed: ErrConnectionClosed
  | is_ErrWorkerQueueFull: ErrWorkerQueueFull
  | is_ErrServerRunning: ErrServerRunning
  | is_ErrServerStopping: ErrServerStopping
  | is_ErrServerStopped: ErrServerStopped
  | is_ErrShutdownTimeout: ErrShutdownTimeout
  | is_Canceled: Canceled
  | is_DeadlineExceeded: DeadlineExceeded
  | is_EOF: EOF
  | is_NetErrClosed: NetErrClosed
  | is_HttpErrServerClosed: HttpErrServerClosed
  | is_ErrShortWrite: ErrShortWrite
  | is_ErrNoProgress: ErrNoProgress
  | is_CloseError: CloseError nat
  | is_OtherError: OtherError string

text \<open>
  The constructors from \<open>Canceled\<close> on are errors of the standard library and of the
  WebSocket library that the package tests for (\<open>context\<close>, \<open>io\<close>, \<open>net\<close>, \<open>net/http\<close>; a close frame
  with its code); \<open>OtherError\<close> stands for every error that it only passes on.

  The operations a connection error is reported under.\<close>

datatype ConnectionOperation =
    OperationRead | OperationWrite | OperationProtocol | OperationHeartbeat
  | OperationTask | OperationOpenHook | OperationCloseHook

end
