(* ===== verification/Options.thy ===== *)
theory Options
  imports Errors
begin

text \<open>
  The server's options, \<open>src/option.go\<close>: the transports, the options record with its defaults
  and setters, and the validation that \<open>NewServer\<close> and \<open>Run\<close> apply. The validation of the
  WebSocket path uses \<open>strings.ContainsAny\<close>, \<open>url.ParseRequestURI\<close> and \<open>path.Clean\<close> of the
  standard library; they are modelled here for the paths that reach them, which start with a
  slash.
\<close>

section \<open>Transports\<close>

type_synonym Transport = "8 word"

abbreviation TransportTCP :: Transport where "TransportTCP \<equiv> 1"
abbreviation TransportWebSocket :: Transport where "TransportWebSocket \<equiv> 2"

section \<open>The options record\<close>

record ServerOptions =
  Transports :: "Transport list"
  Name :: string
  IPVersion :: string
  IP :: string
  Port :: goint
  WebSocketPort :: goint
  WebSocketPath :: string
  CertFile :: string
  PrivateKeyFile :: string
  MaxConnectionsCount :: goint
  ConnectionGroupsCount :: goint
  ConnectionReadBufferSize :: uint32
  ConnectionWriteBufferSize :: uint32
  ShutdownTimeout :: duration
  WorkerCount :: uint32
  WorkerQueueCapacity :: uint32
  MaxFrameLength :: uint64
  HeartbeatInterval :: duration
  HeartbeatTimeout :: duration

type_synonym ServerOption = "ServerOptions \<Rightarrow> ServerOptions"

definition time_Second :: duration where
  "time_Second = 1000000000"

text \<open>The number of threads \<open>runtime.GOMAXPROCS(0)\<close> reports is a parameter.\<close>

definition defaultServerOptions :: "goint \<Rightarrow> ServerOptions" where
  "defaultServerOptions gomaxprocs = \<lparr>
     Transports = [TransportTCP, TransportWebSocket],
     Name = ''ramix'', IPVersion = ''tcp4'', IP = ''0.0.0.0'',
     Port = 8899, WebSocketPort = 8900, WebSocketPath = ''/ws'',
     CertFile = [], PrivateKeyFile = [],
     MaxConnectionsCount = 1024, ConnectionGroupsCount = 10,
     ConnectionReadBufferSize = 1024, ConnectionWriteBufferSize = 1024,
     ShutdownTimeout = 10 * time_Second,
     WorkerCount = ucast gomaxprocs, WorkerQueueCapacity = 1024,
     MaxFrameLength = push_bit 20 1,
     HeartbeatInterval = 5 * time_Second, HeartbeatTimeout = 60 * time_Second\<rparr>"

fun HasTransport_in :: "Transport list \<Rightarrow> Transport \<Rightarrow> bool" where
  "HasTransport_in [] transport = False"
| "HasTransport_in (enabled # rest) transport =
     (if enabled = transport then True else HasTransport_in rest transport)"

definition HasTransport :: "ServerOptions \<Rightarrow> Transport \<Rightarrow> bool" where
  "HasTransport opts transport = HasTransport_in (Transports opts) transport"

section \<open>Setters\<close>

text \<open>The loop of \<open>WithTransports\<close>: \<open>copied\<close> collects each transport at its first occurrence.\<close>

fun dedupTransports :: "Transport list \<Rightarrow> Transport set \<Rightarrow> Transport list \<Rightarrow> Transport list" where
  "dedupTransports copied seen [] = copied"
| "dedupTransports copied seen (transport # rest) =
     (if transport \<in> seen then dedupTransports copied seen rest
      else dedupTransports (copied @ [transport]) (insert transport seen) rest)"

definition WithTransports :: "Transport list \<Rightarrow> ServerOption" where
  "WithTransports transports =
     (let copied = dedupTransports [] {} transports in (\<lambda>o'. o'\<lparr>Transports := copied\<rparr>))"

definition WithShutdownTimeout :: "duration \<Rightarrow> ServerOption" where
  "WithShutdownTimeout v = (\<lambda>o'. o'\<lparr>ShutdownTimeout := v\<rparr>)"

definition WithWorkerCount :: "uint32 \<Rightarrow> ServerOption" where
  "WithWorkerCount v = (\<lambda>o'. o'\<lparr>WorkerCount := v\<rparr>)"

definition WithWorkerQueueCapacity :: "uint32 \<Rightarrow> ServerOption" where
  "WithWorkerQueueCapacity v = (\<lambda>o'. o'\<lparr>WorkerQueueCapacity := v\<rparr>)"

definition WithServerMaxFrameLength :: "uint64 \<Rightarrow> ServerOption" where
  "WithServerMaxFrameLength v = (\<lambda>o'. o'\<lparr>MaxFrameLength := v\<rparr>)"

definition WithName :: "string \<Rightarrow> ServerOption" where
  "WithName v = (\<lambda>o'. o'\<lparr>Name := v\<rparr>)"

definition WithIPVersion :: "string \<Rightarrow> ServerOption" where
  "WithIPVersion v = (\<lambda>o'. o'\<lparr>IPVersion := v\<rparr>)"

definition WithIP :: "string \<Rightarrow> ServerOption" where
  "WithIP v = (\<lambda>o'. o'\<lparr>IP := v\<rparr>)"

definition WithPort :: "goint \<Rightarrow> ServerOption" where
  "WithPort v = (\<lambda>o'. o'\<lparr>Port := v\<rparr>)"

definition WithWebSocketPort :: "goint \<Rightarrow> ServerOption" where
  "WithWebSocketPort v = (\<lambda>o'. o'\<lparr>WebSocketPort := v\<rparr>)"

definition WithWebSocketPath :: "string \<Rightarrow> ServerOption" where
  "WithWebSocketPath v = (\<lambda>o'. o'\<lparr>WebSocketPath := v\<rparr>)"

definition WithCertFile :: "string \<Rightarrow> ServerOption" where
  "WithCertFile v = (\<lambda>o'. o'\<lparr>CertFile := v\<rparr>)"

definition WithPrivateKeyFile :: "string \<Rightarrow> ServerOption" where
  "WithPrivateKeyFile v = (\<lambda>o'. o'\<lparr>PrivateKeyFile := v\<rparr>)"

definition WithMaxConnectionsCount :: "goint \<Rightarrow> ServerOption" where
  "WithMaxConnectionsCount v = (\<lambda>o'. o'\<lparr>MaxConnectionsCount := v\<rparr>)"

definition WithConnectionGroupsCount :: "goint \<Rightarrow> ServerOption" where
  "WithConnectionGroupsCount v = (\<lambda>o'. o'\<lparr>ConnectionGroupsCount := v\<rparr>)"

definition WithConnectionReadBufferSize :: "uint32 \<Rightarrow> ServerOption" where
  "WithConnectionReadBufferSize v = (\<lambda>o'. o'\<lparr>ConnectionReadBufferSize := v\<rparr>)"

definition WithConnectionWriteBufferSize :: "uint32 \<Rightarrow> ServerOption" where
  "WithConnectionWriteBufferSize v = (\<lambda>o'. o'\<lparr>ConnectionWriteBufferSize := v\<rparr>)"

definition WithHeartbeatInterval :: "duration \<Rightarrow> ServerOption" where
  "WithHeartbeatInterval v = (\<lambda>o'. o'\<lparr>HeartbeatInterval := v\<rparr>)"

definition WithHeartbeatTimeout :: "duration \<Rightarrow> ServerOption" where
  "WithHeartbeatTimeout v = (\<lambda>o'. o'\<lparr>HeartbeatTimeout := v\<rparr>)"

section \<open>Standard library routines of the path check\<close>

definition strings_ContainsAny :: "string \<Rightarrow> string \<Rightarrow> bool" where
  "strings_ContainsAny s chars = list_ex (\<lambda>c. c \<in> set chars) s"

definition strings_HasSuffix :: "string \<Rightarrow> string \<Rightarrow> bool" where
  "strings_HasSuffix s suffix \<longleftrightarrow> length suffix \<le> length s \<and> drop (length s - length suffix) s = suffix"

definition ishex :: "char \<Rightarrow> bool" where
  "ishex c \<longleftrightarrow> c \<in> set ''0123456789abcdefABCDEF''"

text \<open>The check \<open>unescape\<close> makes on a path: every percent sign starts a two-digit escape.\<close>

fun valid_escapes :: "string \<Rightarrow> bool" where
  "valid_escapes [] = True"
| "valid_escapes (c # cs) =
     (if c = CHR ''%'' then
        (case cs of a # b # rest \<Rightarrow> ishex a \<and> ishex b \<and> valid_escapes rest | _ \<Rightarrow> False)
      else valid_escapes cs)"

definition containsCTLByte :: "string \<Rightarrow> bool" where
  "containsCTLByte s = list_ex (\<lambda>c. of_char c < (0x20 :: nat) \<or> of_char c = (0x7f :: nat)) s"

record parsed_url =
  url_Path :: string
  url_RawQuery :: string
  url_Fragment :: string

text \<open>
  \<open>url.ParseRequestURI\<close> on a string that starts with a slash: no scheme, no authority; what
  follows the first question mark is the query (a single trailing question mark only sets a
  flag); a number sign has no special meaning, the fragment stays empty. \<open>None\<close> is the error.
\<close>

definition url_ParseRequestURI :: "string \<Rightarrow> parsed_url option" where
  "url_ParseRequestURI rawURL =
     (if containsCTLByte rawURL then None
      else let path = takeWhile (\<lambda>c. c \<noteq> CHR ''?'') rawURL;
               rawQuery = tl (dropWhile (\<lambda>c. c \<noteq> CHR ''?'') rawURL)
        in if \<not> valid_escapes path then None
           else Some \<lparr>url_Path = path, url_RawQuery = rawQuery, url_Fragment = []\<rparr>)"

text \<open>\<open>path.Clean\<close> of a rooted path, element by element.\<close>

fun split_slash :: "string \<Rightarrow> string list" where
  "split_slash [] = [[]]"
| "split_slash (c # cs) =
     (if c = CHR ''/'' then [] # split_slash cs
      else case split_slash cs of [] \<Rightarrow> [[c]] | seg # segs \<Rightarrow> (c # seg) # segs)"

fun join_slash :: "string list \<Rightarrow> string" where
  "join_slash [] = []"
| "join_slash [seg] = seg"
| "join_slash (seg # segs) = seg @ CHR ''/'' # join_slash segs"

fun clean_elements :: "string list \<Rightarrow> string list \<Rightarrow> string list" where
  "clean_elements out [] = out"
| "clean_elements out (seg # segs) =
     (if seg = [] \<or> seg = ''.'' then clean_elements out segs
      else if seg = ''..'' then clean_elements (butlast out) segs
      else clean_elements (out @ [seg]) segs)"

definition path_Clean :: "string \<Rightarrow> string" where
  "path_Clean path = CHR ''/'' # join_slash (clean_elements [] (split_slash path))"

section \<open>Validation\<close>

fun validateTransports :: "Transport set \<Rightarrow> Transport list \<Rightarrow> go_error option" where
  "validateTransports seen [] = None"
| "validateTransports seen (transport # rest) =
     (if transport \<noteq> TransportTCP \<and> transport \<noteq> TransportWebSocket
        then Some (ErrInvalidConfiguration TransportUnsupported)
      else if transport \<in> seen then Some (ErrInvalidConfiguration TransportDuplicate)
      else validateTransports (insert transport seen) rest)"

definition validateWebSocket :: "ServerOptions \<Rightarrow> go_error option" where
  "validateWebSocket opts =
     (if sint (WebSocketPort opts) < 0 \<or> sint (WebSocketPort opts) > 65535
        then Some (ErrInvalidConfiguration WebSocketPortRange)
      else case WebSocketPath opts of
        [] \<Rightarrow> Some (ErrInvalidConfiguration WebSocketPathEmpty)
      | first # _ \<Rightarrow>
          if first \<noteq> CHR ''/'' then Some (ErrInvalidConfiguration WebSocketPathNoSlash)
          else if strings_ContainsAny (WebSocketPath opts) ''{}''
            then Some (ErrInvalidConfiguration WebSocketPathWildcard)
          else case url_ParseRequestURI (WebSocketPath opts) of
            None \<Rightarrow> Some (ErrInvalidConfiguration WebSocketPathInvalid)
          | Some parsedPath \<Rightarrow>
              if url_RawQuery parsedPath \<noteq> [] \<or> url_Fragment parsedPath \<noteq> []
                then Some (ErrInvalidConfiguration WebSocketPathInvalid)
              else let cleanedPath = path_Clean (WebSocketPath opts)
                       @ (if strings_HasSuffix (WebSocketPath opts) ''/'' \<and> WebSocketPath opts \<noteq> ''/''
                          then ''/'' else [])
                in if cleanedPath \<noteq> WebSocketPath opts
                     then Some (ErrInvalidConfiguration WebSocketPathUnclean)
                   else None)"

text \<open>
  A sequence of checks, each returning the error it finds: the first one found is returned.
\<close>

fun first_error :: "go_error option list \<Rightarrow> go_error option" where
  "first_error [] = None"
| "first_error (None # checks) = first_error checks"
| "first_error (Some err # checks) = Some err"

definition invalid_if :: "bool \<Rightarrow> config_reason \<Rightarrow> go_error option" where
  "invalid_if b reason = (if b then Some (ErrInvalidConfiguration reason) else None)"

definition validateServerOptions :: "ServerOptions \<Rightarrow> go_error option" where
  "validateServerOptions opts = first_error [
     invalid_if (Transports opts = []) TransportsEmpty,
     validateTransports {} (Transports opts),
     (if HasTransport opts TransportTCP
      then invalid_if (sint (Port opts) < 0 \<or> sint (Port opts) > 65535) PortRange else None),
     (if HasTransport opts TransportWebSocket then validateWebSocket opts else None),
     invalid_if (sint (MaxConnectionsCount opts) \<le> 0) MaxConnectionsNotPositive,
     invalid_if (sint (ConnectionGroupsCount opts) \<le> 0) GroupsNotPositive,
     invalid_if (ConnectionReadBufferSize opts = 0) ReadBufferZero,
     invalid_if (ConnectionWriteBufferSize opts = 0) WriteBufferZero,
     invalid_if (WorkerCount opts = 0) WorkerCountZero,
     invalid_if (WorkerQueueCapacity opts = 0) QueueCapacityZero,
     invalid_if (MaxFrameLength opts = 0) MaxFrameLengthZero,
     invalid_if (sint (ShutdownTimeout opts) \<le> 0) ShutdownTimeoutNotPositive,
     invalid_if (sint (HeartbeatInterval opts) \<le> 0) HeartbeatIntervalNotPositive,
     invalid_if (sint (HeartbeatTimeout opts) \<le> 0) HeartbeatTimeoutNotPositive,
     invalid_if (sint (HeartbeatTimeout opts) < sint (HeartbeatInterval opts))
       HeartbeatTimeoutBelowInterval,
     invalid_if ((CertFile opts = []) \<noteq> (PrivateKeyFile opts = [])) CertKeyMismatch,
     invalid_if (HasTransport opts TransportTCP \<and>
                 IPVersion opts \<notin> {''tcp'', ''tcp4'', ''tcp6''}) IPVersionInvalid]"

section \<open>Transports: de-duplication and membership\<close>

lemma HasTransport_iff [simp]: "HasTransport opts t \<longleftrightarrow> t \<in> set (Transports opts)"
proof -
  have "HasTransport_in ts t \<longleftrightarrow> t \<in> set ts" for ts by (induction ts) auto
  then show ?thesis by (simp add: HasTransport_def)
qed

lemma dedupTransports_eq:
  "distinct copied \<Longrightarrow> seen = set copied \<Longrightarrow>
   dedupTransports copied seen ts = copied @ rev (remdups (rev (filter (\<lambda>t. t \<notin> seen) ts)))"
proof (induction ts arbitrary: copied seen)
  case (Cons t ts)
  show ?case
  proof (cases "t \<in> seen")
    case True
    with Cons show ?thesis by simp
  next
    case False
    have aux: "rev (remdups (rev (t # xs))) = t # rev (remdups (rev (filter (\<lambda>x. x \<noteq> t) xs)))" for xs :: "Transport list"
    proof -
      have "remdups (ys @ [t]) = remdups (filter (\<lambda>x. x \<noteq> t) ys) @ [t]" for ys :: "Transport list"
        by (induction ys) auto
      from this [of "rev xs"] show ?thesis by (simp add: rev_filter)
    qed
    have f: "filter (\<lambda>x. x \<notin> insert t seen) ts = filter (\<lambda>x. x \<noteq> t) (filter (\<lambda>x. x \<notin> seen) ts)"
      by (auto intro: filter_cong)
    from False Cons.prems Cons.IH [of "copied @ [t]" "insert t seen"] show ?thesis
      using aux [of "filter (\<lambda>x. x \<notin> seen) ts"] f by simp
  qed
qed simp

lemma dedupTransports_set: "set (dedupTransports [] {} ts) = set ts"
  by (simp add: dedupTransports_eq)

lemma dedupTransports_distinct: "distinct (dedupTransports [] {} ts)"
  by (simp add: dedupTransports_eq)

lemma dedupTransports_id: "distinct ts \<Longrightarrow> dedupTransports [] {} ts = ts"
  by (simp add: dedupTransports_eq distinct_remdups_id)

lemma validateTransports_None:
  "validateTransports seen ts = None \<longleftrightarrow>
   set ts \<subseteq> {TransportTCP, TransportWebSocket} \<and> distinct ts \<and> set ts \<inter> seen = {}"
  by (induction ts arbitrary: seen) auto

section \<open>Clean paths\<close>

text \<open>An element of a clean path.\<close>

definition clean_element :: "string \<Rightarrow> bool" where
  "clean_element seg \<longleftrightarrow> seg \<noteq> [] \<and> seg \<noteq> ''.'' \<and> seg \<noteq> ''..'' \<and> CHR ''/'' \<notin> set seg"

lemma split_slash_not_Nil [simp]: "split_slash s \<noteq> []"
  by (induction s) (auto split: list.splits)

lemma split_slash_no_slash: "seg \<in> set (split_slash s) \<Longrightarrow> CHR ''/'' \<notin> set seg"
  by (induction s arbitrary: seg) (auto split: list.splits if_splits)

lemma split_slash_single: "CHR ''/'' \<notin> set seg \<Longrightarrow> split_slash seg = [seg]"
  by (induction seg) auto

lemma split_slash_append:
  "CHR ''/'' \<notin> set seg \<Longrightarrow> split_slash (seg @ CHR ''/'' # s) = seg # split_slash s"
  by (induction seg) auto

lemma split_join_slash:
  "segs \<noteq> [] \<Longrightarrow> \<forall>seg \<in> set segs. CHR ''/'' \<notin> set seg \<Longrightarrow> split_slash (join_slash segs) = segs"
  by (induction segs rule: join_slash.induct) (simp_all add: split_slash_single split_slash_append)

lemma split_join_slash_trailing:
  "segs \<noteq> [] \<Longrightarrow> \<forall>seg \<in> set segs. CHR ''/'' \<notin> set seg \<Longrightarrow>
   split_slash (join_slash segs @ ''/'') = segs @ [[]]"
  by (induction segs rule: join_slash.induct) (simp_all add: split_slash_append)

lemma clean_elements_append:
  "\<forall>seg \<in> set segs. clean_element seg \<Longrightarrow> clean_elements out (segs @ rest) = clean_elements (out @ segs) rest"
  by (induction segs arbitrary: out) (auto simp: clean_element_def)

lemma clean_elements_clean:
  "\<forall>seg \<in> set out. clean_element seg \<Longrightarrow> \<forall>seg \<in> set segs. CHR ''/'' \<notin> set seg \<Longrightarrow>
   \<forall>seg \<in> set (clean_elements out segs). clean_element seg"
proof (induction segs arbitrary: out)
  case (Cons seg segs)
  then have IH: "\<forall>seg \<in> set (clean_elements out' segs). clean_element seg"
    if "\<forall>seg \<in> set out'. clean_element seg" for out'
    using that by simp
  consider "seg = [] \<or> seg = ''.''" | "\<not> (seg = [] \<or> seg = ''.'')" "seg = ''..''"
    | "\<not> (seg = [] \<or> seg = ''.'')" "seg \<noteq> ''..''"
    by blast
  then show ?case
  proof cases
    case 1
    with IH Cons.prems show ?thesis by (simp only: clean_elements.simps if_True)
  next
    case 2
    have "\<forall>seg \<in> set (butlast out). clean_element seg"
      using Cons.prems by (blast dest: in_set_butlastD)
    with 2 IH show ?thesis by simp
  next
    case 3
    with Cons.prems have "clean_element seg" by (simp add: clean_element_def)
    with Cons.prems have "\<forall>seg \<in> set (out @ [seg]). clean_element seg" by simp
    with 3 IH show ?thesis by (simp only: clean_elements.simps if_False)
  qed
qed simp

lemma path_Clean_form:
  "\<exists>segs. path_Clean path = CHR ''/'' # join_slash segs \<and> (\<forall>seg \<in> set segs. clean_element seg)"
  using clean_elements_clean [of "[]" "split_slash path"] split_slash_no_slash [of _ path]
  by (auto simp: path_Clean_def)

lemma path_Clean_clean:
  assumes "\<forall>seg \<in> set segs. clean_element seg"
  shows "path_Clean (CHR ''/'' # join_slash segs) = CHR ''/'' # join_slash segs"
    and "segs \<noteq> [] \<Longrightarrow> path_Clean (CHR ''/'' # join_slash segs @ ''/'') = CHR ''/'' # join_slash segs"
proof -
  have ns: "\<forall>seg \<in> set segs. CHR ''/'' \<notin> set seg" using assms by (simp add: clean_element_def)
  show "path_Clean (CHR ''/'' # join_slash segs) = CHR ''/'' # join_slash segs"
    using clean_elements_append [OF assms, of "[]" "[]"] split_join_slash [OF _ ns]
    by (cases "segs = []") (simp_all add: path_Clean_def)
  show "path_Clean (CHR ''/'' # join_slash segs @ ''/'') = CHR ''/'' # join_slash segs"
    if "segs \<noteq> []"
    using clean_elements_append [OF assms, of "[]" "[[]]"] split_join_slash_trailing [OF that ns]
    by (simp add: path_Clean_def)
qed

lemma strings_HasSuffix_slash: "strings_HasSuffix s ''/'' \<longleftrightarrow> s \<noteq> [] \<and> last s = CHR ''/''"
  by (cases s rule: rev_cases) (simp_all add: strings_HasSuffix_def)

lemma last_join_slash:
  "segs \<noteq> [] \<Longrightarrow> \<forall>seg \<in> set segs. clean_element seg \<Longrightarrow>
   join_slash segs \<noteq> [] \<and> last (join_slash segs) \<noteq> CHR ''/''"
proof (induction segs rule: join_slash.induct)
  case (2 seg)
  then have "seg \<noteq> []" "CHR ''/'' \<notin> set seg" by (simp_all add: clean_element_def)
  then show ?case by (metis join_slash.simps(2) last_in_set)
qed auto

text \<open>The path check of the validation, for a path that starts with a slash.\<close>

lemma cleaned_eq_iff:
  assumes "path = CHR ''/'' # rest"
  shows "path_Clean path @ (if strings_HasSuffix path ''/'' \<and> path \<noteq> ''/'' then ''/'' else []) = path
    \<longleftrightarrow> (\<exists>segs. (\<forall>seg \<in> set segs. clean_element seg) \<and>
          (path = CHR ''/'' # join_slash segs \<or> path = CHR ''/'' # join_slash segs @ ''/''))"
    (is "?lhs \<longleftrightarrow> ?rhs")
proof
  assume l: ?lhs
  obtain segs where s: "path_Clean path = CHR ''/'' # join_slash segs" "\<forall>seg \<in> set segs. clean_element seg"
    using path_Clean_form by blast
  with l show ?rhs by (intro exI [of _ segs]) (auto split: if_splits)
next
  assume ?rhs
  then obtain segs where segs: "\<forall>seg \<in> set segs. clean_element seg"
    and p: "path = CHR ''/'' # join_slash segs \<or> path = CHR ''/'' # join_slash segs @ ''/''" by blast
  show ?lhs
  proof (cases "segs = []")
    case True
    with p show ?thesis
      by (auto simp: strings_HasSuffix_slash path_Clean_def)
  next
    case False
    with p path_Clean_clean [OF segs] last_join_slash [OF False segs] show ?thesis
      by (auto simp: strings_HasSuffix_slash)
  qed
qed

section \<open>What the validation accepts\<close>

definition websocket_path_ok :: "string \<Rightarrow> bool" where
  "websocket_path_ok path \<longleftrightarrow>
     (\<exists>segs. (\<forall>seg \<in> set segs. clean_element seg) \<and>
        (path = CHR ''/'' # join_slash segs \<or> path = CHR ''/'' # join_slash segs @ ''/'')) \<and>
     CHR ''{'' \<notin> set path \<and> CHR ''}'' \<notin> set path \<and> \<not> containsCTLByte path \<and>
     CHR ''?'' \<notin> set (butlast path) \<and>
     valid_escapes (takeWhile (\<lambda>c. c \<noteq> CHR ''?'') path)"

definition options_ok :: "ServerOptions \<Rightarrow> bool" where
  "options_ok opts \<longleftrightarrow>
     Transports opts \<noteq> [] \<and> distinct (Transports opts) \<and>
     set (Transports opts) \<subseteq> {TransportTCP, TransportWebSocket} \<and>
     (TransportTCP \<in> set (Transports opts) \<longrightarrow>
        sint (Port opts) \<in> {0..65535} \<and> IPVersion opts \<in> {''tcp'', ''tcp4'', ''tcp6''}) \<and>
     (TransportWebSocket \<in> set (Transports opts) \<longrightarrow>
        sint (WebSocketPort opts) \<in> {0..65535} \<and> websocket_path_ok (WebSocketPath opts)) \<and>
     0 < sint (MaxConnectionsCount opts) \<and> 0 < sint (ConnectionGroupsCount opts) \<and>
     0 < ConnectionReadBufferSize opts \<and> 0 < ConnectionWriteBufferSize opts \<and>
     0 < WorkerCount opts \<and> 0 < WorkerQueueCapacity opts \<and> 0 < MaxFrameLength opts \<and>
     0 < sint (ShutdownTimeout opts) \<and> 0 < sint (HeartbeatInterval opts) \<and>
     sint (HeartbeatInterval opts) \<le> sint (HeartbeatTimeout opts) \<and>
     (CertFile opts = [] \<longleftrightarrow> PrivateKeyFile opts = [])"

lemma first_error_None: "first_error checks = None \<longleftrightarrow> list_all (\<lambda>c. c = None) checks"
  by (induction checks rule: first_error.induct) auto

lemma first_error_in: "first_error checks = Some e \<Longrightarrow> Some e \<in> set checks"
  by (induction checks rule: first_error.induct) auto

lemma invalid_if_other: "r \<noteq> r' \<Longrightarrow> Some (ErrInvalidConfiguration r') \<noteq> invalid_if b r"
  by (simp add: invalid_if_def)

lemma invalid_if_None: "invalid_if b r = None \<longleftrightarrow> \<not> b"
  by (simp add: invalid_if_def)

lemma query_empty_iff:
  "tl (dropWhile (\<lambda>c. c \<noteq> q) s) = [] \<longleftrightarrow> q \<notin> set (butlast s)"
  by (induction s) auto

lemma validateWebSocket_None:
  "validateWebSocket opts = None \<longleftrightarrow>
   sint (WebSocketPort opts) \<in> {0..65535} \<and> websocket_path_ok (WebSocketPath opts)"
proof (cases "WebSocketPath opts")
  case Nil
  then show ?thesis by (simp add: validateWebSocket_def websocket_path_ok_def)
next
  case (Cons c rest)
  show ?thesis
  proof (cases "c = CHR ''/''")
    case True
    with Cons cleaned_eq_iff [of "WebSocketPath opts" rest] show ?thesis
      by (auto simp: validateWebSocket_def websocket_path_ok_def url_ParseRequestURI_def Let_def
          strings_ContainsAny_def list_ex_iff query_empty_iff split: if_splits)
  next
    case False
    with Cons show ?thesis by (auto simp: validateWebSocket_def websocket_path_ok_def)
  qed
qed

lemma validateServerOptions_None: "validateServerOptions opts = None \<longleftrightarrow> options_ok opts"
  unfolding validateServerOptions_def first_error_None options_ok_def
  by (auto simp: invalid_if_None validateTransports_None validateWebSocket_None word_gt_0)

text \<open>
  The defaults are valid: with any positive number of threads that fits the 32-bit worker
  count, the default options pass the validation.
\<close>

lemma default_options_valid:
  assumes "0 < (ucast gomaxprocs :: uint32)"
  shows "validateServerOptions (defaultServerOptions gomaxprocs) = None"
proof -
  have "websocket_path_ok ''/ws''"
    unfolding websocket_path_ok_def
    by (intro conjI exI [of _ "[''ws'']"]) (auto simp: clean_element_def containsCTLByte_def)
  with assms show ?thesis
    by (simp add: validateServerOptions_None options_ok_def defaultServerOptions_def time_Second_def)
qed

section \<open>Properties\<close>


text \<open>
  \<open>WithTransports\<close> keeps each transport once, at its first occurrence: the result has the
  same elements, no duplicates and follows the order of the argument, so the validation of the
  resulting options never reports a duplicate.
\<close>

lemma with_transports_dedup:
  "let ts' = Transports (WithTransports ts opts)
   in set ts' = set ts \<and> distinct ts' \<and> ts' = rev (remdups (rev ts)) \<and>
      validateServerOptions (WithTransports ts opts)
        \<noteq> Some (ErrInvalidConfiguration TransportDuplicate)"
proof -
  have v: "validateTransports seen ts' \<noteq> Some (ErrInvalidConfiguration TransportDuplicate)"
    if "distinct ts'" "set ts' \<inter> seen = {}" for seen ts'
    using that by (induction ts' arbitrary: seen) auto
  have "validateServerOptions (WithTransports ts opts) \<noteq> Some (ErrInvalidConfiguration TransportDuplicate)"
    (is "validateServerOptions ?o \<noteq> _")
  proof
    assume "validateServerOptions ?o = Some (ErrInvalidConfiguration TransportDuplicate)"
    moreover have "validateWebSocket ?o \<noteq> Some (ErrInvalidConfiguration TransportDuplicate)"
      by (auto simp: validateWebSocket_def Let_def split: if_splits list.splits option.splits)
    moreover have "validateTransports {} (Transports ?o) \<noteq> Some (ErrInvalidConfiguration TransportDuplicate)"
      using v [of "Transports ?o" "{}"] dedupTransports_distinct [of ts] by (simp add: WithTransports_def)
    ultimately show False
      unfolding validateServerOptions_def
      by (auto simp only: list.set insert_iff empty_iff invalid_if_other config_reason.distinct
          option.distinct simp_thms dest!: first_error_in split: if_splits)
  qed
  then show ?thesis
    by (simp add: WithTransports_def dedupTransports_eq Let_def)
qed

text \<open>
  Paths that the cleanliness check lets through although no request can match them, or
  although they carry a query or fragment mark: a double slash (its cleaned form gets the
  trailing slash appended and so equals it), a trailing question mark (which leaves the raw
  query empty) and a number sign (a request URI has no fragment, the fragment test never
  fires).
\<close>

lemma websocket_path_gaps:
  "validateWebSocket ((defaultServerOptions 8)\<lparr>WebSocketPath := ''//''\<rparr>) = None \<and>
   validateWebSocket ((defaultServerOptions 8)\<lparr>WebSocketPath := ''/ws?''\<rparr>) = None \<and>
   validateWebSocket ((defaultServerOptions 8)\<lparr>WebSocketPath := ''/ws#live''\<rparr>) = None"
  by code_simp

end
