(* ===== verification/Codec.thy ===== *)
theory Codec
  imports Errors
begin

text \<open>
  The message codec: \<open>src/message.go\<close>, \<open>src/encoder.go\<close> and \<open>src/decoder.go\<close>. A message is
  an event number and a body; on the wire it is an 8-byte header (event and body length,
  little-endian) and the body. The locale \<open>message_codec\<close> is the contract between the two
  directions, which the theory of the byte stream builds on.
\<close>

section \<open>Messages\<close>

record Message =
  Event :: uint32
  Body :: "byte list"
  BodySize :: uint32

section \<open>Encoder\<close>

definition maxEncodedBodyLength :: uint64 where
  "maxEncodedBodyLength =
     (if sint maxInt < 8 then 0
      else let allocationLimit = maxInt - 8
           in if allocationLimit > MaxUint32 then MaxUint32 else allocationLimit)"

definition validateEncodedBodyLength :: "uint64 \<Rightarrow> uint64 \<Rightarrow> go_error option" where
  "validateEncodedBodyLength bodyLength maxBodyLength =
     (if bodyLength > maxBodyLength then Some (ErrInvalidFrame BodyLengthUnsupported) else None)"

definition Encoder_Encode :: "Message \<Rightarrow> (go_error, byte list) outcome" where
  "Encoder_Encode message =
     (let bodyLength = length (Body message)
      in case validateEncodedBodyLength (of_nat bodyLength) maxEncodedBodyLength of
           Some err \<Rightarrow> Err err
         | None \<Rightarrow> Ok (le_PutUint32 (Event message) @ le_PutUint32 (of_nat bodyLength)
                        @ Body message))"

section \<open>Decoder\<close>

definition headerSize :: nat where
  "headerSize = 8"

definition validateDecodedBodySize :: "uint32 \<Rightarrow> uint64 \<Rightarrow> go_error option" where
  "validateDecodedBodySize declared actual =
     (if actual > MaxUint32 then Some (ErrInvalidFrame BodyExceedsUint32)
      else if (ucast declared :: uint64) \<noteq> actual then Some (ErrInvalidFrame BodySizeMismatch)
      else None)"

definition Decoder_Decode :: "byte list \<Rightarrow> (go_error, Message) outcome" where
  "Decoder_Decode data =
     (if length data < headerSize then Err (ErrInvalidFrame FrameTooShort)
      else obind (goslice data 0 4) (\<lambda>eventField. obind (le_Uint32 eventField) (\<lambda>event.
           obind (goslice data 4 8) (\<lambda>sizeField. obind (le_Uint32 sizeField) (\<lambda>bodySize.
             case validateDecodedBodySize bodySize (of_nat (length data - headerSize)) of
               Some err \<Rightarrow> Err err
             | None \<Rightarrow>
                 obind (goslice data (int headerSize) (int (length data))) (\<lambda>body.
                   Ok \<lparr>Event = event, Body = body, BodySize = bodySize\<rparr>))))))"

section \<open>Closed forms\<close>

text \<open>
  On every list that a Go slice can be (fewer than \<open>2\<^sup>6\<^sup>4\<close> bytes) the two operations have
  a simple description, from which the properties below follow.
\<close>

lemma maxEncodedBodyLength_eq [simp]: "maxEncodedBodyLength = MaxUint32"
  by (simp add: maxEncodedBodyLength_def)

lemma less_MaxUint32_iff [simp]:
  "n < 2 ^ 64 \<Longrightarrow> MaxUint32 < (of_nat n :: uint64) \<longleftrightarrow> 2 ^ 32 \<le> n"
  by (simp add: word_less_nat_alt) linarith

lemma Encoder_Encode_eq:
  assumes "length (Body m) < 2 ^ 64"
  shows "Encoder_Encode m = (if length (Body m) < 2 ^ 32
    then Ok (le_PutUint32 (Event m) @ le_PutUint32 (of_nat (length (Body m))) @ Body m)
    else Err (ErrInvalidFrame BodyLengthUnsupported))"
  using assms by (simp add: Encoder_Encode_def validateEncodedBodyLength_def)

lemma ucast_u32_eq_of_nat:
  assumes "n < 2 ^ 32"
  shows "(ucast (s :: uint32) :: uint64) = of_nat n \<longleftrightarrow> s = of_nat n"
proof -
  have "(ucast s :: uint64) = of_nat n \<longleftrightarrow> unat s = n"
    using assms by (simp add: word_unat_eq_iff)
  also have "\<dots> \<longleftrightarrow> s = of_nat n"
    using assms by (auto simp: word_unat_eq_iff)
  finally show ?thesis .
qed

text \<open>Any list of at least eight bytes is a header followed by a body.\<close>

lemma header_split:
  assumes "headerSize \<le> length data"
  obtains ev sz body where "data = le_PutUint32 ev @ le_PutUint32 sz @ body"
proof -
  have four: "\<exists>v. le_PutUint32 v = bs" if "length bs = 4" for bs
    using that le_Uint32_ok [of bs] le_Put_Uint32 [of bs] by auto
  obtain ev where ev: "le_PutUint32 ev = take 4 data"
    using four [of "take 4 data"] assms by (auto simp: headerSize_def)
  obtain sz where sz: "le_PutUint32 sz = take 4 (drop 4 data)"
    using four [of "take 4 (drop 4 data)"] assms by (auto simp: headerSize_def)
  have "data = le_PutUint32 ev @ le_PutUint32 sz @ drop 8 data"
    using append_take_drop_id [of 4 data] append_take_drop_id [of 4 "drop 4 data"]
    by (simp add: ev sz)
  then show ?thesis by (rule that)
qed

lemma Decoder_Decode_short:
  "length data < headerSize \<Longrightarrow> Decoder_Decode data = Err (ErrInvalidFrame FrameTooShort)"
  by (simp add: Decoder_Decode_def)

lemma Decoder_Decode_header:
  assumes "length body + headerSize < 2 ^ 64"
  shows "Decoder_Decode (le_PutUint32 ev @ le_PutUint32 sz @ body) =
    (if 2 ^ 32 \<le> length body then Err (ErrInvalidFrame BodyExceedsUint32)
     else if sz \<noteq> of_nat (length body) then Err (ErrInvalidFrame BodySizeMismatch)
     else Ok \<lparr>Event = ev, Body = body, BodySize = sz\<rparr>)"
  using assms
  by (simp add: Decoder_Decode_def headerSize_def validateDecodedBodySize_def ucast_u32_eq_of_nat
      not_le)

section \<open>The contract of the codec\<close>

text \<open>What the rest of the server may rely on when it pairs an encoder with a decoder.\<close>

locale message_codec =
  fixes enc :: "Message \<Rightarrow> (go_error, byte list) outcome"
    and dec :: "byte list \<Rightarrow> (go_error, Message) outcome"
    and wf :: "Message \<Rightarrow> bool"
  assumes enc_wf: "wf m \<Longrightarrow> \<exists>d. enc m = Ok d"
    and dec_enc: "wf m \<Longrightarrow> enc m = Ok d \<Longrightarrow> dec d = Ok m"
    and enc_dec: "length d < 2 ^ 63 \<Longrightarrow> dec d = Ok m \<Longrightarrow> wf m \<and> enc m = Ok d"
begin

lemma enc_inject: "wf m \<Longrightarrow> wf m' \<Longrightarrow> enc m = enc m' \<Longrightarrow> m = m'"
  using enc_wf [of m] dec_enc [of m] dec_enc [of m'] by force

lemma dec_inject:
  "length d < 2 ^ 63 \<Longrightarrow> length d' < 2 ^ 63 \<Longrightarrow> dec d = Ok m \<Longrightarrow> dec d' = Ok m \<Longrightarrow> d = d'"
  using enc_dec [of d m] enc_dec [of d' m] by simp

text \<open>Decoding what a list of well-formed messages was encoded to gives the list back.\<close>

lemma dec_enc_list:
  assumes "list_all wf ms" and "list_all2 (\<lambda>m d. enc m = Ok d) ms ds"
  shows "map dec ds = map Ok ms"
  using assms(2,1) by (induction rule: list_all2_induct) (auto simp: dec_enc)

end

text \<open>A message whose size field says how long its body is, as \<open>Send\<close> and the decoder build it.\<close>

definition message_ok :: "Message \<Rightarrow> bool" where
  "message_ok m \<longleftrightarrow> length (Body m) < 2 ^ 32 \<and> BodySize m = of_nat (length (Body m))"

lemma Encoder_Encode_ok:
  "message_ok m \<Longrightarrow>
   Encoder_Encode m = Ok (le_PutUint32 (Event m) @ le_PutUint32 (BodySize m) @ Body m)"
  by (simp add: message_ok_def Encoder_Encode_eq)

lemma Decoder_Decode_Ok_iff:
  assumes "length d < 2 ^ 64"
  shows "Decoder_Decode d = Ok m \<longleftrightarrow>
    message_ok m \<and> d = le_PutUint32 (Event m) @ le_PutUint32 (BodySize m) @ Body m"
proof (cases "length d < headerSize")
  case True
  then show ?thesis by (auto simp: Decoder_Decode_short headerSize_def)
next
  case False
  then obtain ev sz body where d: "d = le_PutUint32 ev @ le_PutUint32 sz @ body"
    using header_split [of d] by (auto simp: not_less)
  from assms d show ?thesis
    by (cases m) (auto simp: Decoder_Decode_header headerSize_def message_ok_def)
qed

interpretation mc: message_codec Encoder_Encode Decoder_Decode message_ok
proof unfold_locales
  fix m :: Message and d :: "byte list"
  assume "message_ok m"
  then show "\<exists>d. Encoder_Encode m = Ok d" by (simp add: Encoder_Encode_ok)
next
  fix m :: Message and d :: "byte list"
  assume m: "message_ok m" and "Encoder_Encode m = Ok d"
  then have d: "d = le_PutUint32 (Event m) @ le_PutUint32 (BodySize m) @ Body m"
    by (simp add: Encoder_Encode_ok)
  with m have "length d < 2 ^ 64" by (simp add: message_ok_def)
  with m d show "Decoder_Decode d = Ok m" by (simp add: Decoder_Decode_Ok_iff)
next
  fix m :: Message and d :: "byte list"
  assume "length d < 2 ^ 63" and "Decoder_Decode d = Ok m"
  then show "message_ok m \<and> Encoder_Encode m = Ok d"
    by (simp add: Decoder_Decode_Ok_iff Encoder_Encode_ok)
qed

section \<open>Properties\<close>

text \<open>
  C20. Encoding and decoding are inverse: every message the encoder takes (a body below
  \<open>2\<^sup>3\<^sup>2\<close> bytes) is encoded to 8 header bytes and its body, and decoding gives event and
  body back with the size field set to the body length, whatever the size field of the
  argument said; a longer body is refused.
\<close>

theorem codec_roundtrip:
  assumes "length (Body m) < 2 ^ 63"
  shows "case Encoder_Encode m of
      Ok d \<Rightarrow> length (Body m) < 2 ^ 32 \<and> length d = 8 + length (Body m) \<and>
              Decoder_Decode d = Ok (m\<lparr>BodySize := of_nat (length (Body m))\<rparr>)
    | Err e \<Rightarrow> 2 ^ 32 \<le> length (Body m) \<and> e = ErrInvalidFrame BodyLengthUnsupported
    | Panic \<Rightarrow> False"
proof (cases "length (Body m) < 2 ^ 32")
  case True
  let ?m = "m\<lparr>BodySize := of_nat (length (Body m))\<rparr>"
  have ok: "message_ok ?m" using True by (simp add: message_ok_def)
  have enc: "Encoder_Encode m = Encoder_Encode ?m" using assms by (simp add: Encoder_Encode_eq)
  show ?thesis
    using True Encoder_Encode_ok [OF ok] mc.dec_enc [OF ok] by (simp add: enc)
next
  case False
  with assms show ?thesis by (simp add: Encoder_Encode_eq)
qed

theorem codec_roundtrip_witness:
  "Encoder_Encode \<lparr>Event = 1, Body = [7], BodySize = 9\<rparr> = Ok [1, 0, 0, 0, 1, 0, 0, 0, 7] \<and>
   Decoder_Decode [1, 0, 0, 0, 1, 0, 0, 0, 7] = Ok \<lparr>Event = 1, Body = [7], BodySize = 1\<rparr>"
proof -
  have "Encoder_Encode \<lparr>Event = 1, Body = [7], BodySize = 9\<rparr> = Ok [1, 0, 0, 0, 1, 0, 0, 0, 7]"
    by (simp add: Encoder_Encode_eq le_PutUint32_def)
  with codec_roundtrip [of "\<lparr>Event = 1, Body = [7], BodySize = 9\<rparr>"] show ?thesis by simp
qed

text \<open>
  C21. The decoder is total and exact: it never panics; what it accepts is the encoding of the
  message it returns; it refuses a list of fewer than 8 bytes, a body that no 32-bit size can
  describe, and a size field that is not the length of the body, each with its own reason.
\<close>

theorem decoder_exact:
  assumes "length data < 2 ^ 63"
  shows "case Decoder_Decode data of
      Ok m \<Rightarrow> message_ok m \<and> Encoder_Encode m = Ok data
    | Err e \<Rightarrow>
        length data < 8 \<and> e = ErrInvalidFrame FrameTooShort \<or>
        2 ^ 32 + 8 \<le> length data \<and> e = ErrInvalidFrame BodyExceedsUint32 \<or>
        8 \<le> length data \<and> length data < 2 ^ 32 + 8 \<and> e = ErrInvalidFrame BodySizeMismatch \<and>
          (\<nexists>m. Encoder_Encode m = Ok data)
    | Panic \<Rightarrow> False"
proof (cases "length data < headerSize")
  case True
  then show ?thesis by (simp add: Decoder_Decode_short headerSize_def)
next
  case False
  then obtain ev sz body where d: "data = le_PutUint32 ev @ le_PutUint32 sz @ body"
    using header_split [of data] by (auto simp: not_less)
  note dec = Decoder_Decode_header [of body ev sz]
  consider "2 ^ 32 \<le> length body" | "length body < 2 ^ 32" "sz \<noteq> of_nat (length body)"
    | "length body < 2 ^ 32" "sz = of_nat (length body)"
    by linarith
  then show ?thesis
  proof cases
    case 2
    have "\<nexists>m. Encoder_Encode m = Ok data"
      using 2 d by (auto simp: Encoder_Encode_def Let_def split: option.splits)
    with 2 d dec assms show ?thesis by (simp add: headerSize_def)
  next
    case 3
    with d dec assms mc.enc_dec [of data] show ?thesis by (simp add: headerSize_def)
  qed (use d dec assms in \<open>simp add: headerSize_def\<close>)
qed

theorem decoder_exact_witness:
  "Decoder_Decode [1, 0, 0, 0, 2, 0, 0, 0, 7] = Err (ErrInvalidFrame BodySizeMismatch) \<and>
   (\<nexists>m. Encoder_Encode m = Ok [1, 0, 0, 0, 2, 0, 0, 0, 7])"
proof -
  have "Decoder_Decode [1, 0, 0, 0, 2, 0, 0, 0, 7] = Err (ErrInvalidFrame BodySizeMismatch)"
    by (simp add: Decoder_Decode_def headerSize_def goslice_def validateDecodedBodySize_def)
  with decoder_exact [of "[1, 0, 0, 0, 2, 0, 0, 0, 7]"] show ?thesis by simp
qed

end
