(* ===== verification/Router.thy ===== *)
theory Router
  imports Errors
begin

text \<open>
  Routes and route groups (\<open>src/router.go\<close>) and the life-cycle state that guards their
  mutation (\<open>src/server_state.go\<close>).

  Handlers are kept in Go slices, and slices of one backing array share their elements: an
  \<open>append\<close> to one of them may overwrite what another one holds. The model therefore has the
  backing arrays as an explicit store and a slice as an address, a length and a capacity.
  The main result is that this never shows: every sequence of operations has the effect it
  has on plain lists (\<open>router_refines\<close>), because the code copies a slice wherever a second
  owner appears.
\<close>

section \<open>Life-cycle states\<close>

datatype serverState = stateNew | stateStarting | stateRunning | stateStopping | stateStopped

definition mutationErrorLocked :: "serverState \<Rightarrow> go_error option" where
  "mutationErrorLocked st = (case st of
      stateNew \<Rightarrow> None
    | stateStopped \<Rightarrow> Some ErrServerStopped
    | _ \<Rightarrow> Some ErrServerRunning)"

lemma mutationErrorLocked_None [simp]: "mutationErrorLocked st = None \<longleftrightarrow> st = stateNew"
  by (cases st) (simp_all add: mutationErrorLocked_def)

section \<open>Slices\<close>

text \<open>
  \<open>'h\<close> is the type of the handler functions; a \<open>Handler\<close> variable may also hold nil. The
  handler slices are never resliced, so every slice starts at the beginning of its array.
\<close>

type_synonym 'h Handler = "'h option"
type_synonym 'h store = "'h Handler list list"  \<comment> \<open>the backing arrays, by address\<close>

record slice =
  base :: nat
  len :: nat
  cap :: nat

definition nil_slice :: slice where
  "nil_slice = \<lparr>base = 0, len = 0, cap = 0\<rparr>"

definition elems :: "'h store \<Rightarrow> slice \<Rightarrow> 'h Handler list" where
  "elems h s = (if cap s = 0 then [] else take (len s) (h ! base s))"

text \<open>
  \<open>append(s, xs...)\<close>: in place when the capacity suffices, otherwise into a new array. How
  much room beyond the need a new array has is left open by the language; \<open>grow\<close> gives it.
\<close>

definition go_append ::
  "(nat \<Rightarrow> nat) \<Rightarrow> 'h store \<Rightarrow> slice \<Rightarrow> 'h Handler list \<Rightarrow> 'h store \<times> slice" where
  "go_append grow h s xs =
     (let need = len s + length xs in
      if xs = [] then (h, s)
      else if need \<le> cap s
      then (h[base s := take (len s) (h ! base s) @ xs @ drop need (h ! base s)], s\<lparr>len := need\<rparr>)
      else (h @ [elems h s @ xs @ replicate (grow need) None],
            \<lparr>base = length h, len = need, cap = need + grow need\<rparr>))"

definition slice_ok :: "'h store \<Rightarrow> slice \<Rightarrow> bool" where
  "slice_ok h s \<longleftrightarrow> len s \<le> cap s \<and> (0 < cap s \<longrightarrow> base s < length h \<and> length (h ! base s) = cap s)"

section \<open>Groups and routes\<close>

record routeGroup =
  has_server :: bool             \<comment> \<open>\<open>server != nil\<close>\<close>
  parent :: "nat option"         \<comment> \<open>the group it was made from, by address\<close>
  group_handlers :: slice

text \<open>
  \<open>routes\<close> is the router's map, \<open>runtimeRoutes\<close> the server's frozen copy of it (nil before
  the first \<open>Run\<close>); maps are association lists in which the iteration order is the order of
  the list.
\<close>

record 'h routing =
  arrays :: "'h store"
  groups :: "routeGroup list"
  routes :: "(uint32 \<times> slice) list"
  runtimeRoutes :: "(uint32 \<times> slice) list option"

definition newRouter :: "'h routing" where
  "newRouter = \<lparr>arrays = [], groups = [], routes = [], runtimeRoutes = None\<rparr>"

definition newGroup :: "'h routing \<Rightarrow> 'h routing" where
  "newGroup w = w\<lparr>groups := groups w @ [\<lparr>has_server = False, parent = None, group_handlers = nil_slice\<rparr>]\<rparr>"

text \<open>The root group of a server: \<open>newGroup\<close>, then \<open>routeGroup.server = server\<close>.\<close>

definition serverRouting :: "'h routing" where
  "serverRouting = (let w = newGroup newRouter in w\<lparr>groups := map (has_server_update (\<lambda>_. True)) (groups w)\<rparr>)"

definition Group :: "(nat \<Rightarrow> nat) \<Rightarrow> nat \<Rightarrow> 'h routing \<Rightarrow> 'h routing" where
  "Group grow g w =
     (let gr = groups w ! g;
          (h, s) = go_append grow (arrays w) nil_slice (elems (arrays w) (group_handlers gr))
      in w\<lparr>arrays := h,
           groups := groups w @ [\<lparr>has_server = has_server gr, parent = Some g, group_handlers = s\<rparr>]\<rparr>)"

definition guarded :: "serverState \<Rightarrow> routeGroup \<Rightarrow> 'w \<Rightarrow> 'w \<Rightarrow> go_error option \<times> 'w" where
  "guarded st gr w w' =
     (case (if has_server gr then mutationErrorLocked st else None) of
        Some err \<Rightarrow> (Some err, w)
      | None \<Rightarrow> (None, w'))"

definition Use ::
  "(nat \<Rightarrow> nat) \<Rightarrow> serverState \<Rightarrow> nat \<Rightarrow> 'h Handler list \<Rightarrow> 'h routing \<Rightarrow> go_error option \<times> 'h routing" where
  "Use grow st g hs w =
     (let gr = groups w ! g in
      guarded st gr w
        (let (h, s) = go_append grow (arrays w) (group_handlers gr) hs
         in w\<lparr>arrays := h, groups := (groups w)[g := gr\<lparr>group_handlers := s\<rparr>]\<rparr>))"

definition RegisterRoute ::
  "(nat \<Rightarrow> nat) \<Rightarrow> serverState \<Rightarrow> nat \<Rightarrow> uint32 \<Rightarrow> 'h Handler \<Rightarrow> 'h routing \<Rightarrow> go_error option \<times> 'h routing" where
  "RegisterRoute grow st g event handler w =
     (let gr = groups w ! g in
      guarded st gr w
        (let (h, s) = go_append grow (arrays w) nil_slice (elems (arrays w) (group_handlers gr));
             (h', s') = go_append grow h s [handler]
         in w\<lparr>arrays := h', routes := map_put event s' (routes w)\<rparr>))"

fun freeze_loop ::
  "(nat \<Rightarrow> nat) \<Rightarrow> 'h store \<Rightarrow> (uint32 \<times> slice) list \<Rightarrow> 'h store \<times> (uint32 \<times> slice) list" where
  "freeze_loop grow h [] = (h, [])"
| "freeze_loop grow h ((event, s) # rs) =
     (let (h1, s1) = go_append grow h nil_slice (elems h s);
          (h2, frozen) = freeze_loop grow h1 rs
      in (h2, (event, s1) # frozen))"

text \<open>\<open>s.runtimeRoutes = s.router.freeze()\<close>.\<close>

definition freeze :: "(nat \<Rightarrow> nat) \<Rightarrow> 'h routing \<Rightarrow> 'h routing" where
  "freeze grow w = (let (h, frozen) = freeze_loop grow (arrays w) (routes w)
                    in w\<lparr>arrays := h, runtimeRoutes := Some frozen\<rparr>)"

text \<open>The look-up of \<open>handleRequest\<close>: the frozen routes, or the router's own when there are none.\<close>

definition route_handlers :: "'h routing \<Rightarrow> uint32 \<Rightarrow> 'h Handler list option" where
  "route_handlers w event =
     map_option (elems (arrays w))
       (map_of (case runtimeRoutes w of Some frozen \<Rightarrow> frozen | None \<Rightarrow> routes w) event)"

section \<open>Ownership of backing arrays\<close>

text \<open>
  The places that hold a slice, and the slices they hold. In an owned family of slices no two
  places share a backing array.
\<close>

datatype owner = OGroup nat | ORoute uint32 | OFrozen uint32

definition separate :: "slice \<Rightarrow> slice \<Rightarrow> bool" where
  "separate s t \<longleftrightarrow> cap s = 0 \<or> cap t = 0 \<or> base s \<noteq> base t"

definition owned :: "'h store \<Rightarrow> (owner \<Rightarrow> slice option) \<Rightarrow> bool" where
  "owned h F \<longleftrightarrow> (\<forall>p s. F p = Some s \<longrightarrow> slice_ok h s) \<and>
     (\<forall>p q s t. F p = Some s \<longrightarrow> F q = Some t \<longrightarrow> p \<noteq> q \<longrightarrow> separate s t)"

lemma separate_sym: "separate s t \<Longrightarrow> separate t s"
  by (auto simp: separate_def)

lemma nil_slice_facts [simp]:
  "elems h nil_slice = []" "slice_ok h nil_slice" "separate nil_slice s" "separate s nil_slice"
  "base nil_slice = 0" "len nil_slice = 0" "cap nil_slice = 0"
  by (simp_all add: nil_slice_def elems_def slice_ok_def separate_def)

lemma go_append_self:
  assumes "slice_ok h s" "go_append grow h s xs = (h', s')"
  shows "elems h' s' = elems h s @ xs" and "slice_ok h' s'"
  using assms by (auto simp: go_append_def elems_def slice_ok_def Let_def split: if_splits)

lemma go_append_other:
  assumes "slice_ok h s" "slice_ok h t" "separate s t" "go_append grow h s xs = (h', s')"
  shows "elems h' t = elems h t" and "slice_ok h' t" and "separate s' t"
  using assms
  by (auto simp: go_append_def elems_def slice_ok_def separate_def Let_def nth_append split: if_splits)

lemma owned_nil: "owned h F \<Longrightarrow> owned h (F(p \<mapsto> nil_slice))"
  by (auto simp: owned_def)

lemma owned_mono: "owned h F \<Longrightarrow> G \<subseteq>\<^sub>m F \<Longrightarrow> owned h G"
  unfolding owned_def map_le_def by (metis domI)

lemma owned_append:
  assumes "owned h (F(p \<mapsto> s))" "go_append grow h s xs = (h', s')"
  shows "owned h' (F(p \<mapsto> s'))"
    and "elems h' s' = elems h s @ xs"
    and "\<And>q t. q \<noteq> p \<Longrightarrow> F q = Some t \<Longrightarrow> elems h' t = elems h t"
proof -
  have s: "slice_ok h s" using assms(1) unfolding owned_def by (metis fun_upd_same)
  have other: "slice_ok h t" "separate s t" if "q \<noteq> p" "F q = Some t" for q t
    using assms(1) that unfolding owned_def by (metis fun_upd_apply)+
  have pair: "separate t u" if "q \<noteq> p" "r \<noteq> p" "q \<noteq> r" "F q = Some t" "F r = Some u" for q r t u
    using assms(1) that unfolding owned_def by (metis fun_upd_apply)
  show "elems h' s' = elems h s @ xs" by (rule go_append_self [OF s assms(2)])
  show "\<And>q t. q \<noteq> p \<Longrightarrow> F q = Some t \<Longrightarrow> elems h' t = elems h t"
    using go_append_other(1) [OF s other assms(2)] by blast
  show "owned h' (F(p \<mapsto> s'))"
    unfolding owned_def
    using go_append_self(2) [OF s assms(2)] go_append_other(2,3) [OF s other assms(2)] pair
    by (auto split: if_splits intro: separate_sym)
qed

text \<open>The copy \<open>append([]Handler(nil), xs...)\<close> in a place of its own.\<close>

lemma owned_copy:
  assumes "owned h F" "go_append grow h nil_slice xs = (h', s')"
  shows "owned h' (F(p \<mapsto> s'))" and "elems h' s' = xs"
    and "\<And>q t. q \<noteq> p \<Longrightarrow> F q = Some t \<Longrightarrow> elems h' t = elems h t"
  using owned_append [OF owned_nil [OF assms(1)] assms(2)] by auto

text \<open>A copy also leaves alone what the place held before.\<close>

lemma go_append_nil_elems:
  "slice_ok h t \<Longrightarrow> go_append grow h nil_slice xs = (h', s') \<Longrightarrow> elems h' t = elems h t"
  by (rule go_append_other(1) [of h nil_slice]) simp_all

definition frozen_slices :: "(uint32 \<times> slice) list \<Rightarrow> owner \<Rightarrow> slice option" where
  "frozen_slices fs p = (case p of OFrozen event \<Rightarrow> map_of fs event | _ \<Rightarrow> None)"

lemma frozen_slices_simps [simp]:
  "frozen_slices fs (OFrozen event) = map_of fs event" "frozen_slices fs (OGroup g) = None"
  "frozen_slices fs (ORoute event) = None"
  by (simp_all add: frozen_slices_def)

lemma frozen_slices_Cons:
  "event \<notin> fst ` set fs \<Longrightarrow>
   F ++ frozen_slices ((event, s) # fs) = F(OFrozen event \<mapsto> s) ++ frozen_slices fs"
proof (rule ext)
  fix p assume "event \<notin> fst ` set fs"
  then have "map_of fs event = None" by (simp add: map_of_eq_None_iff)
  then show "(F ++ frozen_slices ((event, s) # fs)) p = (F(OFrozen event \<mapsto> s) ++ frozen_slices fs) p"
    by (cases p) (auto simp: map_add_def split: option.split)
qed

lemma freeze_loop_keys: "map fst (snd (freeze_loop grow h rs)) = map fst rs"
proof (induction rs arbitrary: h)
  case (Cons r rs)
  show ?case
    using Cons [of "fst (go_append grow h nil_slice (elems h (snd r)))"]
    by (cases r) (simp add: Let_def case_prod_beta)
qed simp

lemma freeze_loop_frame:
  "slice_ok h t \<Longrightarrow> freeze_loop grow h rs = (h', fs) \<Longrightarrow> elems h' t = elems h t \<and> slice_ok h' t"
proof (induction rs arbitrary: h fs)
  case (Cons r rs)
  obtain event s where r: "r = (event, s)" by force
  obtain h1 s1 where a: "go_append grow h nil_slice (elems h s) = (h1, s1)" by force
  obtain gs where b: "freeze_loop grow h1 rs = (h', gs)"
    using Cons.prems r a by (auto split: prod.splits)
  have "slice_ok h1 t" "elems h1 t = elems h t"
    using go_append_other(1,2) [OF _ Cons.prems(1) _ a] by simp_all
  with Cons.IH [OF _ b] show ?case by simp
qed simp

lemma freeze_loop_elems:
  assumes "\<And>event s. (event, s) \<in> set rs \<Longrightarrow> slice_ok h s" "freeze_loop grow h rs = (h', fs)"
  shows "map_option (elems h') (map_of fs event) = map_option (elems h) (map_of rs event)"
  using assms
proof (induction rs arbitrary: h fs)
  case (Cons r rs)
  obtain ev s where r: "r = (ev, s)" by force
  obtain h1 s1 where a: "go_append grow h nil_slice (elems h s) = (h1, s1)" by force
  obtain gs where b: "freeze_loop grow h1 rs = (h', gs)" and fs: "fs = (ev, s1) # gs"
    using Cons.prems r a by (auto split: prod.splits)
  have ok: "slice_ok h1 t" "elems h1 t = elems h t" if "(e, t) \<in> set rs" for e t
    using go_append_other(1,2) [OF _ _ _ a] Cons.prems(1) that by (auto simp: r)
  have "elems h' s1 = elems h s"
    using freeze_loop_frame [OF go_append_self(2) [OF _ a] b] go_append_self(1) [OF _ a] by simp
  moreover have "map_option (elems h1) (map_of rs event) = map_option (elems h) (map_of rs event)"
    using ok(2) map_of_SomeD by (fastforce intro: option.map_cong)
  ultimately show ?case using Cons.IH [OF ok(1) b] by (simp add: r fs)
qed simp

lemma owned_freeze_loop:
  "owned h F \<Longrightarrow> distinct (map fst rs) \<Longrightarrow> freeze_loop grow h rs = (h', fs) \<Longrightarrow>
   owned h' (F ++ frozen_slices fs)"
proof (induction rs arbitrary: h F fs)
  case Nil
  then show ?case
    by (auto elim!: owned_mono simp: map_le_def map_add_def frozen_slices_def split: owner.splits)
next
  case (Cons r rs)
  obtain event s where r: "r = (event, s)" by force
  obtain h1 s1 where a: "go_append grow h nil_slice (elems h s) = (h1, s1)" by force
  obtain gs where b: "freeze_loop grow h1 rs = (h', gs)" and fs: "fs = (event, s1) # gs"
    using Cons.prems r a by (auto split: prod.splits)
  have "map fst gs = map fst rs" using freeze_loop_keys [of grow h1 rs] b by simp
  then have "event \<notin> fst ` set gs" using Cons.prems(2) r by (metis distinct.simps(2) fst_conv list.set_map list.simps(9))
  moreover have "owned h' (F(OFrozen event \<mapsto> s1) ++ frozen_slices gs)"
  proof (rule Cons.IH [OF _ _ b])
    show "owned h1 (F(OFrozen event \<mapsto> s1))" by (rule owned_copy(1) [OF Cons.prems(1) a])
    show "distinct (map fst rs)" using Cons.prems(2) by simp
  qed
  ultimately show ?case by (simp add: fs frozen_slices_Cons)
qed

section \<open>The specification on plain lists\<close>

text \<open>
  What the router promises, without arrays: a group is a list of handlers, made by copying
  its parent's; a route is a list of handlers; \<open>Use\<close> extends one group and nothing else.
\<close>

record 'h spec_group =
  sg_server :: bool
  sg_parent :: "nat option"
  sg_handlers :: "'h Handler list"

record 'h spec_routing =
  sr_groups :: "'h spec_group list"
  sr_routes :: "uint32 \<Rightarrow> 'h Handler list option"
  sr_frozen :: "(uint32 \<Rightarrow> 'h Handler list option) option"

datatype 'h routing_op =
    OpGroup nat
  | OpUse nat "'h Handler list"
  | OpRegisterRoute nat uint32 "'h Handler"
  | OpFreeze

fun op_group :: "'h routing_op \<Rightarrow> nat option" where
  "op_group (OpGroup g) = Some g"
| "op_group (OpUse g hs) = Some g"
| "op_group (OpRegisterRoute g event handler) = Some g"
| "op_group OpFreeze = None"

definition spec_allowed :: "serverState \<Rightarrow> 'h spec_group \<Rightarrow> go_error option" where
  "spec_allowed st g = (if sg_server g then mutationErrorLocked st else None)"

fun spec_op :: "serverState \<Rightarrow> 'h routing_op \<Rightarrow> 'h spec_routing \<Rightarrow> go_error option \<times> 'h spec_routing" where
  "spec_op st (OpGroup g) r =
     (None, r\<lparr>sr_groups := sr_groups r @ [(sr_groups r ! g)\<lparr>sg_parent := Some g\<rparr>]\<rparr>)"
| "spec_op st (OpUse g hs) r =
     (case spec_allowed st (sr_groups r ! g) of
        Some err \<Rightarrow> (Some err, r)
      | None \<Rightarrow> (None, r\<lparr>sr_groups := (sr_groups r)[g := sg_handlers_update (\<lambda>xs. xs @ hs) (sr_groups r ! g)]\<rparr>))"
| "spec_op st (OpRegisterRoute g event handler) r =
     (case spec_allowed st (sr_groups r ! g) of
        Some err \<Rightarrow> (Some err, r)
      | None \<Rightarrow> (None, r\<lparr>sr_routes := (sr_routes r)(event \<mapsto> sg_handlers (sr_groups r ! g) @ [handler])\<rparr>))"
| "spec_op st OpFreeze r = (None, r\<lparr>sr_frozen := Some (sr_routes r)\<rparr>)"

fun exec_op :: "(nat \<Rightarrow> nat) \<Rightarrow> serverState \<Rightarrow> 'h routing_op \<Rightarrow> 'h routing \<Rightarrow> go_error option \<times> 'h routing" where
  "exec_op grow st (OpGroup g) w = (None, Group grow g w)"
| "exec_op grow st (OpUse g hs) w = Use grow st g hs w"
| "exec_op grow st (OpRegisterRoute g event handler) w = RegisterRoute grow st g event handler w"
| "exec_op grow st OpFreeze w = (None, freeze grow w)"

text \<open>
  An operation made in some life-cycle state; \<open>None\<close> for an operation on a group that does
  not exist yet, which no Go program can express.
\<close>

definition routing_step ::
  "(nat \<Rightarrow> nat) \<Rightarrow> serverState \<times> 'h routing_op \<Rightarrow> 'h routing \<Rightarrow> (go_error option \<times> 'h routing) option" where
  "routing_step grow sop w =
     (if \<forall>g\<in>set_option (op_group (snd sop)). g < length (groups w)
      then Some (exec_op grow (fst sop) (snd sop) w) else None)"

definition spec_step ::
  "serverState \<times> 'h routing_op \<Rightarrow> 'h spec_routing \<Rightarrow> (go_error option \<times> 'h spec_routing) option" where
  "spec_step sop r =
     (if \<forall>g\<in>set_option (op_group (snd sop)). g < length (sr_groups r)
      then Some (spec_op (fst sop) (snd sop) r) else None)"

definition abs_group :: "'h store \<Rightarrow> routeGroup \<Rightarrow> 'h spec_group" where
  "abs_group h gr = \<lparr>sg_server = has_server gr, sg_parent = parent gr, sg_handlers = elems h (group_handlers gr)\<rparr>"

definition abs_routes :: "'h store \<Rightarrow> (uint32 \<times> slice) list \<Rightarrow> uint32 \<Rightarrow> 'h Handler list option" where
  "abs_routes h rs event = map_option (elems h) (map_of rs event)"

definition abs_routing :: "'h routing \<Rightarrow> 'h spec_routing" where
  "abs_routing w =
     \<lparr>sr_groups = map (abs_group (arrays w)) (groups w),
      sr_routes = abs_routes (arrays w) (routes w),
      sr_frozen = map_option (abs_routes (arrays w)) (runtimeRoutes w)\<rparr>"

definition slice_of :: "'h routing \<Rightarrow> owner \<Rightarrow> slice option" where
  "slice_of w p = (case p of
      OGroup g \<Rightarrow> if g < length (groups w) then Some (group_handlers (groups w ! g)) else None
    | ORoute event \<Rightarrow> map_of (routes w) event
    | OFrozen event \<Rightarrow> Option.bind (runtimeRoutes w) (\<lambda>fs. map_of fs event))"

definition routing_inv :: "'h routing \<Rightarrow> bool" where
  "routing_inv w \<longleftrightarrow> owned (arrays w) (slice_of w) \<and> distinct (map fst (routes w))"

lemma abs_routes_cong:
  "(\<And>event s. map_of rs event = Some s \<Longrightarrow> elems h s = elems h' s) \<Longrightarrow> abs_routes h rs = abs_routes h' rs"
  by (auto simp: abs_routes_def fun_eq_iff intro!: option.map_cong)

lemma abs_frozen_cong:
  "(\<And>event s. slice_of w (OFrozen event) = Some s \<Longrightarrow> elems h s = elems h' s) \<Longrightarrow>
   map_option (abs_routes h) (runtimeRoutes w) = map_option (abs_routes h') (runtimeRoutes w)"
  by (cases "runtimeRoutes w") (auto simp: slice_of_def intro!: abs_routes_cong)

text \<open>How the contents change when the slices other than one place keep theirs.\<close>

lemma abs_routing_frame:
  assumes "\<And>p s. slice_of w p = Some s \<Longrightarrow> elems h s = elems (arrays w) s"
  shows "map (abs_group h) (groups w) = map (abs_group (arrays w)) (groups w)"
    and "abs_routes h (routes w) = abs_routes (arrays w) (routes w)"
    and "map_option (abs_routes h) (runtimeRoutes w) = map_option (abs_routes (arrays w)) (runtimeRoutes w)"
proof -
  have "elems h (group_handlers gr) = elems (arrays w) (group_handlers gr)" if "gr \<in> set (groups w)" for gr
    using that assms [of "OGroup i" "group_handlers (groups w ! i)" for i] by (auto simp: in_set_conv_nth slice_of_def)
  then show "map (abs_group h) (groups w) = map (abs_group (arrays w)) (groups w)"
    by (simp add: abs_group_def)
  show "abs_routes h (routes w) = abs_routes (arrays w) (routes w)"
    using assms [of "ORoute e" for e] by (auto simp: slice_of_def intro!: abs_routes_cong)
  show "map_option (abs_routes h) (runtimeRoutes w) = map_option (abs_routes (arrays w)) (runtimeRoutes w)"
    using assms by (auto intro!: abs_frozen_cong)
qed

text \<open>The slices after each operation, as an update of those before.\<close>

lemma slice_of_push_group:
  "slice_of (w\<lparr>arrays := h, groups := groups w @ [gr]\<rparr>) =
   (slice_of w)(OGroup (length (groups w)) \<mapsto> group_handlers gr)"
  by (auto simp: fun_eq_iff slice_of_def nth_append split: owner.split)

lemma slice_of_set_group:
  "g < length (groups w) \<Longrightarrow>
   slice_of (w\<lparr>arrays := h, groups := (groups w)[g := gr]\<rparr>) = (slice_of w)(OGroup g \<mapsto> group_handlers gr)"
  by (auto simp: fun_eq_iff slice_of_def nth_list_update split: owner.split)

lemma slice_of_put_route:
  "slice_of (w\<lparr>arrays := h, routes := map_put event s (routes w)\<rparr>) = (slice_of w)(ORoute event \<mapsto> s)"
  by (auto simp: fun_eq_iff slice_of_def split: owner.split)

lemma slice_of_freeze:
  "slice_of (w\<lparr>arrays := h, runtimeRoutes := Some fs\<rparr>) =
   slice_of (w\<lparr>runtimeRoutes := None\<rparr>) ++ frozen_slices fs"
  by (auto simp: fun_eq_iff slice_of_def map_add_def frozen_slices_def split: owner.split option.split)

lemma slice_of_unfrozen: "slice_of (w\<lparr>runtimeRoutes := None\<rparr>) \<subseteq>\<^sub>m slice_of w"
  by (auto simp: map_le_def slice_of_def split: owner.splits)

lemma routing_inv_slice_ok: "routing_inv w \<Longrightarrow> slice_of w p = Some s \<Longrightarrow> slice_ok (arrays w) s"
  by (auto simp: routing_inv_def owned_def)

lemma Group_refines:
  assumes "routing_inv w" "g < length (groups w)"
  shows "routing_inv (Group grow g w)"
    and "spec_op st (OpGroup g) (abs_routing w) = (None, abs_routing (Group grow g w))"
proof -
  let ?xs = "elems (arrays w) (group_handlers (groups w ! g))"
  obtain h s where a: "go_append grow (arrays w) nil_slice ?xs = (h, s)" by force
  let ?gr = "\<lparr>has_server = has_server (groups w ! g), parent = Some g, group_handlers = s\<rparr>"
  have G: "Group grow g w = w\<lparr>arrays := h, groups := groups w @ [?gr]\<rparr>"
    by (simp add: Group_def a)
  have own: "owned (arrays w) (slice_of w)" using assms(1) by (simp add: routing_inv_def)
  have frame: "elems h t = elems (arrays w) t" if "slice_of w p = Some t" for p t
    using go_append_nil_elems [OF routing_inv_slice_ok [OF assms(1) that] a] .
  show "routing_inv (Group grow g w)"
    using assms(1) owned_copy(1) [OF own a] by (simp add: routing_inv_def G slice_of_push_group)
  show "spec_op st (OpGroup g) (abs_routing w) = (None, abs_routing (Group grow g w))"
    using assms(2) abs_routing_frame [OF frame] owned_copy(2) [OF own a]
    by (simp add: G abs_routing_def abs_group_def)
qed

lemma guarded_abs:
  "guarded st (groups w ! g) w w' =
     (case spec_allowed st (abs_group h (groups w ! g)) of Some err \<Rightarrow> (Some err, w) | None \<Rightarrow> (None, w'))"
  by (simp add: guarded_def spec_allowed_def abs_group_def)

lemma Use_refines:
  assumes "routing_inv w" "g < length (groups w)"
  shows "routing_inv (snd (Use grow st g hs w))"
    and "spec_op st (OpUse g hs) (abs_routing w) = apsnd abs_routing (Use grow st g hs w)"
proof -
  let ?gr = "groups w ! g"
  obtain h s where a: "go_append grow (arrays w) (group_handlers ?gr) hs = (h, s)" by force
  let ?w = "w\<lparr>arrays := h, groups := (groups w)[g := ?gr\<lparr>group_handlers := s\<rparr>]\<rparr>"
  have U: "Use grow st g hs w = guarded st ?gr w ?w" by (simp add: Use_def a Let_def)
  have here: "slice_of w (OGroup g) = Some (group_handlers ?gr)" using assms(2) by (simp add: slice_of_def)
  then have own: "owned (arrays w) ((slice_of w)(OGroup g \<mapsto> group_handlers ?gr))"
    using assms(1) by (simp add: routing_inv_def map_upd_triv)
  note app = owned_append [OF own a]
  have inv: "routing_inv ?w"
    using assms app(1) by (simp add: routing_inv_def slice_of_set_group)
  show "routing_inv (snd (Use grow st g hs w))"
    using inv assms(1) by (simp add: U guarded_def split: option.split)
  have "map (abs_group h) ((groups w)[g := ?gr\<lparr>group_handlers := s\<rparr>]) =
        (map (abs_group (arrays w)) (groups w))[g := sg_handlers_update (\<lambda>xs. xs @ hs) (abs_group (arrays w) ?gr)]"
  proof (rule nth_equalityI)
    fix i assume "i < length (map (abs_group h) ((groups w)[g := ?gr\<lparr>group_handlers := s\<rparr>]))"
    then show "map (abs_group h) ((groups w)[g := ?gr\<lparr>group_handlers := s\<rparr>]) ! i =
        (map (abs_group (arrays w)) (groups w))[g := sg_handlers_update (\<lambda>xs. xs @ hs) (abs_group (arrays w) ?gr)] ! i"
      using app(2) app(3) [of "OGroup i"] assms(2)
      by (cases "i = g") (simp_all add: nth_list_update abs_group_def slice_of_def)
  qed simp
  moreover have "abs_routes h (routes w) = abs_routes (arrays w) (routes w)"
    using app(3) [of "ORoute e" for e] by (auto simp: slice_of_def intro!: abs_routes_cong)
  moreover have "map_option (abs_routes h) (runtimeRoutes w) = map_option (abs_routes (arrays w)) (runtimeRoutes w)"
    using app(3) by (auto intro!: abs_frozen_cong)
  ultimately show "spec_op st (OpUse g hs) (abs_routing w) = apsnd abs_routing (Use grow st g hs w)"
    using assms(2) by (simp add: U guarded_abs [of _ _ _ _ "arrays w"] abs_routing_def split: option.split)
qed

lemma RegisterRoute_refines:
  assumes "routing_inv w" "g < length (groups w)"
  shows "routing_inv (snd (RegisterRoute grow st g event handler w))"
    and "spec_op st (OpRegisterRoute g event handler) (abs_routing w) =
         apsnd abs_routing (RegisterRoute grow st g event handler w)"
proof -
  let ?gr = "groups w ! g"
  let ?xs = "elems (arrays w) (group_handlers ?gr)"
  obtain h s where a: "go_append grow (arrays w) nil_slice ?xs = (h, s)" by force
  obtain h' s' where b: "go_append grow h s [handler] = (h', s')" by force
  let ?w = "w\<lparr>arrays := h', routes := map_put event s' (routes w)\<rparr>"
  have R: "RegisterRoute grow st g event handler w = guarded st ?gr w ?w"
    by (simp add: RegisterRoute_def a b Let_def)
  have own: "owned (arrays w) (slice_of w)" using assms(1) by (simp add: routing_inv_def)
  note copy = owned_copy [OF own a] and app = owned_append [OF owned_copy(1) [OF own a, of "ORoute event"] b]
  have inv: "routing_inv ?w"
    using assms app(1) by (simp add: routing_inv_def slice_of_put_route distinct_map_put)
  show "routing_inv (snd (RegisterRoute grow st g event handler w))"
    using inv assms(1) by (simp add: R guarded_def split: option.split)
  have frame: "elems h' t = elems (arrays w) t" if "slice_of w p = Some t" "p \<noteq> ORoute event" for p t
    using app(3) [of p t] copy(3) [of p "ORoute event" t] that by simp
  have "map (abs_group h') (groups w) = map (abs_group (arrays w)) (groups w)"
    using frame [of "OGroup i" "group_handlers (groups w ! i)" for i]
    by (auto simp: abs_group_def slice_of_def in_set_conv_nth)
  moreover have "abs_routes h' (map_put event s' (routes w)) =
      (abs_routes (arrays w) (routes w))(event \<mapsto> ?xs @ [handler])"
    using frame [of "ORoute e" for e] app(2) copy(2)
    by (auto simp: abs_routes_def fun_eq_iff slice_of_def intro!: option.map_cong)
  moreover have "map_option (abs_routes h') (runtimeRoutes w) = map_option (abs_routes (arrays w)) (runtimeRoutes w)"
    using frame by (auto intro!: abs_frozen_cong)
  moreover have "sg_handlers (abs_group (arrays w) ?gr) = ?xs" by (simp add: abs_group_def)
  ultimately show "spec_op st (OpRegisterRoute g event handler) (abs_routing w) =
      apsnd abs_routing (RegisterRoute grow st g event handler w)"
    using assms(2) by (simp add: R guarded_abs [of _ _ _ _ "arrays w"] abs_routing_def split: option.split)
qed

lemma freeze_refines:
  assumes "routing_inv w"
  shows "routing_inv (freeze grow w)"
    and "spec_op st OpFreeze (abs_routing w) = (None, abs_routing (freeze grow w))"
proof -
  obtain h fs where a: "freeze_loop grow (arrays w) (routes w) = (h, fs)" by force
  have F: "freeze grow w = w\<lparr>arrays := h, runtimeRoutes := Some fs\<rparr>" by (simp add: freeze_def a)
  have own: "owned (arrays w) (slice_of (w\<lparr>runtimeRoutes := None\<rparr>))"
    using assms owned_mono slice_of_unfrozen by (auto simp: routing_inv_def)
  have dist: "distinct (map fst (routes w))" using assms by (simp add: routing_inv_def)
  show "routing_inv (freeze grow w)"
    using owned_freeze_loop [OF own dist a] dist by (simp add: routing_inv_def F slice_of_freeze)
  have ok: "slice_ok (arrays w) s" if "slice_of w p = Some s" for p s
    by (rule routing_inv_slice_ok [OF assms that])
  have frame: "elems h s = elems (arrays w) s" if "slice_of w p = Some s" for p s
    using freeze_loop_frame [OF ok [OF that] a] by simp
  have "slice_ok (arrays w) s" if "(event, s) \<in> set (routes w)" for event s
    using ok [of "ORoute event" s] that dist by (simp add: slice_of_def)
  then have "abs_routes h fs = abs_routes (arrays w) (routes w)"
    using freeze_loop_elems [OF _ a] by (simp add: abs_routes_def fun_eq_iff)
  then show "spec_op st OpFreeze (abs_routing w) = (None, abs_routing (freeze grow w))"
    using abs_routing_frame(1,2) [OF frame] by (simp add: F abs_routing_def)
qed

lemma exec_op_refines:
  assumes "routing_inv w" "\<forall>g\<in>set_option (op_group opn). g < length (groups w)"
  shows "routing_inv (snd (exec_op grow st opn w))"
    and "spec_op st opn (abs_routing w) = apsnd abs_routing (exec_op grow st opn w)"
  using assms
proof (induction opn)
  case (OpGroup g)
  { case 1 then show ?case using Group_refines(1) by simp }
  { case 2 then show ?case using Group_refines(2) by (simp del: spec_op.simps) }
next
  case (OpUse g hs)
  { case 1 then show ?case using Use_refines(1) by simp }
  { case 2 then show ?case using Use_refines(2) by (simp del: spec_op.simps) }
next
  case (OpRegisterRoute g event handler)
  { case 1 then show ?case using RegisterRoute_refines(1) by simp }
  { case 2 then show ?case using RegisterRoute_refines(2) by (simp del: spec_op.simps) }
next
  case OpFreeze
  { case 1 then show ?case using freeze_refines(1) by simp }
  { case 2 then show ?case using freeze_refines(2) by (simp del: spec_op.simps) }
qed

lemma length_abs_groups [simp]: "length (sr_groups (abs_routing w)) = length (groups w)"
  by (simp add: abs_routing_def)

interpretation rt: functional_refinement "routing_step grow" spec_step abs_routing routing_inv
  for grow :: "nat \<Rightarrow> nat"
proof unfold_locales
  fix w w' :: "'h routing" and sop r
  assume inv: "routing_inv w"
  show "routing_inv w'" if "routing_step grow sop w = Some (r, w')"
    using exec_op_refines(1) [OF inv, where grow = grow and st = "fst sop" and opn = "snd sop"] that
    by (auto simp: routing_step_def split: if_splits)
  show "map_option (apsnd abs_routing) (routing_step grow sop w) = spec_step sop (abs_routing w)"
    using exec_op_refines(2) [OF inv, where st = "fst sop" and opn = "snd sop"]
    by (auto simp: routing_step_def spec_step_def)
qed

definition spec_server_routing :: "'h spec_routing" where
  "spec_server_routing =
     \<lparr>sr_groups = [\<lparr>sg_server = True, sg_parent = None, sg_handlers = []\<rparr>], sr_routes = Map.empty, sr_frozen = None\<rparr>"

lemma serverRouting_init:
  "routing_inv serverRouting" "abs_routing serverRouting = spec_server_routing"
  by (auto simp: serverRouting_def newGroup_def newRouter_def routing_inv_def owned_def slice_of_def
      abs_routing_def abs_group_def abs_routes_def spec_server_routing_def fun_eq_iff Let_def
      split: owner.splits if_splits)

text \<open>The abstract operations keep the frozen routes, and every group belongs to the server.\<close>

lemma spec_step_frozen:
  "spec_step (st, opn) r = Some (e, r') \<Longrightarrow> opn \<noteq> OpFreeze \<Longrightarrow> sr_frozen r' = sr_frozen r"
  by (cases opn) (auto simp: spec_step_def split: if_splits option.splits)

lemma spec_step_server:
  "spec_step sop r = Some (e, r') \<Longrightarrow> \<forall>g\<in>set (sr_groups r). sg_server g \<Longrightarrow> \<forall>g\<in>set (sr_groups r'). sg_server g"
  by (cases sop; cases "snd sop")
    (auto simp: spec_step_def split: if_splits option.splits dest!: set_update_subset_insert [THEN subsetD])

lemma reachable_routing:
  assumes "run_ops (routing_step grow) ops serverRouting = Some (es, w)"
  shows "routing_inv w" and "run_ops spec_step ops spec_server_routing = Some (es, abs_routing w)"
    and "\<And>g. g < length (groups w) \<Longrightarrow> has_server (groups w ! g)"
proof -
  show "routing_inv w" using rt.run_inv assms serverRouting_init(1) by blast
  show run: "run_ops spec_step ops spec_server_routing = Some (es, abs_routing w)"
    using rt.run_refines [OF serverRouting_init(1), of grow ops] assms by (simp add: serverRouting_init(2))
  have "\<forall>g\<in>set (sr_groups (abs_routing w)). sg_server g"
    by (rule run_ops_invariant [where P = "\<lambda>r. \<forall>g\<in>set (sr_groups r). sg_server g", OF _ run])
      (rule spec_step_server, assumption+, simp add: spec_server_routing_def)
  then show "\<And>g. g < length (groups w) \<Longrightarrow> has_server (groups w ! g)"
    by (auto simp: abs_routing_def abs_group_def)
qed

lemma route_handlers_frozen:
  "runtimeRoutes w \<noteq> None \<Longrightarrow> route_handlers w event = the (sr_frozen (abs_routing w)) event"
  by (auto simp: route_handlers_def abs_routing_def abs_routes_def)

section \<open>Properties\<close>

text \<open>
  C5. Routing refines its specification on plain lists. For every sequence of \<open>Group\<close>,
  \<open>Use\<close>, \<open>RegisterRoute\<close> and \<open>freeze\<close> operations on the groups of a server, whatever
  capacities the runtime gives to new arrays, the results and the contents of every group,
  route and frozen route are those of the value semantics: no append through one slice is
  ever visible through another.\<close>

theorem router_refines:
  "map_option (apsnd abs_routing) (run_ops (routing_step grow) ops serverRouting) =
   run_ops spec_step ops spec_server_routing"
  using rt.run_refines [OF serverRouting_init(1), of grow ops] by (simp add: serverRouting_init(2))

text \<open>
  C23. The frozen routes are isolated: once \<open>freeze\<close> has run, no later \<open>Group\<close>, \<open>Use\<close> or
  \<open>RegisterRoute\<close>, in whatever state and on whatever group, changes the handlers that
  \<open>handleRequest\<close> finds for any event.\<close>

theorem frozen_routes_isolated:
  assumes "run_ops (routing_step grow) ops serverRouting = Some (es, w)"
    and "runtimeRoutes w \<noteq> None"
    and "run_ops (routing_step grow) later w = Some (es', w')"
    and "OpFreeze \<notin> snd ` set later"
  shows "route_handlers w' event = route_handlers w event"
proof -
  have inv: "routing_inv w" by (rule reachable_routing(1) [OF assms(1)])
  have run: "run_ops spec_step later (abs_routing w) = Some (es', abs_routing w')"
    using rt.run_refines [OF inv, of grow later] assms(3) by simp
  have "sr_frozen (abs_routing w') = sr_frozen (abs_routing w)"
    using run_ops_invariant [where P = "\<lambda>r. sr_frozen r = sr_frozen (abs_routing w)", OF _ run]
      spec_step_frozen assms(4) by (metis prod.collapse imageI snd_conv)
  moreover from this have "runtimeRoutes w' \<noteq> None" using assms(2) by (auto simp: abs_routing_def)
  ultimately show ?thesis using assms(2) by (simp add: route_handlers_frozen)
qed

theorem frozen_routes_isolated_witness:
  "\<exists>w es w' es'. run_ops (routing_step (\<lambda>n. 3)) [(stateNew, OpUse 0 [Some ''a'']), (stateNew, OpRegisterRoute 0 7 (Some ''b'')),
       (stateStarting, OpFreeze)] serverRouting = Some (es, w) \<and>
     run_ops (routing_step (\<lambda>n. 3)) [(stateNew, OpUse 0 [Some ''x'']), (stateNew, OpRegisterRoute 0 7 (Some ''y''))] w = Some (es', w') \<and>
     route_handlers w' 7 = route_handlers w 7 \<and> route_handlers w 7 = Some [Some ''a'', Some ''b'']"
proof -
  let ?w = "snd (the (run_ops (routing_step (\<lambda>n. 3)) [(stateNew, OpUse 0 [Some ''a'']),
     (stateNew, OpRegisterRoute 0 7 (Some ''b'')), (stateStarting, OpFreeze)] serverRouting))"
  show ?thesis
    using frozen_routes_isolated [where grow = "\<lambda>n. 3" and w = ?w and event = 7
        and ops = "[(stateNew, OpUse 0 [Some ''a'']), (stateNew, OpRegisterRoute 0 7 (Some ''b'')), (stateStarting, OpFreeze)]"
        and later = "[(stateNew, OpUse 0 [Some ''x'']), (stateNew, OpRegisterRoute 0 7 (Some ''y''))]"]
    by (simp add: routing_step_def serverRouting_def newGroup_def newRouter_def Use_def RegisterRoute_def
        guarded_def mutationErrorLocked_def freeze_def go_append_def elems_def nil_slice_def route_handlers_def
        Let_def numeral_eq_Suc)
qed

text \<open>
  Configuration is closed once the server has left its new state: on every group that a
  program can make from the server's, \<open>Use\<close> and \<open>RegisterRoute\<close> then fail, with
  \<open>ErrServerStopped\<close> on a stopped server and \<open>ErrServerRunning\<close> otherwise, and change nothing.\<close>

lemma routing_closed_after_start:
  assumes "run_ops (routing_step grow) ops serverRouting = Some (es, w)"
    and "g < length (groups w)" and "st \<noteq> stateNew"
  shows "Use grow st g hs w = (Some (if st = stateStopped then ErrServerStopped else ErrServerRunning), w) \<and>
    RegisterRoute grow st g event handler w =
      (Some (if st = stateStopped then ErrServerStopped else ErrServerRunning), w)"
  using reachable_routing(3) [OF assms(1,2)] assms(3)
  by (cases st; simp add: Use_def RegisterRoute_def guarded_def mutationErrorLocked_def Let_def)

end
