(* ===== verification/Stats.thy ===== *)
theory Stats
  imports Options "HOL-Library.Multiset"
begin

text \<open>
  The runtime statistics, \<open>src/stats.go\<close>: saturating 64-bit counters updated by
  compare-and-swap loops, one record of counters per transport, and the snapshots taken of
  them. The counters are first modelled as their atomic effect; the section on interleavings
  models the retry loops themselves and shows that the effect is the atomic one however the
  loops of several goroutines interleave.
\<close>

section \<open>Saturating arithmetic\<close>

definition saturatedSum :: "uint64 \<Rightarrow> uint64 \<Rightarrow> uint64 \<Rightarrow> uint64" where
  "saturatedSum first second limit =
     (if first \<ge> limit \<or> second > limit - first then limit else first + second)"

definition counterDuration :: "uint64 \<Rightarrow> duration" where
  "counterDuration value = (if value > MaxInt64 then MaxInt64 else value)"

definition maxDuration :: "duration \<Rightarrow> duration \<Rightarrow> duration" where
  "maxDuration first second = (if sint first \<ge> sint second then first else second)"

text \<open>
  The body of each retry loop: what it decides on the value it loaded. \<open>None\<close> leaves the loop
  without a change, \<open>Some next\<close> attempts to swap \<open>next\<close> in.
\<close>

definition saturatingAdd_body :: "uint64 \<Rightarrow> uint64 \<Rightarrow> uint64 \<Rightarrow> uint64 option" where
  "saturatingAdd_body delta limit current =
     (if delta = 0 then None
      else if current \<ge> limit then None
      else Some (saturatedSum current delta limit))"

definition decrementGauge_body :: "uint64 \<Rightarrow> uint64 option" where
  "decrementGauge_body current = (if current = 0 then None else Some (current - 1))"

definition updateMaximum_body :: "uint64 \<Rightarrow> uint64 \<Rightarrow> uint64 option" where
  "updateMaximum_body candidate current = (if candidate \<le> current then None else Some candidate)"

text \<open>The effect of a loop that is not interfered with.\<close>

definition cas_effect :: "(uint64 \<Rightarrow> uint64 option) \<Rightarrow> uint64 \<Rightarrow> uint64" where
  "cas_effect body v = (case body v of None \<Rightarrow> v | Some next' \<Rightarrow> next')"

definition saturatingAdd :: "uint64 \<Rightarrow> uint64 \<Rightarrow> uint64 \<Rightarrow> uint64" where
  "saturatingAdd counter delta limit = cas_effect (saturatingAdd_body delta limit) counter"

definition decrementGauge :: "uint64 \<Rightarrow> uint64" where
  "decrementGauge counter = cas_effect decrementGauge_body counter"

definition updateMaximum :: "uint64 \<Rightarrow> uint64 \<Rightarrow> uint64" where
  "updateMaximum counter candidate = cas_effect (updateMaximum_body candidate) counter"

lemma unat_saturatedSum:
  "unat (saturatedSum a b limit) =
     (if unat limit \<le> unat a then unat limit else min (unat a + unat b) (unat limit))"
proof (cases "limit \<le> a")
  case True
  then show ?thesis by (simp add: saturatedSum_def word_le_nat_alt)
next
  case False
  then have l: "unat (limit - a) = unat limit - unat a" "unat a < unat limit"
    by (simp_all add: unat_sub not_le word_less_nat_alt order_less_imp_le)
  show ?thesis
  proof (cases "limit - a < b")
    case True
    with l False show ?thesis by (simp add: saturatedSum_def word_less_nat_alt)
  next
    case False
    with l have "unat a + unat b \<le> unat limit" by (simp add: word_less_nat_alt not_less)
    moreover from this have "unat (a + b) = unat a + unat b"
      using unsigned_less [of limit, where ?'a = nat] by (simp add: unat_word_ariths)
    ultimately show ?thesis using l False \<open>\<not> limit \<le> a\<close> by (simp add: saturatedSum_def)
  qed
qed

lemma unat_saturatingAdd:
  "unat (saturatingAdd c delta limit) = max (unat c) (min (unat c + unat delta) (unat limit))"
  by (auto simp: saturatingAdd_def cas_effect_def saturatingAdd_body_def unat_saturatedSum
      word_le_nat_alt max_def min_def)

lemma unat_decrementGauge: "unat (decrementGauge c) = unat c - 1"
  by (auto simp: decrementGauge_def cas_effect_def decrementGauge_body_def unat_minus_one)

lemma unat_updateMaximum: "unat (updateMaximum c v) = max (unat c) (unat v)"
  by (auto simp: updateMaximum_def cas_effect_def updateMaximum_body_def word_le_nat_alt max_def)

section \<open>Counters of one transport\<close>

record transportMetrics =
  activeConnections :: uint64
  queuedTasks :: uint64
  receivedMessages :: uint64
  receivedBytes :: uint64
  sentMessages :: uint64
  sentBytes :: uint64
  rejectedTasks :: uint64
  connectionErrors :: uint64
  completedRequests :: uint64
  totalRequestDuration :: uint64
  maximumRequestDuration :: uint64

record serverMetrics =
  tcp :: transportMetrics
  webSocket :: transportMetrics

definition zeroTransportMetrics :: transportMetrics where
  "zeroTransportMetrics = \<lparr>activeConnections = 0, queuedTasks = 0, receivedMessages = 0,
     receivedBytes = 0, sentMessages = 0, sentBytes = 0, rejectedTasks = 0, connectionErrors = 0,
     completedRequests = 0, totalRequestDuration = 0, maximumRequestDuration = 0\<rparr>"

definition zeroServerMetrics :: serverMetrics where
  "zeroServerMetrics = \<lparr>tcp = zeroTransportMetrics, webSocket = zeroTransportMetrics\<rparr>"

text \<open>
  \<open>forTransport\<close> selects the counters that an update goes to, or none (the nil case); the model
  applies the update to them.
\<close>

definition forTransport ::
  "Transport \<Rightarrow> (transportMetrics \<Rightarrow> transportMetrics) \<Rightarrow> serverMetrics \<Rightarrow> serverMetrics" where
  "forTransport transport update m =
     (if transport = TransportTCP then m\<lparr>tcp := update (tcp m)\<rparr>
      else if transport = TransportWebSocket then m\<lparr>webSocket := update (webSocket m)\<rparr>
      else m)"

definition connectionOpened :: "Transport \<Rightarrow> serverMetrics \<Rightarrow> serverMetrics" where
  "connectionOpened transport = forTransport transport
     (\<lambda>t. t\<lparr>activeConnections := saturatingAdd (activeConnections t) 1 MaxUint64\<rparr>)"

definition metrics_connectionClosed :: "Transport \<Rightarrow> serverMetrics \<Rightarrow> serverMetrics" where
  "metrics_connectionClosed transport = forTransport transport
     (\<lambda>t. t\<lparr>activeConnections := decrementGauge (activeConnections t)\<rparr>)"

definition messageReceived :: "Transport \<Rightarrow> uint64 \<Rightarrow> serverMetrics \<Rightarrow> serverMetrics" where
  "messageReceived transport bytes = forTransport transport
     (\<lambda>t. t\<lparr>receivedMessages := saturatingAdd (receivedMessages t) 1 MaxUint64,
            receivedBytes := saturatingAdd (receivedBytes t) bytes MaxUint64\<rparr>)"

definition messageSent :: "Transport \<Rightarrow> uint64 \<Rightarrow> serverMetrics \<Rightarrow> serverMetrics" where
  "messageSent transport bytes = forTransport transport
     (\<lambda>t. t\<lparr>sentMessages := saturatingAdd (sentMessages t) 1 MaxUint64,
            sentBytes := saturatingAdd (sentBytes t) bytes MaxUint64\<rparr>)"

definition metrics_taskQueued :: "Transport \<Rightarrow> serverMetrics \<Rightarrow> serverMetrics" where
  "metrics_taskQueued transport = forTransport transport
     (\<lambda>t. t\<lparr>queuedTasks := saturatingAdd (queuedTasks t) 1 MaxUint64\<rparr>)"

definition metrics_taskDequeued :: "Transport \<Rightarrow> serverMetrics \<Rightarrow> serverMetrics" where
  "metrics_taskDequeued transport = forTransport transport
     (\<lambda>t. t\<lparr>queuedTasks := decrementGauge (queuedTasks t)\<rparr>)"

definition metrics_taskRejected :: "Transport \<Rightarrow> serverMetrics \<Rightarrow> serverMetrics" where
  "metrics_taskRejected transport = forTransport transport
     (\<lambda>t. t\<lparr>rejectedTasks := saturatingAdd (rejectedTasks t) 1 MaxUint64\<rparr>)"

definition metrics_connectionError :: "Transport \<Rightarrow> serverMetrics \<Rightarrow> serverMetrics" where
  "metrics_connectionError transport = forTransport transport
     (\<lambda>t. t\<lparr>connectionErrors := saturatingAdd (connectionErrors t) 1 MaxUint64\<rparr>)"

definition metrics_requestCompleted :: "Transport \<Rightarrow> duration \<Rightarrow> serverMetrics \<Rightarrow> serverMetrics" where
  "metrics_requestCompleted transport duration = forTransport transport
     (\<lambda>t. let t' = t\<lparr>completedRequests := saturatingAdd (completedRequests t) 1 MaxUint64\<rparr>
          in if sint duration \<le> 0 then t'
             else t'\<lparr>totalRequestDuration := saturatingAdd (totalRequestDuration t') duration MaxInt64,
                     maximumRequestDuration := updateMaximum (maximumRequestDuration t') duration\<rparr>)"

lemmas metrics_defs =
  connectionOpened_def metrics_connectionClosed_def messageReceived_def messageSent_def
  metrics_taskQueued_def metrics_taskDequeued_def metrics_taskRejected_def
  metrics_connectionError_def metrics_requestCompleted_def

section \<open>Snapshots\<close>

record TransportStats =
  ActiveConnections :: uint64
  QueuedTasks :: uint64
  ReceivedMessages :: uint64
  ReceivedBytes :: uint64
  SentMessages :: uint64
  SentBytes :: uint64
  RejectedTasks :: uint64
  ConnectionErrors :: uint64
  CompletedRequests :: uint64
  TotalRequestDuration :: duration
  MaximumRequestDuration :: duration

record ServerStats =
  Total :: TransportStats
  TCP :: TransportStats
  WebSocket :: TransportStats

definition transportMetrics_snapshot :: "transportMetrics \<Rightarrow> TransportStats" where
  "transportMetrics_snapshot m = \<lparr>ActiveConnections = activeConnections m,
     QueuedTasks = queuedTasks m, ReceivedMessages = receivedMessages m,
     ReceivedBytes = receivedBytes m, SentMessages = sentMessages m, SentBytes = sentBytes m,
     RejectedTasks = rejectedTasks m, ConnectionErrors = connectionErrors m,
     CompletedRequests = completedRequests m,
     TotalRequestDuration = counterDuration (totalRequestDuration m),
     MaximumRequestDuration = counterDuration (maximumRequestDuration m)\<rparr>"

definition combineTransportStats :: "TransportStats \<Rightarrow> TransportStats \<Rightarrow> TransportStats" where
  "combineTransportStats first second = \<lparr>
     ActiveConnections = saturatedSum (ActiveConnections first) (ActiveConnections second) MaxUint64,
     QueuedTasks = saturatedSum (QueuedTasks first) (QueuedTasks second) MaxUint64,
     ReceivedMessages = saturatedSum (ReceivedMessages first) (ReceivedMessages second) MaxUint64,
     ReceivedBytes = saturatedSum (ReceivedBytes first) (ReceivedBytes second) MaxUint64,
     SentMessages = saturatedSum (SentMessages first) (SentMessages second) MaxUint64,
     SentBytes = saturatedSum (SentBytes first) (SentBytes second) MaxUint64,
     RejectedTasks = saturatedSum (RejectedTasks first) (RejectedTasks second) MaxUint64,
     ConnectionErrors = saturatedSum (ConnectionErrors first) (ConnectionErrors second) MaxUint64,
     CompletedRequests = saturatedSum (CompletedRequests first) (CompletedRequests second) MaxUint64,
     TotalRequestDuration =
       saturatedSum (TotalRequestDuration first) (TotalRequestDuration second) MaxInt64,
     MaximumRequestDuration =
       maxDuration (MaximumRequestDuration first) (MaximumRequestDuration second)\<rparr>"

definition serverMetrics_snapshot :: "serverMetrics \<Rightarrow> ServerStats" where
  "serverMetrics_snapshot m =
     (let t = transportMetrics_snapshot (tcp m); w = transportMetrics_snapshot (webSocket m)
      in \<lparr>Total = combineTransportStats t w, TCP = t, WebSocket = w\<rparr>)"

section \<open>Interleaved retry loops\<close>

text \<open>
  Several goroutines run retry loops on one atomic counter. Goroutine \<open>i\<close> runs the loop whose
  body is \<open>bodies ! i\<close>; it is about to load, about to swap with the value it loaded, or done.
  The log records, in order, which loops have left (by a successful swap or without a change).
\<close>

datatype cas_pc = CasLoad | CasSwap uint64 | CasDone

record cas_sys =
  cas_value :: uint64
  cas_pcs :: "cas_pc list"
  cas_log :: "nat list"

inductive cas_step :: "(uint64 \<Rightarrow> uint64 option) list \<Rightarrow> cas_sys \<Rightarrow> cas_sys \<Rightarrow> bool"
  for bodies where
  load_return: "cas_step bodies s (s\<lparr>cas_pcs := (cas_pcs s)[i := CasDone], cas_log := cas_log s @ [i]\<rparr>)"
    if "i < length (cas_pcs s)" "cas_pcs s ! i = CasLoad" "(bodies ! i) (cas_value s) = None"
| load_value: "cas_step bodies s (s\<lparr>cas_pcs := (cas_pcs s)[i := CasSwap (cas_value s)]\<rparr>)"
    if "i < length (cas_pcs s)" "cas_pcs s ! i = CasLoad" "(bodies ! i) (cas_value s) = Some next'"
| swap_ok: "cas_step bodies s
      (s\<lparr>cas_value := next', cas_pcs := (cas_pcs s)[i := CasDone], cas_log := cas_log s @ [i]\<rparr>)"
    if "i < length (cas_pcs s)" "cas_pcs s ! i = CasSwap current" "cas_value s = current"
      "(bodies ! i) current = Some next'"
| swap_fail: "cas_step bodies s (s\<lparr>cas_pcs := (cas_pcs s)[i := CasLoad]\<rparr>)"
    if "i < length (cas_pcs s)" "cas_pcs s ! i = CasSwap current" "cas_value s \<noteq> current"

definition cas_init :: "nat \<Rightarrow> uint64 \<Rightarrow> cas_sys" where
  "cas_init n v = \<lparr>cas_value = v, cas_pcs = replicate n CasLoad, cas_log = []\<rparr>"

inductive cas_run :: "(uint64 \<Rightarrow> uint64 option) list \<Rightarrow> cas_sys \<Rightarrow> cas_sys \<Rightarrow> bool"
  for bodies where
  refl: "cas_run bodies s s"
| step: "cas_run bodies s t \<Longrightarrow> cas_step bodies t u \<Longrightarrow> cas_run bodies s u"

text \<open>
  The value is always that of the finished loops run one after the other, without interference,
  in the order in which they finished.
\<close>

definition cas_done :: "cas_sys \<Rightarrow> nat set" where
  "cas_done s = {i. i < length (cas_pcs s) \<and> cas_pcs s ! i = CasDone}"

definition cas_inv :: "(uint64 \<Rightarrow> uint64 option) list \<Rightarrow> uint64 \<Rightarrow> nat \<Rightarrow> cas_sys \<Rightarrow> bool" where
  "cas_inv bodies v n s \<longleftrightarrow>
     cas_value s = fold (\<lambda>i. cas_effect (bodies ! i)) (cas_log s) v \<and>
     length (cas_pcs s) = n \<and> distinct (cas_log s) \<and> set (cas_log s) = cas_done s \<and>
     (\<forall>i < n. \<forall>current. cas_pcs s ! i = CasSwap current \<longrightarrow> (bodies ! i) current \<noteq> None)"

lemma cas_done_finish:
  "cas_pcs t = (cas_pcs s)[i := CasDone] \<Longrightarrow> i < length (cas_pcs s) \<Longrightarrow>
   cas_done t = insert i (cas_done s)"
  by (auto simp: cas_done_def nth_list_update)

lemma cas_done_move:
  "i < length (cas_pcs s) \<Longrightarrow> cas_pcs s ! i \<noteq> CasDone \<Longrightarrow> pc \<noteq> CasDone \<Longrightarrow>
   cas_done (s\<lparr>cas_pcs := (cas_pcs s)[i := pc]\<rparr>) = cas_done s"
  by (auto simp: cas_done_def nth_list_update)

lemma cas_inv_init: "cas_inv bodies v n (cas_init n v)"
  by (auto simp: cas_inv_def cas_init_def cas_done_def)

lemma cas_inv_step:
  assumes "cas_step bodies s t" and "cas_inv bodies v n s"
  shows "cas_inv bodies v n t"
  using assms
proof (induction rule: cas_step.induct)
  case (load_return i s)
  moreover from this have "i \<notin> cas_done s" by (simp add: cas_done_def)
  ultimately show ?case by (simp add: cas_inv_def cas_effect_def cas_done_finish [of _ s i] nth_list_update)
next
  case (load_value i s next')
  then show ?case by (simp add: cas_inv_def cas_done_move nth_list_update)
next
  case (swap_ok i s current next')
  moreover from this have "i \<notin> cas_done s" by (simp add: cas_done_def)
  ultimately show ?case by (simp add: cas_inv_def cas_effect_def cas_done_finish [of _ s i] nth_list_update)
next
  case (swap_fail i s current)
  then show ?case by (simp add: cas_inv_def cas_done_move nth_list_update)
qed

lemma cas_inv_run: "cas_run bodies s t \<Longrightarrow> cas_inv bodies v n s \<Longrightarrow> cas_inv bodies v n t"
  by (induction rule: cas_run.induct) (auto intro: cas_inv_step)

lemma cas_linearizable:
  assumes "cas_run bodies (cas_init n v) s" and "\<forall>i < n. cas_pcs s ! i = CasDone"
  shows "mset (cas_log s) = mset [0..<n]
    \<and> cas_value s = fold (\<lambda>i. cas_effect (bodies ! i)) (cas_log s) v"
proof -
  have inv: "cas_inv bodies v n s" using assms(1) cas_inv_init by (rule cas_inv_run)
  then have "set (cas_log s) = set [0..<n]" "distinct (cas_log s)"
    using assms(2) by (auto simp: cas_inv_def cas_done_def)
  then have "mset (cas_log s) = mset [0..<n]"
    by (subst set_eq_iff_mset_eq_distinct [symmetric]) simp_all
  with inv show ?thesis by (simp add: cas_inv_def)
qed

lemma cas_progress:
  assumes "cas_inv bodies v n s" and "i < n" and "cas_pcs s ! i \<noteq> CasDone"
  shows "\<exists>t. cas_step bodies s t"
proof (cases "cas_pcs s ! i")
  case CasLoad
  have "i < length (cas_pcs s)" using assms by (simp add: cas_inv_def)
  with CasLoad show ?thesis
    by (cases "(bodies ! i) (cas_value s)") (blast intro: cas_step.load_return cas_step.load_value)+
next
  case (CasSwap current)
  with assms have "i < length (cas_pcs s)" "(bodies ! i) current \<noteq> None"
    by (simp_all add: cas_inv_def)
  moreover from this obtain next' where "(bodies ! i) current = Some next'" by blast
  ultimately show ?thesis
    using CasSwap
    by (cases "cas_value s = current") (blast intro: cas_step.swap_ok cas_step.swap_fail)+
qed (use assms in simp)

text \<open>
  The loops end under every schedule: a loop that leaves makes the number of running loops
  smaller, and between two such steps a loop can only fail its stale swap, load, and then hold
  a fresh value.
\<close>

fun cas_cost :: "uint64 \<Rightarrow> cas_pc \<Rightarrow> nat" where
  "cas_cost v CasDone = 0"
| "cas_cost v CasLoad = 2"
| "cas_cost v (CasSwap current) = (if current = v then 1 else 3)"

definition cas_measure :: "cas_sys \<Rightarrow> nat \<times> nat" where
  "cas_measure s = (length (filter (\<lambda>pc. pc \<noteq> CasDone) (cas_pcs s)),
                    sum_list (map (cas_cost (cas_value s)) (cas_pcs s)))"

lemma filter_update_less:
  "i < length xs \<Longrightarrow> P (xs ! i) \<Longrightarrow> \<not> P y \<Longrightarrow> length (filter P (xs[i := y])) < length (filter P xs)"
  by (induction xs arbitrary: i) (auto split: nat.splits)

lemma filter_update_same:
  "i < length xs \<Longrightarrow> P (xs ! i) \<Longrightarrow> P y \<Longrightarrow> length (filter P (xs[i := y])) = length (filter P xs)"
  by (induction xs arbitrary: i) (auto split: nat.splits)

lemma sum_map_update_less:
  "i < length xs \<Longrightarrow> f y < (f (xs ! i) :: nat) \<Longrightarrow> sum_list (map f (xs[i := y])) < sum_list (map f xs)"
  by (induction xs arbitrary: i) (auto split: nat.splits)

lemma cas_step_measure:
  "cas_step bodies s t \<Longrightarrow> (cas_measure t, cas_measure s) \<in> less_than <*lex*> less_than"
proof (induction rule: cas_step.induct)
  case (load_return i s)
  then show ?case by (auto simp: cas_measure_def intro: filter_update_less)
next
  case (load_value i s next')
  then show ?case
    by (auto simp: cas_measure_def filter_update_same intro: sum_map_update_less)
next
  case (swap_ok i s current next')
  then show ?case by (auto simp: cas_measure_def intro: filter_update_less)
next
  case (swap_fail i s current)
  then show ?case
    by (auto simp: cas_measure_def filter_update_same intro!: sum_map_update_less)
qed

section \<open>The contract of an atomic counter\<close>

text \<open>
  What a user of a counter sees: each operation acts on the number stored as \<open>spec\<close> says, and
  concurrent operations act one after the other in some order. Where the operations commute,
  the outcome does not depend on the schedule at all.
\<close>

locale atomic_update =
  fixes body :: "'op \<Rightarrow> uint64 \<Rightarrow> uint64 option"
    and spec :: "'op \<Rightarrow> nat \<Rightarrow> nat"
  assumes effect: "unat (cas_effect (body opn) v) = spec opn (unat v)"
begin

lemma fold_effect: "unat (fold (\<lambda>opn. cas_effect (body opn)) opns v) = fold spec opns (unat v)"
  by (induction opns arbitrary: v) (simp_all add: effect)

lemma run_linear:
  assumes "cas_run (map body opns) (cas_init (length opns) v) s"
    and "\<forall>i < length opns. cas_pcs s ! i = CasDone"
  shows "\<exists>order. mset order = mset opns \<and> unat (cas_value s) = fold spec order (unat v)"
proof (intro exI conjI)
  let ?order = "map ((!) opns) (cas_log s)"
  note lin = cas_linearizable [OF assms]
  have idx: "set (cas_log s) = {0..<length opns}"
    using lin by (metis atLeastLessThan_upt set_mset_mset)
  show "mset ?order = mset opns"
    using lin by (metis map_nth mset_map)
  have "cas_value s = fold (\<lambda>opn. cas_effect (body opn)) ?order v"
    using lin idx by (auto simp: fold_map comp_def intro!: fold_cong)
  then show "unat (cas_value s) = fold spec ?order (unat v)" by (simp only: fold_effect)
qed

end

locale commuting_update = atomic_update +
  assumes commute: "spec a (spec b n) = spec b (spec a n)"
begin

lemma run_total:
  assumes "cas_run (map body opns) (cas_init (length opns) v) s"
    and "\<forall>i < length opns. cas_pcs s ! i = CasDone"
  shows "unat (cas_value s) = fold spec opns (unat v)"
proof -
  obtain order where "mset order = mset opns" "unat (cas_value s) = fold spec order (unat v)"
    using run_linear [OF assms] by blast
  moreover have "fold spec order = fold spec opns"
    by (rule fold_multiset_equiv) (auto simp: commute \<open>mset order = mset opns\<close>)
  ultimately show ?thesis by simp
qed

end

interpretation add: commuting_update "\<lambda>delta. saturatingAdd_body delta limit"
  "\<lambda>delta c. max c (min (c + unat delta) (unat limit))" for limit
  by unfold_locales
    (use unat_saturatingAdd in \<open>simp add: saturatingAdd_def\<close>, auto simp: max_def min_def)

interpretation maximum: commuting_update updateMaximum_body "\<lambda>candidate c. max c (unat candidate)"
  by unfold_locales
    (use unat_updateMaximum in \<open>simp add: updateMaximum_def\<close>, auto simp: max_def)

text \<open>A gauge is incremented and decremented.\<close>

fun gauge_body :: "bool \<Rightarrow> uint64 \<Rightarrow> uint64 option" where
  "gauge_body True = saturatingAdd_body 1 MaxUint64"
| "gauge_body False = decrementGauge_body"

definition gauge_spec :: "bool \<Rightarrow> nat \<Rightarrow> nat" where
  "gauge_spec up c = (if up then min (c + 1) (2 ^ 64 - 1) else c - 1)"

interpretation gauge: atomic_update gauge_body "\<lambda>up c. if c < 2 ^ 64 then gauge_spec up c else c"
proof
  fix up v
  show "unat (cas_effect (gauge_body up) v) = (if unat v < 2 ^ 64 then gauge_spec up (unat v) else unat v)"
    using unat_saturatingAdd [of v 1 MaxUint64] unat_decrementGauge [of v]
      unsigned_less [of v, where ?'a = nat]
    by (cases up) (auto simp: gauge_spec_def saturatingAdd_def decrementGauge_def)
qed

section \<open>Histories of updates\<close>

text \<open>The updates the server makes, as events with the transport they are counted under.\<close>

datatype metric_event =
    EvOpened Transport | EvClosed Transport | EvReceived Transport uint64 | EvSent Transport uint64
  | EvQueued Transport | EvDequeued Transport | EvRejected Transport | EvError Transport
  | EvCompleted Transport duration

fun ev_transport :: "metric_event \<Rightarrow> Transport" where
  "ev_transport (EvOpened t) = t" | "ev_transport (EvClosed t) = t"
| "ev_transport (EvReceived t _) = t" | "ev_transport (EvSent t _) = t"
| "ev_transport (EvQueued t) = t" | "ev_transport (EvDequeued t) = t"
| "ev_transport (EvRejected t) = t" | "ev_transport (EvError t) = t"
| "ev_transport (EvCompleted t _) = t"

fun apply_event :: "metric_event \<Rightarrow> serverMetrics \<Rightarrow> serverMetrics" where
  "apply_event (EvOpened t) = connectionOpened t"
| "apply_event (EvClosed t) = metrics_connectionClosed t"
| "apply_event (EvReceived t n) = messageReceived t n"
| "apply_event (EvSent t n) = messageSent t n"
| "apply_event (EvQueued t) = metrics_taskQueued t"
| "apply_event (EvDequeued t) = metrics_taskDequeued t"
| "apply_event (EvRejected t) = metrics_taskRejected t"
| "apply_event (EvError t) = metrics_connectionError t"
| "apply_event (EvCompleted t d) = metrics_requestCompleted t d"

definition metrics_after :: "metric_event list \<Rightarrow> serverMetrics" where
  "metrics_after evs = fold apply_event evs zeroServerMetrics"

definition metrics_of :: "Transport \<Rightarrow> serverMetrics \<Rightarrow> transportMetrics" where
  "metrics_of transport m = (if transport = TransportTCP then tcp m else webSocket m)"

lemma apply_event_forTransport: "\<exists>update. apply_event ev = forTransport (ev_transport ev) update"
  by (cases ev) (auto simp: metrics_defs)

lemma metrics_after_snoc: "metrics_after (evs @ [ev]) = apply_event ev (metrics_after evs)"
  by (simp add: metrics_after_def)

lemma metrics_of_zero [simp]: "metrics_of t zeroServerMetrics = zeroTransportMetrics"
  by (simp add: metrics_of_def zeroServerMetrics_def)

lemma metrics_of_forTransport:
  "t \<in> {TransportTCP, TransportWebSocket} \<Longrightarrow>
   metrics_of t (forTransport t' update m) = (if t' = t then update (metrics_of t m) else metrics_of t m)"
  by (auto simp: metrics_of_def forTransport_def)

text \<open>The durations of one transport.\<close>

definition durations_ok :: "transportMetrics \<Rightarrow> bool" where
  "durations_ok t \<longleftrightarrow> maximumRequestDuration t \<le> totalRequestDuration t \<and> totalRequestDuration t \<le> MaxInt64"

lemma durations_ok_requestCompleted:
  assumes "durations_ok (metrics_of t m)" and "t \<in> {TransportTCP, TransportWebSocket}"
  shows "durations_ok (metrics_of t (metrics_requestCompleted t' d m))"
proof (cases "t' = t \<and> 0 < sint d")
  case False
  with assms show ?thesis
    by (auto simp: metrics_requestCompleted_def metrics_of_forTransport durations_ok_def)
next
  case True
  then have "unat d < 2 ^ 63" using sint_nonneg_iff [of d] by simp
  with True assms show ?thesis
    using unat_saturatingAdd [of "totalRequestDuration (metrics_of t m)" d MaxInt64]
      unat_updateMaximum [of "maximumRequestDuration (metrics_of t m)" d]
    by (auto simp: metrics_requestCompleted_def metrics_of_forTransport durations_ok_def word_le_nat_alt)
qed

lemma durations_ok_event:
  assumes "durations_ok (metrics_of t m)" and "t \<in> {TransportTCP, TransportWebSocket}"
  shows "durations_ok (metrics_of t (apply_event ev m))"
proof (cases ev)
  case (EvCompleted t' d)
  with durations_ok_requestCompleted [OF assms] show ?thesis by simp
qed (use assms in \<open>auto simp: metrics_defs metrics_of_forTransport durations_ok_def\<close>)

lemma durations_ok_after:
  "t \<in> {TransportTCP, TransportWebSocket} \<Longrightarrow> durations_ok (metrics_of t (metrics_after evs))"
proof (induction evs rule: rev_induct)
  case Nil
  then show ?case by (simp add: metrics_after_def durations_ok_def zeroTransportMetrics_def)
next
  case (snoc ev evs)
  then show ?case unfolding metrics_after_snoc by (intro durations_ok_event) simp_all
qed

text \<open>A gauge counts the difference of the two kinds of events as long as it does not go below zero.\<close>

fun opened :: "Transport \<Rightarrow> metric_event list \<Rightarrow> nat" where
  "opened t evs = count_list evs (EvOpened t)"

fun closed :: "Transport \<Rightarrow> metric_event list \<Rightarrow> nat" where
  "closed t evs = count_list evs (EvClosed t)"

lemma active_after:
  assumes "t \<in> {TransportTCP, TransportWebSocket}" and "opened t evs < 2 ^ 64"
    and "\<forall>k \<le> length evs. closed t (take k evs) \<le> opened t (take k evs)"
  shows "unat (activeConnections (metrics_of t (metrics_after evs))) = opened t evs - closed t evs"
  using assms(2,3)
proof (induction evs rule: rev_induct)
  case Nil
  then show ?case by (simp add: metrics_after_def zeroTransportMetrics_def)
next
  case (snoc ev evs)
  have le: "closed t evs \<le> opened t evs" "closed t (evs @ [ev]) \<le> opened t (evs @ [ev])"
    using snoc.prems(2) [rule_format, of "length evs"] snoc.prems(2) [rule_format, of "length (evs @ [ev])"]
    by simp_all
  have "\<forall>k \<le> length evs. closed t (take k evs) \<le> opened t (take k evs)"
    using snoc.prems(2) by (metis append.right_neutral diff_is_0_eq' le_SucI length_append_singleton
        take_0 take_append)
  moreover have "opened t evs < 2 ^ 64" using snoc.prems(1) by simp
  ultimately have IH: "unat (activeConnections (metrics_of t (metrics_after evs))) = opened t evs - closed t evs"
    using snoc.IH by blast
  show ?case
    using IH le snoc.prems(1) unat_saturatingAdd [of "activeConnections (metrics_of t (metrics_after evs))" 1 MaxUint64]
      unat_decrementGauge [of "activeConnections (metrics_of t (metrics_after evs))"]
    by (cases ev) (auto simp: metrics_after_snoc metrics_defs metrics_of_forTransport [OF assms(1)] Let_def)
qed

section \<open>Properties\<close>

text \<open>
  C10. No update is lost and none wraps around: any number of goroutines add to one counter by
  the compare-and-swap loop, in any interleaving of their loads and swaps. When all have
  returned, the counter holds the initial value plus all deltas, cut off at the limit.
\<close>

theorem concurrent_add_exact:
  assumes "cas_run (map (\<lambda>delta. saturatingAdd_body delta limit) deltas) (cas_init (length deltas) v) s"
    and "\<forall>i < length deltas. cas_pcs s ! i = CasDone" and "v \<le> limit"
  shows "unat (cas_value s) = min (unat v + sum_list (map unat deltas)) (unat limit)"
proof -
  have "fold (\<lambda>delta c. max c (min (c + unat delta) l)) ds n = min (n + sum_list (map unat ds)) l"
    if "n \<le> l" for ds :: "uint64 list" and n l
    using that by (induction ds arbitrary: n) (auto simp: max_def min_def)
  with add.run_total [OF assms(1,2)] assms(3) show ?thesis by (simp add: word_le_nat_alt)
qed

theorem concurrent_add_exact_witness:
  "\<exists>s. cas_run (map (\<lambda>delta. saturatingAdd_body delta 10) [4, 3]) (cas_init 2 5) s \<and>
       (\<forall>i < 2. cas_pcs s ! i = CasDone) \<and> unat (cas_value s) = 10"
proof -
  let ?b = "map (\<lambda>delta. saturatingAdd_body delta 10) [4, 3 :: uint64]"
  let ?s = "\<lambda>v pcs l. \<lparr>cas_value = v, cas_pcs = pcs, cas_log = l\<rparr>"
  have s1: "cas_step ?b (?s 5 [CasLoad, CasLoad] []) (?s 5 [CasSwap 5, CasLoad] [])"
    using cas_step.load_value [of 0 "?s 5 [CasLoad, CasLoad] []" ?b 9]
    by (simp add: saturatingAdd_body_def saturatedSum_def)
  have s2: "cas_step ?b (?s 5 [CasSwap 5, CasLoad] []) (?s 5 [CasSwap 5, CasSwap 5] [])"
    using cas_step.load_value [of 1 "?s 5 [CasSwap 5, CasLoad] []" ?b 8]
    by (simp add: saturatingAdd_body_def saturatedSum_def)
  have s3: "cas_step ?b (?s 5 [CasSwap 5, CasSwap 5] []) (?s 8 [CasSwap 5, CasDone] [1])"
    using cas_step.swap_ok [of 1 "?s 5 [CasSwap 5, CasSwap 5] []" 5 ?b 8]
    by (simp add: saturatingAdd_body_def saturatedSum_def)
  have s4: "cas_step ?b (?s 8 [CasSwap 5, CasDone] [1]) (?s 8 [CasLoad, CasDone] [1])"
    using cas_step.swap_fail [of 0 "?s 8 [CasSwap 5, CasDone] [1]" 5 ?b] by simp
  have s5: "cas_step ?b (?s 8 [CasLoad, CasDone] [1]) (?s 8 [CasSwap 8, CasDone] [1])"
    using cas_step.load_value [of 0 "?s 8 [CasLoad, CasDone] [1]" ?b 10]
    by (simp add: saturatingAdd_body_def saturatedSum_def)
  have s6: "cas_step ?b (?s 8 [CasSwap 8, CasDone] [1]) (?s 10 [CasDone, CasDone] [1, 0])"
    using cas_step.swap_ok [of 0 "?s 8 [CasSwap 8, CasDone] [1]" 8 ?b 10]
    by (simp add: saturatingAdd_body_def saturatedSum_def)
  have "cas_run ?b (?s 5 [CasLoad, CasLoad] []) (?s 10 [CasDone, CasDone] [1, 0])"
    by (rule cas_run.step [OF cas_run.step [OF cas_run.step [OF cas_run.step [OF cas_run.step
        [OF cas_run.step [OF cas_run.refl s1] s2] s3] s4] s5] s6])
  then have run: "cas_run ?b (cas_init (length [4, 3 :: uint64]) 5) (?s 10 [CasDone, CasDone] [1, 0])"
    by (simp add: cas_init_def)
  have dn: "\<forall>i < length [4, 3 :: uint64]. cas_pcs (?s 10 [CasDone, CasDone] [1, 0]) ! i = CasDone"
    by (auto simp: less_Suc_eq)
  have "unat (cas_value (?s 10 [CasDone, CasDone] [1, 0])) = 10"
    using concurrent_add_exact [OF run dn] by simp
  with run dn show ?thesis by (intro exI [of _ "?s 10 [CasDone, CasDone] [1, 0]"]) (simp add: numeral_2_eq_2)
qed

text \<open>
  The retry loops end under every schedule, fair or not: there is no infinite sequence of
  steps of the loops, and they can only come to rest when every loop has returned.
\<close>

lemma cas_loops_terminate:
  "wf {(t, s). cas_step bodies s t} \<and>
   (\<forall>s i. cas_run bodies (cas_init n v) s \<and> i < n \<and> cas_pcs s ! i \<noteq> CasDone \<longrightarrow> (\<exists>t. cas_step bodies s t))"
proof
  have "{(t, s). cas_step bodies s t} \<subseteq> inv_image (less_than <*lex*> less_than) cas_measure"
    using cas_step_measure by (auto simp: inv_image_def)
  then show "wf {(t, s). cas_step bodies s t}"
    by (rule wf_subset [OF wf_inv_image [OF wf_lex_prod [OF wf_less_than wf_less_than]]])
  show "\<forall>s i. cas_run bodies (cas_init n v) s \<and> i < n \<and> cas_pcs s ! i \<noteq> CasDone \<longrightarrow> (\<exists>t. cas_step bodies s t)"
    using cas_progress cas_inv_run [OF _ cas_inv_init] by blast
qed

text \<open>
  C22. The connection gauge is exact: after any history of updates in which no prefix has more
  connections closed than opened on a transport, and with fewer than \<open>2\<^sup>6\<^sup>4\<close> opened, the gauge
  of that transport is the number of connections opened and not yet closed, whatever happened
  on the other transport and to the other counters.
\<close>

theorem active_gauge_exact:
  assumes "t \<in> {TransportTCP, TransportWebSocket}" and "opened t evs < 2 ^ 64"
    and "\<forall>k \<le> length evs. closed t (take k evs) \<le> opened t (take k evs)"
  shows "unat (activeConnections (metrics_of t (metrics_after evs))) = opened t evs - closed t evs"
  using assms by (rule active_after)

theorem active_gauge_exact_witness:
  "unat (activeConnections (metrics_of TransportTCP (metrics_after
     [EvOpened TransportTCP, EvOpened TransportWebSocket, EvOpened TransportTCP, EvClosed TransportTCP]))) = 1"
proof -
  let ?evs = "[EvOpened TransportTCP, EvOpened TransportWebSocket, EvOpened TransportTCP, EvClosed TransportTCP]"
  have "\<forall>k \<le> length ?evs. closed TransportTCP (take k ?evs) \<le> opened TransportTCP (take k ?evs)"
    by (auto simp: take_Cons split: nat.splits)
  from active_gauge_exact [of TransportTCP ?evs, OF _ _ this] show ?thesis by simp
qed

text \<open>
  Durations stay meaningful: after any history of updates, for both transports and in the
  total, a snapshot reports a maximal request duration that is at most the total duration, and
  neither is negative.
\<close>

lemma snapshot_durations:
  "list_all (\<lambda>st. 0 \<le> sint (MaximumRequestDuration st) \<and>
                  sint (MaximumRequestDuration st) \<le> sint (TotalRequestDuration st))
     (let st = serverMetrics_snapshot (metrics_after evs) in [TCP st, WebSocket st, Total st])"
proof -
  let ?m = "metrics_after evs"
  have ok: "durations_ok (tcp ?m)" "durations_ok (webSocket ?m)"
    using durations_ok_after [of TransportTCP evs] durations_ok_after [of TransportWebSocket evs]
    by (simp_all add: metrics_of_def)
  have sint_le: "sint w = uint w" if "w \<le> MaxInt64" for w :: uint64
    using that by (intro sint_uint_nonneg) (simp add: sint_nonneg_iff word_le_nat_alt)
  have dur: "counterDuration w = w" if "w \<le> MaxInt64" for w
    using that by (simp add: counterDuration_def leD)
  define mt tt mw tw where "mt = maximumRequestDuration (tcp ?m)" "tt = totalRequestDuration (tcp ?m)"
    "mw = maximumRequestDuration (webSocket ?m)" "tw = totalRequestDuration (webSocket ?m)"
  note d = this
  have le: "mt \<le> tt" "tt \<le> MaxInt64" "mw \<le> tw" "tw \<le> MaxInt64" "mt \<le> MaxInt64" "mw \<le> MaxInt64"
    using ok by (auto simp: durations_ok_def d)
  have sum: "saturatedSum tt tw MaxInt64 \<le> MaxInt64" "mt \<le> saturatedSum tt tw MaxInt64"
    "mw \<le> saturatedSum tt tw MaxInt64"
    using unat_saturatedSum [of tt tw MaxInt64] le by (simp_all add: word_le_nat_alt)
  from le sum show ?thesis
    by (simp add: serverMetrics_snapshot_def transportMetrics_snapshot_def combineTransportStats_def
        Let_def dur maxDuration_def sint_le word_le_def flip: d)
qed

text \<open>
  The total of a snapshot is the saturated sum of the two transports, for every counter and
  gauge: it never wraps around, and it is exact whenever the sum fits in 64 bits.
\<close>

lemma snapshot_total_saturates:
  "let st = serverMetrics_snapshot m
   in list_all (\<lambda>field. unat (field (Total st)) = min (unat (field (TCP st)) + unat (field (WebSocket st))) (2 ^ 64 - 1))
        [ActiveConnections, QueuedTasks, ReceivedMessages, ReceivedBytes, SentMessages, SentBytes,
         RejectedTasks, ConnectionErrors, CompletedRequests]"
proof -
  have "unat (saturatedSum a b MaxUint64) = min (unat a + unat b) (2 ^ 64 - 1)" for a b
    using unsigned_less [of a, where ?'a = nat] by (auto simp: unat_saturatedSum)
  then show ?thesis
    by (simp add: serverMetrics_snapshot_def combineTransportStats_def Let_def)
qed

end
