(* ===== verification/Handlers.thy ===== *)
theory Handlers
  imports Codec Router Stats "HOL-Library.Sublist"
begin

text \<open>
  Requests, the handler chain of a request and the two middlewares of the package:
  \<open>src/request.go\<close>, \<open>src/context.go\<close>, \<open>src/recovery.go\<close> and \<open>src/logger.go\<close>.

  A handler is Go code of the application. Its interaction with the request is modelled as a
  tree: at each node the code calls one of the operations below, and a function gives how it
  goes on from the value that the call returned. \<open>defer\<close>/\<open>recover\<close> is a node as well. What
  handlers reach outside the request (the connection's \<open>Send\<close>, the clock, the writer of the
  log) is an environment, a parameter of the chain.
\<close>

section \<open>Requests\<close>

record Request =
  Request_Message :: Message

definition newRequest :: "Message \<Rightarrow> Request" where
  "newRequest message = \<lparr>Request_Message = message\<rparr>"

section \<open>Handlers as trees\<close>

type_synonym 'v any = "'v option"  \<comment> \<open>a value of type \<open>any\<close>; \<open>None\<close> is nil\<close>

text \<open>An \<open>io.Writer\<close> is identified by a number; \<open>DefaultWriter\<close> is one of them.\<close>

type_synonym writer = nat

definition DefaultWriter :: writer where
  "DefaultWriter = 0"

datatype 'v prog =
    Return
  | Raise string                                        \<comment> \<open>\<open>panic(message)\<close>\<close>
  | CallNext "'v prog"                                  \<comment> \<open>\<open>c.Next()\<close>\<close>
  | CallSet string "'v any" "'v prog"                   \<comment> \<open>\<open>c.Set(key, value)\<close>\<close>
  | CallGet string "'v any \<Rightarrow> 'v prog"                  \<comment> \<open>\<open>c.Get(key)\<close>\<close>
  | ReadContext "uint64 option \<Rightarrow> Request \<Rightarrow> 'v prog"   \<comment> \<open>\<open>c.Connection\<close>, \<open>c.Request\<close>\<close>
  | CallSend uint32 "byte list" "go_error option \<Rightarrow> 'v prog"  \<comment> \<open>\<open>c.Connection.Send(c, event, body)\<close>\<close>
  | CallNow "duration \<Rightarrow> 'v prog"                       \<comment> \<open>\<open>time.Now()\<close>\<close>
  | CallPrint writer string "'v prog"                   \<comment> \<open>\<open>fmt.Fprint(writer, text)\<close>\<close>
  | Recovering "'v prog" "string \<Rightarrow> 'v prog"            \<comment> \<open>a body under \<open>defer func() { recover ... }\<close>\<close>

datatype handler_event =
    Started nat
  | Sent uint32 "byte list"
  | Printed writer string

text \<open>
  \<open>step\<close> is a Go \<open>int\<close> that only counts calls, far from its bounds; it is an integer here.
  \<open>ctx_Connection\<close> is the connection, by its ID, or nil. \<open>ctx_err\<close> is the error of the embedded \<open>context.Context\<close>, \<open>finished\<close> the state of
  \<open>finishMu\<close>. \<open>world\<close> is what the environment acts on, and \<open>trace\<close> is history: which
  handlers were started and what was sent and printed, in order.
\<close>

record ('v, 'w) Context =
  ctx_Connection :: "uint64 option"
  ctx_Request :: Request
  handlers :: "'v prog Handler list"
  step :: int
  keys :: "(string \<Rightarrow> 'v any option) option"
  has_cancel :: bool
  ctx_err :: "go_error option"
  finished :: bool
  has_metrics :: bool
  metricTransport :: Transport
  world :: 'w
  trace :: "handler_event list"

record 'w handler_env =
  env_send :: "uint32 \<Rightarrow> byte list \<Rightarrow> 'w \<Rightarrow> go_error option \<times> 'w"
  env_now :: "'w \<Rightarrow> duration \<times> 'w"
  env_print :: "writer \<Rightarrow> string \<Rightarrow> 'w \<Rightarrow> 'w"

section \<open>Operations of the context\<close>

text \<open>\<open>parent_err\<close> is the error of the parent context, which a new context inherits.\<close>

definition newContext :: "go_error option \<Rightarrow> uint64 option \<Rightarrow> Request \<Rightarrow> 'w \<Rightarrow> ('v, 'w) Context" where
  "newContext parent_err connection request w =
     \<lparr>ctx_Connection = connection, ctx_Request = request, handlers = [], step = -1, keys = None, has_cancel = True,
      ctx_err = parent_err, finished = False, has_metrics = False, metricTransport = 0,
      world = w, trace = []\<rparr>"

definition Context_Set :: "string \<Rightarrow> 'v any \<Rightarrow> ('v, 'w) Context \<Rightarrow> ('v, 'w) Context" where
  "Context_Set key v c =
     (let m = (case keys c of None \<Rightarrow> Map.empty | Some m \<Rightarrow> m)
      in c\<lparr>keys := Some (m(key \<mapsto> v))\<rparr>)"

definition Context_Get :: "string \<Rightarrow> ('v, 'w) Context \<Rightarrow> 'v any" where
  "Context_Get key c =
     (case keys c of None \<Rightarrow> None | Some m \<Rightarrow> (case m key of None \<Rightarrow> None | Some v \<Rightarrow> v))"

definition cancelTask :: "('v, 'w) Context \<Rightarrow> ('v, 'w) Context" where
  "cancelTask c = (if has_cancel c \<and> ctx_err c = None then c\<lparr>ctx_err := Some Canceled\<rparr> else c)"

definition finish :: "('v, 'w) Context \<Rightarrow> ('v, 'w) Context" where
  "finish c = (if finished c then c else cancelTask (c\<lparr>finished := True\<rparr>))"

definition taskQueued :: "('v, 'w) Context \<Rightarrow> serverMetrics \<Rightarrow> serverMetrics" where
  "taskQueued c m = (if \<not> has_metrics c then m else metrics_taskQueued (metricTransport c) m)"

definition taskDequeued :: "('v, 'w) Context \<Rightarrow> serverMetrics \<Rightarrow> serverMetrics" where
  "taskDequeued c m = (if \<not> has_metrics c then m else metrics_taskDequeued (metricTransport c) m)"

definition taskRejected :: "('v, 'w) Context \<Rightarrow> serverMetrics \<Rightarrow> serverMetrics" where
  "taskRejected c m = (if \<not> has_metrics c then m else metrics_taskRejected (metricTransport c) m)"

definition requestCompleted :: "duration \<Rightarrow> ('v, 'w) Context \<Rightarrow> serverMetrics \<Rightarrow> serverMetrics" where
  "requestCompleted d c m = (if \<not> has_metrics c then m else metrics_requestCompleted (metricTransport c) d m)"

section \<open>Running a handler\<close>

datatype result = Returned | Panicked string

type_synonym ('v, 'w) run = "('v, 'w) Context \<Rightarrow> (('v, 'w) Context \<times> result) option"

definition do_send ::
  "'w handler_env \<Rightarrow> uint32 \<Rightarrow> byte list \<Rightarrow> ('v, 'w) Context \<Rightarrow> go_error option \<times> ('v, 'w) Context" where
  "do_send env event body c = (let (e, w) = env_send env event body (world c)
     in (e, c\<lparr>world := w, trace := trace c @ [Sent event body]\<rparr>))"

definition do_now :: "'w handler_env \<Rightarrow> ('v, 'w) Context \<Rightarrow> duration \<times> ('v, 'w) Context" where
  "do_now env c = (let (t, w) = env_now env (world c) in (t, c\<lparr>world := w\<rparr>))"

definition do_print :: "'w handler_env \<Rightarrow> writer \<Rightarrow> string \<Rightarrow> ('v, 'w) Context \<Rightarrow> ('v, 'w) Context" where
  "do_print env out s c = c\<lparr>world := env_print env out s (world c), trace := trace c @ [Printed out s]\<rparr>"

text \<open>\<open>nxt\<close> is the method \<open>Next\<close>; \<open>None\<close> means that it ran out of fuel.\<close>

primrec exec :: "'w handler_env \<Rightarrow> ('v, 'w) run \<Rightarrow> 'v prog \<Rightarrow> ('v, 'w) run" where
  "exec env nxt Return = (\<lambda>c. Some (c, Returned))"
| "exec env nxt (Raise m) = (\<lambda>c. Some (c, Panicked m))"
| "exec env nxt (CallNext p) = (\<lambda>c.
     case nxt c of
       Some (c', Returned) \<Rightarrow> exec env nxt p c'
     | r \<Rightarrow> r)"
| "exec env nxt (CallSet key v p) = (\<lambda>c. exec env nxt p (Context_Set key v c))"
| "exec env nxt (CallGet key f) = (\<lambda>c. exec env nxt (f (Context_Get key c)) c)"
| "exec env nxt (ReadContext f) = (\<lambda>c. exec env nxt (f (ctx_Connection c) (ctx_Request c)) c)"
| "exec env nxt (CallSend event body f) = (\<lambda>c.
     exec env nxt (f (fst (do_send env event body c))) (snd (do_send env event body c)))"
| "exec env nxt (CallNow f) = (\<lambda>c. exec env nxt (f (fst (do_now env c))) (snd (do_now env c)))"
| "exec env nxt (CallPrint out s p) = (\<lambda>c. exec env nxt p (do_print env out s c))"
| "exec env nxt (Recovering p f) = (\<lambda>c.
     case exec env nxt p c of
       Some (c', Panicked m) \<Rightarrow> exec env nxt (f m) c'
     | r \<Rightarrow> r)"

text \<open>
  The loop of \<open>Next\<close>. A nil handler and a negative index are run-time panics. Every nested
  call and every round of the loop starts at a higher step, so a fuel of one more than the
  handlers that are left is enough; see \<open>next_loop_total\<close>.
\<close>

abbreviation advance :: "('v, 'w) Context \<Rightarrow> ('v, 'w) Context" where
  "advance c \<equiv> c\<lparr>step := step c + 1\<rparr>"

abbreviation begin_handler :: "('v, 'w) Context \<Rightarrow> ('v, 'w) Context" where
  "begin_handler c \<equiv> c\<lparr>trace := trace c @ [Started (nat (step c))]\<rparr>"

fun next_loop :: "'w handler_env \<Rightarrow> nat \<Rightarrow> ('v, 'w) run" where
  "next_loop env 0 c = None"
| "next_loop env (Suc n) c =
     (if step c < 0 then Some (c, Panicked ''index out of range'')
      else if step c < int (length (handlers c)) then
        case (case handlers c ! nat (step c) of
                None \<Rightarrow> Some (begin_handler c, Panicked ''nil handler'')
              | Some p \<Rightarrow> exec env (\<lambda>c. next_loop env n (advance c)) p (begin_handler c)) of
          Some (c', Returned) \<Rightarrow> next_loop env n (advance c')
        | r \<Rightarrow> r
      else Some (c, Returned))"

definition Context_Next :: "'w handler_env \<Rightarrow> ('v, 'w) run" where
  "Context_Next env c = next_loop env (Suc (length (handlers c))) (advance c)"

section \<open>Middlewares\<close>

text \<open>
  The text of the reply is \<open>[]byte("Server Error")\<close>. The trace that \<open>Recovery\<close> logs before
  it replies is output only and is left out.
\<close>

definition bytes_of :: "string \<Rightarrow> byte list" where
  "bytes_of s = map of_char s"

text \<open>
  \<open>Recovery\<close>. \<open>trace_text\<close> is the text of the stack trace that it writes to the standard logger, for
  the value recovered.
\<close>

definition LogWriter :: writer where
  "LogWriter = 1"

definition Recovery :: "(string \<Rightarrow> string) \<Rightarrow> 'v prog" where
  "Recovery trace_text = Recovering (CallNext Return)
     (\<lambda>err. CallPrint LogWriter (trace_text err) (CallSend 500 (bytes_of ''Server Error'') (\<lambda>_. Return)))"

record LogFormatterParameters =
  LFP_Connection :: "uint64 option"
  LFP_Request :: Request
  TimeStamp :: duration
  Latency :: duration

type_synonym LogFormatter = "LogFormatterParameters \<Rightarrow> string"

abbreviation Second :: duration where "Second \<equiv> 1000000000"
abbreviation Minute :: duration where "Minute \<equiv> 60 * Second"

text \<open>
  \<open>defaultLogFormatter\<close> up to the rendering by \<open>fmt.Sprintf\<close>, which is the parameter
  \<open>render\<close>. \<open>Truncate\<close> is \<open>d - d % m\<close>, here on a positive duration.
\<close>

definition defaultLogFormatter :: "LogFormatter \<Rightarrow> LogFormatter" where
  "defaultLogFormatter render parameters =
     render (if sint (Latency parameters) > sint Minute
             then parameters\<lparr>Latency := Latency parameters - Latency parameters mod Second\<rparr>
             else parameters)"

record LoggerConfig =
  Formatter :: "LogFormatter option"
  Writer :: "writer option"

definition LoggerWithConfig :: "LogFormatter \<Rightarrow> LoggerConfig \<Rightarrow> 'v prog" where
  "LoggerWithConfig render config =
     (let formatter = (case Formatter config of None \<Rightarrow> defaultLogFormatter render | Some f \<Rightarrow> f);
          out = (case Writer config of None \<Rightarrow> DefaultWriter | Some wr \<Rightarrow> wr) in
      CallNow (\<lambda>start. CallNext (ReadContext (\<lambda>connection request. CallNow (\<lambda>stop.
        CallPrint out (formatter \<lparr>LFP_Connection = connection, LFP_Request = request, TimeStamp = stop, Latency = stop - start\<rparr>) Return)))))"

definition Logger :: "LogFormatter \<Rightarrow> 'v prog" where
  "Logger render = LoggerWithConfig render \<lparr>Formatter = None, Writer = None\<rparr>"

definition LoggerWithFormatter :: "LogFormatter \<Rightarrow> LogFormatter \<Rightarrow> 'v prog" where
  "LoggerWithFormatter render formatter = LoggerWithConfig render \<lparr>Formatter = Some formatter, Writer = None\<rparr>"

definition LoggerWithWriter :: "LogFormatter \<Rightarrow> writer \<Rightarrow> 'v prog" where
  "LoggerWithWriter render out = LoggerWithConfig render \<lparr>Formatter = None, Writer = Some out\<rparr>"

text \<open>The handler \<open>handleRequest\<close> installs for an event without a route.\<close>

definition notFoundHandler :: "'v prog" where
  "notFoundHandler = CallSend 404 (bytes_of ''Event Not Found'') (\<lambda>_. Return)"

section \<open>Progress through the chain\<close>

text \<open>
  Every operation of a handler only moves the context forward. While a handler runs, exactly
  the handlers up to the current step have been started, in order.
\<close>

fun started :: "handler_event list \<Rightarrow> nat list" where
  "started [] = []"
| "started (Started i # es) = i # started es"
| "started (_ # es) = started es"

lemma started_append [simp]: "started (es @ fs) = started es @ started fs"
  by (induction es rule: started.induct) auto

definition progress :: "('v, 'w) Context \<Rightarrow> ('v, 'w) Context \<Rightarrow> bool" where
  "progress c c' \<longleftrightarrow> handlers c' = handlers c \<and> ctx_Request c' = ctx_Request c \<and>
     ctx_Connection c' = ctx_Connection c \<and> has_metrics c' = has_metrics c \<and>
     metricTransport c' = metricTransport c \<and> step c \<le> step c' \<and> prefix (trace c) (trace c')"

definition running :: "('v, 'w) Context \<Rightarrow> bool" where
  "running c \<longleftrightarrow> 0 \<le> step c \<and> started (trace c) = [0..<min (Suc (nat (step c))) (length (handlers c))]"

definition entering :: "('v, 'w) Context \<Rightarrow> bool" where
  "entering c \<longleftrightarrow> 0 \<le> step c \<and> started (trace c) = [0..<min (nat (step c)) (length (handlers c))]"

lemma progress_refl [simp]: "progress c c"
  by (simp add: progress_def)

lemma progress_trans: "progress c d \<Longrightarrow> progress d e \<Longrightarrow> progress c e"
  by (auto simp: progress_def)

lemma progress_ops:
  "progress c (Context_Set key v c)" "progress c (snd (do_send env event body c))"
  "progress c (snd (do_now env c))" "progress c (do_print env out s c)" "progress c (advance c)"
  by (simp_all add: progress_def Context_Set_def do_send_def do_now_def do_print_def case_prod_beta Let_def)

text \<open>A handler of the chain \<open>hs\<close> at work, at step \<open>k\<close> or later.\<close>

definition ready :: "int \<Rightarrow> 'v prog Handler list \<Rightarrow> ('v, 'w) Context \<Rightarrow> bool" where
  "ready k hs c \<longleftrightarrow> running c \<and> k \<le> step c \<and> handlers c = hs"

lemma ready_ops [simp]:
  "ready k hs (Context_Set key v c) = ready k hs c" "ready k hs (snd (do_send env event body c)) = ready k hs c"
  "ready k hs (snd (do_now env c)) = ready k hs c" "ready k hs (do_print env out s c) = ready k hs c"
  by (simp_all add: ready_def running_def Context_Set_def do_send_def do_now_def do_print_def case_prod_beta Let_def)

lemma ready_progress: "ready k hs c \<Longrightarrow> progress c c' \<Longrightarrow> running c' \<Longrightarrow> ready k hs c'"
  by (auto simp: ready_def progress_def)

text \<open>What a run promises from a context: it ends, in a context that the given one reaches.\<close>

definition ends_from :: "('v, 'w) run \<Rightarrow> ('v, 'w) Context \<Rightarrow> bool" where
  "ends_from f c \<longleftrightarrow> (\<exists>c' r. f c = Some (c', r) \<and> running c' \<and> progress c c')"

lemma ends_fromE:
  assumes "ends_from f c"
  obtains c' r where "f c = Some (c', r)" "running c'" "progress c c'"
  using assms by (auto simp: ends_from_def)

lemma ends_from_after:
  "ends_from f d \<Longrightarrow> progress c d \<Longrightarrow> g c = f d \<Longrightarrow> ends_from g c"
  by (auto simp: ends_from_def intro: progress_trans)

lemma exec_ends:
  assumes nxt: "\<And>c. ready k hs c \<Longrightarrow> ends_from nxt c"
  shows "ready k hs c \<Longrightarrow> ends_from (exec env nxt p) c"
proof (induction p arbitrary: c)
  case (CallNext p)
  then obtain c' r where c': "nxt c = Some (c', r)" "running c'" "progress c c'"
    using nxt by (blast elim: ends_fromE)
  show ?case
  proof (cases r)
    case Returned
    have "ends_from (exec env nxt p) c'"
      by (rule CallNext.IH [OF ready_progress [OF CallNext.prems c'(3,2)]])
    then show ?thesis by (rule ends_from_after [OF _ c'(3)]) (simp add: c'(1) Returned)
  next
    case (Panicked m)
    then show ?thesis using c' by (simp add: ends_from_def)
  qed
next
  case (Recovering p f)
  then obtain c' r where c': "exec env nxt p c = Some (c', r)" "running c'" "progress c c'"
    by (blast elim: ends_fromE)
  show ?case
  proof (cases r)
    case Returned
    then show ?thesis using c' by (simp add: ends_from_def)
  next
    case (Panicked m)
    have "ends_from (exec env nxt (f m)) c'"
      using Recovering.IH(2) ready_progress [OF Recovering.prems c'(3,2)] by blast
    then show ?thesis by (rule ends_from_after [OF _ c'(3)]) (simp add: c'(1) Panicked)
  qed
next
  case (CallSend event body f)
  have "ends_from (exec env nxt (f (fst (do_send env event body c)))) (snd (do_send env event body c))"
    using CallSend by simp
  then show ?case by (rule ends_from_after [OF _ progress_ops(2)]) simp
next
  case (CallNow f)
  have "ends_from (exec env nxt (f (fst (do_now env c)))) (snd (do_now env c))"
    using CallNow by simp
  then show ?case by (rule ends_from_after [OF _ progress_ops(3)]) simp
next
  case (CallSet key v p)
  have "ends_from (exec env nxt p) (Context_Set key v c)" using CallSet by simp
  then show ?case by (rule ends_from_after [OF _ progress_ops(1)]) simp
next
  case (CallPrint out s p)
  have "ends_from (exec env nxt p) (do_print env out s c)" using CallPrint by simp
  then show ?case by (rule ends_from_after [OF _ progress_ops(4)]) simp
next
  case (CallGet key f)
  have "ends_from (exec env nxt (f (Context_Get key c))) c" using CallGet by simp
  then show ?case by (rule ends_from_after [OF _ progress_refl]) simp
next
  case (ReadContext f)
  have "ends_from (exec env nxt (f (ctx_Connection c) (ctx_Request c))) c" using ReadContext by blast
  then show ?case by (rule ends_from_after [OF _ progress_refl]) simp
qed (simp_all add: ends_from_def ready_def)

lemma entering_advance: "running c \<Longrightarrow> entering (advance c)"
  by (simp add: running_def entering_def nat_add_distrib)

lemma running_begin: "entering c \<Longrightarrow> step c < int (length (handlers c)) \<Longrightarrow> running (begin_handler c)"
  by (auto simp: running_def entering_def min_def)

text \<open>The handler at the current step, run under the loop's own continuation.\<close>

definition run_handler :: "'w handler_env \<Rightarrow> nat \<Rightarrow> ('v, 'w) run" where
  "run_handler env n c =
     (case handlers c ! nat (step c) of
        None \<Rightarrow> Some (begin_handler c, Panicked ''nil handler'')
      | Some p \<Rightarrow> exec env (\<lambda>c. next_loop env n (advance c)) p (begin_handler c))"

lemma next_loop_Suc:
  "0 \<le> step c \<Longrightarrow> next_loop env (Suc n) c =
     (if step c < int (length (handlers c)) then
        case run_handler env n c of
          Some (c', Returned) \<Rightarrow> next_loop env n (advance c')
        | r \<Rightarrow> r
      else Some (c, Returned))"
  by (simp add: run_handler_def)

declare next_loop.simps(2) [simp del]

lemma next_loop_total:
  "entering c \<Longrightarrow> length (handlers c) - nat (step c) < n \<Longrightarrow>
   \<exists>c' r. next_loop env n c = Some (c', r) \<and> running c' \<and> progress c c' \<and>
     (r = Returned \<longrightarrow> int (length (handlers c)) \<le> step c')"
proof (induction n arbitrary: c)
  case (Suc n)
  have pos: "0 \<le> step c" using Suc.prems(1) by (simp add: entering_def)
  show ?case
  proof (cases "step c < int (length (handlers c))")
    case False
    then show ?thesis
      using Suc.prems(1) pos by (auto simp: next_loop_Suc entering_def running_def min_def intro!: arg_cong2 [where f = upt])
  next
    case True
    note run = running_begin [OF Suc.prems(1) True]
    have nested: "ends_from (\<lambda>d. next_loop env n (advance d)) d"
      if ready: "ready (step c) (handlers c) d" for d
    proof -
      have "length (handlers (advance d)) - nat (step (advance d)) < n"
        using that pos True Suc.prems(2) unfolding ready_def by simp linarith
      from Suc.IH [OF entering_advance this] ready show ?thesis unfolding ready_def
        by (auto simp: ends_from_def intro: progress_trans [OF progress_ops(5)])
    qed
    have "ends_from (run_handler env n) c"
    proof (cases "handlers c ! nat (step c)")
      case None
      then show ?thesis using run by (simp add: run_handler_def ends_from_def progress_def)
    next
      case (Some p)
      have "ends_from (exec env (\<lambda>d. next_loop env n (advance d)) p) (begin_handler c)"
        by (rule exec_ends [OF nested]) (auto simp: ready_def run)
      then show ?thesis
        by (rule ends_from_after) (simp_all add: progress_def run_handler_def Some)
    qed
    then obtain c1 r where c1: "run_handler env n c = Some (c1, r)" "running c1" "progress c c1"
      by (rule ends_fromE)
    show ?thesis
    proof (cases r)
      case (Panicked m)
      then show ?thesis using c1 pos True by (simp add: next_loop_Suc)
    next
      case Returned
      have "length (handlers (advance c1)) - nat (step (advance c1)) < n"
        using c1(3) pos True Suc.prems(2) unfolding progress_def by simp linarith
      from Suc.IH [OF entering_advance [OF c1(2)] this] show ?thesis
        using c1 pos True Returned progress_trans [OF c1(3) progress_trans [OF progress_ops(5)]]
        by (auto simp: next_loop_Suc progress_def)
    qed
  qed
qed simp

section \<open>A fresh request\<close>

abbreviation fresh ::
  "go_error option \<Rightarrow> uint64 option \<Rightarrow> Request \<Rightarrow> 'w \<Rightarrow> 'v prog Handler list \<Rightarrow> ('v, 'w) Context" where
  "fresh parent_err connection request w hs \<equiv> (newContext parent_err connection request w)\<lparr>handlers := hs\<rparr>"

lemma entering_fresh: "entering (advance (fresh pe conn request w hs))"
  by (simp add: entering_def newContext_def)

lemma Context_Next_total:
  assumes "step c = -1" "started (trace c) = []"
  obtains c' r where "Context_Next env c = Some (c', r)" "running c'" "progress (advance c) c'"
    "r = Returned \<Longrightarrow> int (length (handlers c)) \<le> step c'"
proof -
  have "entering (advance c)" using assms by (simp add: entering_def)
  from next_loop_total [OF this, of "Suc (length (handlers c))" env] assms show thesis
    by (auto simp: Context_Next_def intro: that)
qed

lemma fresh_Next: "Context_Next env (fresh pe conn request w hs) = next_loop env (Suc (length hs)) (advance (fresh pe conn request w hs))"
  by (simp add: Context_Next_def)

lemma fresh_simps [simp]:
  "step (fresh pe conn request w hs) = -1" "trace (fresh pe conn request w hs) = []"
  "ctx_Request (fresh pe conn request w hs) = request" "world (fresh pe conn request w hs) = w"
  by (simp_all add: newContext_def)

text \<open>The first handler of a chain, and what the loop does when it has returned.\<close>

lemma fresh_first:
  "Context_Next env (fresh pe conn request w (Some p # hs)) =
     (case exec env (\<lambda>c. next_loop env (Suc (length hs)) (advance c)) p (begin_handler (advance (fresh pe conn request w (Some p # hs)))) of
        Some (c', Returned) \<Rightarrow> next_loop env (Suc (length hs)) (advance c')
      | r \<Rightarrow> r)"
  by (simp add: fresh_Next next_loop_Suc run_handler_def del: fun_upd_apply)

lemma ready_first: "ready 0 (Some p # hs) (begin_handler (advance (fresh pe conn request w (Some p # hs))))"
  by (simp add: ready_def running_def newContext_def)

lemma nested_Next:
  assumes "ready 0 (p # hs) c"
  obtains c' r where "next_loop env (Suc (length hs)) (advance c) = Some (c', r)" "running c'"
    "progress (advance c) c'" "r = Returned \<Longrightarrow> int (Suc (length hs)) \<le> step c'"
proof -
  have "entering (advance c)" "length (handlers (advance c)) - nat (step (advance c)) < Suc (length hs)"
    using assms entering_advance by (auto simp: ready_def)
  from next_loop_total [OF this, of env] show thesis
    using assms by (auto simp: ready_def intro: that)
qed

lemma next_loop_end: "int (length (handlers c)) \<le> step c \<Longrightarrow> next_loop env (Suc n) c = Some (c, Returned)"
  by (simp add: next_loop_Suc)

lemma nested_ends: "ready 0 (p # hs) c \<Longrightarrow> ends_from (\<lambda>c. next_loop env (Suc (length hs)) (advance c)) c"
  by (erule nested_Next [of p hs c env]) (auto simp: ends_from_def intro: progress_trans [OF progress_ops(5)])

text \<open>\<open>Recovery\<close> never panics; it replies when what it called did.\<close>

lemma exec_Recovery:
  "exec env nxt (Recovery tr) c =
     (case nxt c of
        Some (c', Panicked m) \<Rightarrow> Some (snd (do_send env 500 (bytes_of ''Server Error'') (do_print env LogWriter (tr m) c')), Returned)
      | r \<Rightarrow> r)"
  by (simp add: Recovery_def split: option.split result.split)

lemma do_print_fields [simp]:
  "trace (do_print env out text c) = trace c @ [Printed out text]" "step (do_print env out text c) = step c"
  "handlers (do_print env out text c) = handlers c"
  by (simp_all add: do_print_def)

lemma do_send_fields [simp]:
  "trace (snd (do_send env event body c)) = trace c @ [Sent event body]"
  "step (snd (do_send env event body c)) = step c" "handlers (snd (do_send env event body c)) = handlers c"
  by (simp_all add: do_send_def case_prod_beta)

text \<open>An environment and a request for concrete runs: the world counts the messages sent.\<close>

abbreviation counting_env :: "nat handler_env" where
  "counting_env \<equiv> \<lparr>env_send = (\<lambda>event body w. (None, Suc w)), env_now = (\<lambda>w. (7, w)), env_print = (\<lambda>_ _ w. w)\<rparr>"

abbreviation sample_request :: Request where
  "sample_request \<equiv> newRequest \<lparr>Event = 1, Body = [], BodySize = 0\<rparr>"

section \<open>Properties of the chain\<close>

text \<open>
  C24. The handler chain ends and runs in order. For every chain, whatever its handlers do
  (call \<open>Next\<close> or not, once or several times, panic, recover), \<open>Next\<close> on a fresh request
  ends; the handlers started are the first \<open>k\<close> of the chain, each once and in order; and if
  the chain returns without a panic, every handler has been started.\<close>

theorem handler_chain_order:
  "\<exists>c' r k. Context_Next env (fresh parent_err connection request w hs) = Some (c', r) \<and>
     started (trace c') = [0..<k] \<and> k \<le> length hs \<and> (r = Returned \<longrightarrow> k = length hs)"
proof -
  obtain c' r where c': "Context_Next env (fresh parent_err connection request w hs) = Some (c', r)" "running c'"
    "progress (advance (fresh parent_err connection request w hs)) c'" "r = Returned \<longrightarrow> int (length hs) \<le> step c'"
    using Context_Next_total [where c = "fresh parent_err connection request w hs" and env = env] by auto
  then have "handlers c' = hs" by (simp add: progress_def)
  with c' show ?thesis
    by (intro exI [of _ c'] exI [of _ r] exI [of _ "min (Suc (nat (step c'))) (length hs)"])
      (auto simp: running_def)
qed

theorem handler_chain_order_witness:
  "\<exists>c'. Context_Next counting_env (fresh None (Some 1) sample_request 0 [Some (CallNext Return), Some Return, Some notFoundHandler] :: (nat, nat) Context) =
       Some (c', Returned) \<and> started (trace c') = [0, 1, 2]"
proof -
  let ?hs = "[Some (CallNext Return), Some Return, Some notFoundHandler] :: nat prog Handler list"
  obtain c' where "Context_Next counting_env (fresh None (Some 1) sample_request 0 ?hs) = Some (c', Returned)"
    by (simp add: notFoundHandler_def Context_Next_def next_loop_Suc run_handler_def numeral_eq_Suc do_send_def newContext_def)
  with handler_chain_order [where env = counting_env and parent_err = None and connection = "Some 1" and request = sample_request and w = 0 and hs = ?hs] show ?thesis
    by (auto simp: upt_rec)
qed





text \<open>
  The logger as the first handler writes its line last: a chain that returns has printed,
  as the very last of its events, the formatter's text for this request, with the time between
  two readings of the clock as its latency.\<close>

lemma logger_prints_last:
  assumes "Context_Next env (fresh parent_err connection request w (Some (LoggerWithConfig render config) # hs)) = Some (c', Returned)"
  shows "\<exists>start stop. last (trace c') = Printed (case Writer config of None \<Rightarrow> DefaultWriter | Some out \<Rightarrow> out)
     ((case Formatter config of None \<Rightarrow> defaultLogFormatter render | Some formatter \<Rightarrow> formatter)
        \<lparr>LFP_Connection = connection, LFP_Request = request, TimeStamp = stop, Latency = stop - start\<rparr>)"
proof -
  let ?L = "LoggerWithConfig render config :: 'a prog"
  let ?c = "begin_handler (advance (fresh parent_err connection request w (Some ?L # hs)))"
  let ?nxt = "\<lambda>c. next_loop env (Suc (length hs)) (advance c)"
  let ?out = "case Writer config of None \<Rightarrow> DefaultWriter | Some out \<Rightarrow> out"
  let ?fmt = "case Formatter config of None \<Rightarrow> defaultLogFormatter render | Some formatter \<Rightarrow> formatter"
  let ?start = "do_now env ?c"
  have "ready 0 (Some ?L # hs) (snd ?start)" using ready_first by (simp only: ready_ops)
  then obtain c1 r1 where c1: "?nxt (snd ?start) = Some (c1, r1)" "running c1" "progress (advance (snd ?start)) c1"
    "r1 = Returned \<Longrightarrow> int (Suc (length hs)) \<le> step c1"
    using nested_Next by metis
  have r1: "r1 = Returned"
    using assms c1(1) by (cases r1) (simp_all add: fresh_first LoggerWithConfig_def Let_def)
  let ?stop = "do_now env c1"
  let ?line = "?fmt \<lparr>LFP_Connection = ctx_Connection c1, LFP_Request = ctx_Request c1, TimeStamp = fst ?stop, Latency = fst ?stop - fst ?start\<rparr>"
  have "exec env ?nxt ?L ?c = Some (do_print env ?out ?line (snd ?stop), Returned)"
    using c1(1) r1 by (simp add: LoggerWithConfig_def Let_def)
  then have "?nxt (do_print env ?out ?line (snd ?stop)) = Some (c', Returned)"
    using assms by (simp add: fresh_first)
  moreover have "int (length (handlers (snd ?stop))) \<le> step (snd ?stop)"
    using c1(3) c1(4) [OF r1] by (simp add: progress_def do_now_def case_prod_beta newContext_def)
  ultimately have "c' = advance (do_print env ?out ?line (snd ?stop))"
    by (simp add: next_loop_end do_print_def)
  moreover have "ctx_Request c1 = request" "ctx_Connection c1 = connection"
    using c1(3) by (simp_all add: progress_def do_now_def case_prod_beta newContext_def)
  ultimately show ?thesis by (auto simp: do_print_def)
qed

end
