(* ===== verification/Worker_Pool.thy ===== *)
theory Worker_Pool
  imports Handlers
begin

text \<open>
  The worker pool, \<open>src/worker_pool.go\<close> and \<open>src/worker.go\<close>: a fixed number of workers with
  bounded queues, each connection served by one of them, and the two ways to stop the pool.

  The pool is a state machine. The methods are functions on its state; what the goroutines do
  on their own (a worker receives a task, runs it, leaves its loop; the goroutine started by
  the drain sees the last worker end) are functions as well, and a run is any sequence of
  them. \<open>submit\<close> is one step: it holds the submit lock, and before its task is in the channel
  only \<open>forceCancel\<close> could see it.
\<close>

section \<open>State\<close>

datatype workerPoolState =
  workerPoolStateNew | workerPoolStateStarted | workerPoolStateStopping | workerPoolStateStopped

text \<open>
  A worker: the channel \<open>tasks\<close> (its buffer, oldest first, and whether it is closed), the task
  it is working on, and the channel \<open>done\<close>. Tasks are addresses of contexts.
\<close>

record worker =
  queue :: "nat list"
  chan_closed :: bool
  current :: "nat option"
  loop_started :: bool
  loop_done :: bool

text \<open>
  \<open>contexts\<close> is the store of request contexts. \<open>drain_fired\<close> is \<open>drainOnce\<close>; \<open>draining\<close>
  says that the goroutine of the drain waits for the workers; \<open>crashed\<close> that a panic left a
  worker and ended the process. \<open>accepted\<close> and \<open>received\<close> are history: the tasks put into a
  queue and taken out of one, in order.
\<close>

record ('v, 'w) workerPool =
  contexts :: "('v, 'w) Context list"
  workers :: "worker list"
  capacity :: nat
  accepting :: bool
  pool_state :: workerPoolState
  tasks :: "nat set"
  drain_fired :: bool
  draining :: bool
  pool_done :: bool
  metrics :: serverMetrics
  crashed :: bool
  accepted :: "nat list"
  received :: "nat list"

definition newWorker :: worker where
  "newWorker = \<lparr>queue = [], chan_closed = False, current = None, loop_started = False, loop_done = False\<rparr>"

definition newWorkerPool :: "uint32 \<Rightarrow> uint32 \<Rightarrow> ('e, ('v, 'w) workerPool) outcome" where
  "newWorkerPool n_workers q_size =
     (if n_workers = 0 then Panic
      else if q_size = 0 then Panic
      else Ok \<lparr>contexts = [], workers = replicate (unat n_workers) newWorker, capacity = unat q_size,
        accepting = False, pool_state = workerPoolStateNew, tasks = {}, drain_fired = False,
        draining = False, pool_done = False, metrics = zeroServerMetrics, crashed = False,
        accepted = [], received = []\<rparr>)"

section \<open>Operations\<close>

text \<open>Starting a worker starts its goroutine; the loop of the goroutine is below.\<close>

definition worker_start :: "worker \<Rightarrow> worker" where
  [simp]: "worker_start w = w\<lparr>loop_started := True\<rparr>"

definition pool_start :: "('v, 'w) workerPool \<Rightarrow> ('v, 'w) workerPool" where
  "pool_start p =
     (if pool_state p \<noteq> workerPoolStateNew then p
      else p\<lparr>pool_state := workerPoolStateStarted, accepting := True,
             workers := map worker_start (workers p)\<rparr>)"

definition workerIndex :: "nat \<Rightarrow> ('v, 'w) Context \<Rightarrow> nat" where
  "workerIndex n c = (case ctx_Connection c of None \<Rightarrow> 0 | Some cid \<Rightarrow> unat cid mod n)"

definition register :: "nat \<Rightarrow> ('v, 'w) workerPool \<Rightarrow> ('v, 'w) workerPool" where
  "register t p = p\<lparr>tasks := insert t (tasks p)\<rparr>"

definition unregister :: "nat \<Rightarrow> ('v, 'w) workerPool \<Rightarrow> ('v, 'w) workerPool" where
  "unregister t p = p\<lparr>tasks := tasks p - {t}\<rparr>"

abbreviation ctx :: "('v, 'w) workerPool \<Rightarrow> nat \<Rightarrow> ('v, 'w) Context" where
  "ctx p t \<equiv> contexts p ! t"

definition set_worker :: "nat \<Rightarrow> (worker \<Rightarrow> worker) \<Rightarrow> ('v, 'w) workerPool \<Rightarrow> ('v, 'w) workerPool" where
  "set_worker i f p = p\<lparr>workers := (workers p)[i := f (workers p ! i)]\<rparr>"

definition set_context :: "nat \<Rightarrow> ('v, 'w) Context \<Rightarrow> ('v, 'w) workerPool \<Rightarrow> ('v, 'w) workerPool" where
  "set_context t c p = p\<lparr>contexts := (contexts p)[t := c]\<rparr>"

text \<open>The send to a closed channel panics.\<close>

datatype submit_result = Submitted | Rejected go_error | SendOnClosed

definition submit :: "nat \<Rightarrow> ('v, 'w) workerPool \<Rightarrow> submit_result \<times> ('v, 'w) workerPool" where
  "submit t p =
     (let i = workerIndex (length (workers p)) (ctx p t) in
      if \<not> accepting p then (Rejected ErrServerStopping, p)
      else
        let p1 = register t p; p2 = p1\<lparr>metrics := taskQueued (ctx p1 t) (metrics p1)\<rparr> in
        if chan_closed (workers p2 ! i) then (SendOnClosed, p2)
        else if length (queue (workers p2 ! i)) < capacity p2
        then (Submitted, (set_worker i (queue_update (\<lambda>q. q @ [t])) p2)\<lparr>accepted := accepted p2 @ [t]\<rparr>)
        else
          let p3 = p2\<lparr>metrics := taskRejected (ctx p2 t) (taskDequeued (ctx p2 t) (metrics p2))\<rparr>
          in (Rejected ErrWorkerQueueFull, unregister t p3))"

definition stopAccepting :: "('v, 'w) workerPool \<Rightarrow> ('v, 'w) workerPool" where
  "stopAccepting p = p\<lparr>accepting := False\<rparr>"

text \<open>The order of the slice that \<open>snapshotTasks\<close> returns is that of a map: none.\<close>

definition snapshotTasks :: "('v, 'w) workerPool \<Rightarrow> nat set" where
  [simp]: "snapshotTasks p = tasks p"

definition forceCancel :: "('v, 'w) workerPool \<Rightarrow> ('v, 'w) workerPool" where
  "forceCancel p = p\<lparr>contexts :=
     map (\<lambda>t. if t \<in> snapshotTasks p then cancelTask (ctx p t) else ctx p t) [0..<length (contexts p)]\<rparr>"

text \<open>\<open>doneOnce\<close> makes a second call harmless: the channel stays closed.\<close>

definition closeDone :: "('v, 'w) workerPool \<Rightarrow> ('v, 'w) workerPool" where
  [simp]: "closeDone p = p\<lparr>pool_done := True\<rparr>"

text \<open>The body that \<open>drainOnce\<close> guards.\<close>

definition drain_begin :: "('v, 'w) workerPool \<Rightarrow> ('v, 'w) workerPool" where
  "drain_begin p =
     (if drain_fired p then p
      else
        let p1 = p\<lparr>drain_fired := True, accepting := False\<rparr> in
        case pool_state p1 of
          workerPoolStateNew \<Rightarrow> closeDone (p1\<lparr>pool_state := workerPoolStateStopped\<rparr>)
        | workerPoolStateStarted \<Rightarrow>
            p1\<lparr>pool_state := workerPoolStateStopping, draining := True,
               workers := map (chan_closed_update (\<lambda>_. True)) (workers p1)\<rparr>
        | _ \<Rightarrow> p1)"

text \<open>
  \<open>stopAcceptingAndDrain\<close>: the guarded body, then the wait for \<open>done\<close> or the context's error.
  \<open>ctx_done\<close> is that error once the context has ended; \<open>prefer_ctx\<close> is the choice of the
  \<open>select\<close> when both are ready. \<open>None\<close>: the call still waits.
\<close>

definition drain_wait ::
  "bool \<Rightarrow> go_error option \<Rightarrow> ('v, 'w) workerPool \<Rightarrow> (go_error option \<times> ('v, 'w) workerPool) option" where
  "drain_wait prefer_ctx ctx_done p =
     (case ctx_done of
        None \<Rightarrow> (if pool_done p then Some (None, p) else None)
      | Some e \<Rightarrow> (if pool_done p \<and> \<not> prefer_ctx then Some (None, p) else Some (Some e, forceCancel p)))"

definition stopAcceptingAndDrain ::
  "bool \<Rightarrow> go_error option \<Rightarrow> ('v, 'w) workerPool \<Rightarrow> (go_error option \<times> ('v, 'w) workerPool) option" where
  "stopAcceptingAndDrain prefer_ctx ctx_done p = drain_wait prefer_ctx ctx_done (drain_begin p)"

section \<open>Goroutines\<close>

text \<open>
  The loop of a worker: it receives a task, works on it, and ends when its channel is closed
  and empty. \<open>d\<close> is the time that \<open>task.Next()\<close> took. The deferred calls run on every path; a
  panic that the handlers let through then ends the process.
\<close>

definition worker_receive :: "nat \<Rightarrow> ('v, 'w) workerPool \<Rightarrow> ('v, 'w) workerPool option" where
  "worker_receive i p =
     (let w = workers p ! i in
      if i < length (workers p) \<and> loop_started w \<and> \<not> loop_done w \<and> current w = None
      then (case queue w of
              [] \<Rightarrow> None
            | t # q \<Rightarrow> Some ((set_worker i (\<lambda>w. w\<lparr>queue := q, current := Some t\<rparr>) p)
                 \<lparr>metrics := taskDequeued (ctx p t) (metrics p), received := received p @ [t]\<rparr>))
      else None)"

definition worker_run ::
  "'w handler_env \<Rightarrow> duration \<Rightarrow> nat \<Rightarrow> ('v, 'w) workerPool \<Rightarrow> ('v, 'w) workerPool option" where
  "worker_run env d i p =
     (if i < length (workers p) then
        case current (workers p ! i) of
          None \<Rightarrow> None
        | Some t \<Rightarrow>
            map_option (\<lambda>p'. set_worker i (\<lambda>w. w\<lparr>current := None\<rparr>)
                (set_context t (finish (ctx p' t)) (unregister t p')))
              (if ctx_err (ctx p t) \<noteq> None then Some p
               else case Context_Next env (ctx p t) of
                      None \<Rightarrow> None
                    | Some (c, Returned) \<Rightarrow>
                        Some ((set_context t c p)\<lparr>metrics := requestCompleted d c (metrics p)\<rparr>)
                    | Some (c, Panicked m) \<Rightarrow> Some ((set_context t c p)\<lparr>crashed := True\<rparr>))
      else None)"

definition worker_exit :: "nat \<Rightarrow> ('v, 'w) workerPool \<Rightarrow> ('v, 'w) workerPool option" where
  "worker_exit i p =
     (let w = workers p ! i in
      if i < length (workers p) \<and> loop_started w \<and> \<not> loop_done w \<and> current w = None \<and> queue w = [] \<and> chan_closed w
      then Some (set_worker i (loop_done_update (\<lambda>_. True)) p) else None)"

text \<open>The goroutine of the drain, when every worker has ended; then \<open>closeDone\<close>.\<close>

definition drain_finish :: "('v, 'w) workerPool \<Rightarrow> ('v, 'w) workerPool option" where
  "drain_finish p =
     (if draining p \<and> (\<forall>w\<in>set (workers p). loop_done w)
      then Some (closeDone (p\<lparr>pool_state := workerPoolStateStopped, draining := False\<rparr>)) else None)"

section \<open>Runs\<close>

text \<open>
  \<open>PSubmit c\<close> is a call of \<open>submit\<close> with a new context, as \<open>handleRequest\<close> makes it;
  \<open>PCancel t\<close> is the cancellation of a context through its parent. \<open>PFinish t\<close> is the call of
  \<open>finish\<close> that \<open>handleRequest\<close> makes for a request that was refused.
\<close>

datatype ('v, 'w) pool_event =
    PStart
  | PSubmit "('v, 'w) Context"
  | PStopAccepting
  | PForceCancel
  | PDrain
  | PCancel nat
  | PFinish nat
  | PReceive nat
  | PRun duration nat
  | PExit nat
  | PDrainFinish

fun pool_exec ::
  "'w handler_env \<Rightarrow> ('v, 'w) pool_event \<Rightarrow> ('v, 'w) workerPool \<Rightarrow> (submit_result option \<times> ('v, 'w) workerPool) option" where
  "pool_exec env PStart p = Some (None, pool_start p)"
| "pool_exec env (PSubmit c) p =
     (if step c = -1 \<and> trace c = []
      then Some (apfst Some (submit (length (contexts p)) (p\<lparr>contexts := contexts p @ [c]\<rparr>))) else None)"
| "pool_exec env PStopAccepting p = Some (None, stopAccepting p)"
| "pool_exec env PForceCancel p = Some (None, forceCancel p)"
| "pool_exec env PDrain p = Some (None, drain_begin p)"
| "pool_exec env (PCancel t) p =
     (if t < length (contexts p) then Some (None, set_context t (cancelTask (ctx p t)) p) else None)"
| "pool_exec env (PFinish t) p =
     (if t < length (contexts p) \<and> t \<notin> tasks p then Some (None, set_context t (finish (ctx p t)) p) else None)"
| "pool_exec env (PReceive i) p = map_option (Pair None) (worker_receive i p)"
| "pool_exec env (PRun d i) p = map_option (Pair None) (worker_run env d i p)"
| "pool_exec env (PExit i) p = map_option (Pair None) (worker_exit i p)"
| "pool_exec env PDrainFinish p = map_option (Pair None) (drain_finish p)"

inductive pool_reachable ::
  "'w handler_env \<Rightarrow> uint32 \<Rightarrow> uint32 \<Rightarrow> ('v, 'w) workerPool \<Rightarrow> bool"
  for env n_workers q_size where
  start: "newWorkerPool n_workers q_size = (Ok p :: (go_error, ('v, 'w) workerPool) outcome) \<Longrightarrow>
    pool_reachable env n_workers q_size p"
| event: "pool_reachable env n_workers q_size p \<Longrightarrow> \<not> crashed p \<Longrightarrow> pool_exec env ev p = Some (r, p') \<Longrightarrow>
    pool_reachable env n_workers q_size p'"

section \<open>The life of the pool\<close>

text \<open>
  Which flags go together. A pool that accepts tasks is started and has open channels, so
  \<open>submit\<close> never sends on a closed channel; a stopped pool has nothing left to do.
\<close>

definition worker_life :: "workerPoolState \<Rightarrow> worker \<Rightarrow> bool" where
  "worker_life st w = (case st of
      workerPoolStateNew \<Rightarrow> queue w = [] \<and> current w = None \<and> \<not> chan_closed w \<and> \<not> loop_started w \<and> \<not> loop_done w
    | workerPoolStateStarted \<Rightarrow> loop_started w \<and> \<not> chan_closed w \<and> \<not> loop_done w
    | workerPoolStateStopping \<Rightarrow> loop_started w \<and> chan_closed w \<and> (loop_done w \<longrightarrow> queue w = [] \<and> current w = None)
    | workerPoolStateStopped \<Rightarrow> queue w = [] \<and> current w = None)"

definition inv_life :: "('v, 'w) workerPool \<Rightarrow> bool" where
  "inv_life p \<longleftrightarrow> (\<forall>w\<in>set (workers p). worker_life (pool_state p) w) \<and>
     (accepting p \<longrightarrow> pool_state p = workerPoolStateStarted) \<and>
     (drain_fired p \<longleftrightarrow> pool_state p \<in> {workerPoolStateStopping, workerPoolStateStopped}) \<and>
     (draining p \<longleftrightarrow> pool_state p = workerPoolStateStopping) \<and>
     (pool_done p \<longleftrightarrow> pool_state p = workerPoolStateStopped)"

lemmas worker_life_simps = worker_life_def [of workerPoolStateNew, simplified]
  worker_life_def [of workerPoolStateStarted, simplified] worker_life_def [of workerPoolStateStopping, simplified]
  worker_life_def [of workerPoolStateStopped, simplified]

lemma inv_life_worker: "inv_life p \<Longrightarrow> i < length (workers p) \<Longrightarrow> worker_life (pool_state p) (workers p ! i)"
  by (simp add: inv_life_def)

lemma inv_life_set_worker:
  "inv_life p \<Longrightarrow> worker_life (pool_state p) (f (workers p ! i)) \<Longrightarrow> inv_life (set_worker i f p)"
  by (auto simp: inv_life_def set_worker_def dest!: set_update_subset_insert [THEN subsetD])

lemma inv_life_frame:
  "inv_life p \<Longrightarrow> workers p' = workers p \<Longrightarrow> accepting p' = accepting p \<Longrightarrow> pool_state p' = pool_state p \<Longrightarrow>
   drain_fired p' = drain_fired p \<Longrightarrow> draining p' = draining p \<Longrightarrow> pool_done p' = pool_done p \<Longrightarrow> inv_life p'"
  by (simp add: inv_life_def)

text \<open>What each event does, in the form the invariants use.\<close>

lemma workerIndex_less: "0 < n \<Longrightarrow> workerIndex n c < n"
  by (auto simp: workerIndex_def split: option.split)

lemma submit_cases:
  assumes "submit t p = (r, p')" "inv_life p" "0 < length (workers p)"
    and "i = workerIndex (length (workers p)) (ctx p t)"
  obtains "\<not> accepting p" "r = Rejected ErrServerStopping" "p' = p"
  | "accepting p" "r = Submitted" "i < length (workers p)" "length (queue (workers p ! i)) < capacity p"
      "p' = p\<lparr>tasks := insert t (tasks p), metrics := taskQueued (ctx p t) (metrics p),
         workers := (workers p)[i := queue_update (\<lambda>q. q @ [t]) (workers p ! i)], accepted := accepted p @ [t]\<rparr>"
  | "accepting p" "r = Rejected ErrWorkerQueueFull" "i < length (workers p)" "capacity p \<le> length (queue (workers p ! i))"
      "p' = p\<lparr>tasks := insert t (tasks p) - {t},
         metrics := taskRejected (ctx p t) (taskDequeued (ctx p t) (taskQueued (ctx p t) (metrics p)))\<rparr>"
proof (cases "accepting p")
  case True
  have i: "i < length (workers p)" using assms(3,4) workerIndex_less by blast
  then have "\<not> chan_closed (workers p ! i)"
    using True inv_life_worker [OF assms(2) i] assms(2) by (simp add: inv_life_def worker_life_simps)
  then have "submit t p = (if length (queue (workers p ! i)) < capacity p
      then (Submitted, p\<lparr>tasks := insert t (tasks p), metrics := taskQueued (ctx p t) (metrics p),
         workers := (workers p)[i := queue_update (\<lambda>q. q @ [t]) (workers p ! i)], accepted := accepted p @ [t]\<rparr>)
      else (Rejected ErrWorkerQueueFull, p\<lparr>tasks := insert t (tasks p) - {t},
         metrics := taskRejected (ctx p t) (taskDequeued (ctx p t) (taskQueued (ctx p t) (metrics p)))\<rparr>))"
    using True unfolding assms(4) by (simp add: submit_def register_def unregister_def set_worker_def Let_def)
  with assms(1) True i show thesis
    by (cases "length (queue (workers p ! i)) < capacity p") (auto intro: that(2,3))
next
  case False
  then have "r = Rejected ErrServerStopping" "p' = p" using assms(1) by (simp_all add: submit_def)
  with False show thesis by (rule that(1))
qed

lemma receive_cases:
  assumes "worker_receive i p = Some p'"
  obtains t q where "i < length (workers p)" "loop_started (workers p ! i)" "\<not> loop_done (workers p ! i)"
    "current (workers p ! i) = None" "queue (workers p ! i) = t # q"
    "p' = p\<lparr>workers := (workers p)[i := (workers p ! i)\<lparr>queue := q, current := Some t\<rparr>],
       metrics := taskDequeued (ctx p t) (metrics p), received := received p @ [t]\<rparr>"
  using assms by (auto simp: worker_receive_def Let_def set_worker_def split: if_splits list.splits)

lemma finish_update [simp]: "xs[t := finish (xs[t := c] ! t)] = xs[t := finish c]"
  by (cases "t < length xs") (simp_all add: list_update_beyond)

lemma run_cases:
  assumes "worker_run env d i p = Some p'"
  obtains t c m b where "i < length (workers p)" "current (workers p ! i) = Some t"
    "p' = p\<lparr>contexts := (contexts p)[t := finish c], tasks := tasks p - {t}, metrics := m, crashed := b,
       workers := (workers p)[i := (workers p ! i)\<lparr>current := None\<rparr>]\<rparr>"
    "ctx_err (ctx p t) \<noteq> None \<Longrightarrow> c = ctx p t \<and> m = metrics p \<and> b = crashed p"
    "ctx_err (ctx p t) = None \<Longrightarrow> Context_Next env (ctx p t) = Some (c, Returned) \<and>
        m = requestCompleted d c (metrics p) \<and> b = crashed p \<or>
      (\<exists>msg. Context_Next env (ctx p t) = Some (c, Panicked msg)) \<and> m = metrics p \<and> b"
proof -
  obtain t where i: "i < length (workers p)" "current (workers p ! i) = Some t"
    using assms by (auto simp: worker_run_def split: if_splits option.splits)
  show thesis
  proof (cases "ctx_err (ctx p t)")
    case (Some e)
    then show thesis
      using assms i
      by (intro that [where t = t and c = "ctx p t" and m = "metrics p" and b = "crashed p"])
        (auto simp: worker_run_def set_context_def set_worker_def unregister_def)
  next
    case None
    then obtain c r where c: "Context_Next env (ctx p t) = Some (c, r)"
      using assms i by (auto simp: worker_run_def split: option.splits)
    show thesis
    proof (cases r)
      case Returned
      then show thesis
        using assms i c None
        by (intro that [where t = t and c = c and m = "requestCompleted d c (metrics p)" and b = "crashed p"])
          (auto simp: worker_run_def set_context_def set_worker_def unregister_def)
    next
      case (Panicked msg)
      then show thesis
        using assms i c None
        by (intro that [where t = t and c = c and m = "metrics p" and b = True])
          (auto simp: worker_run_def set_context_def set_worker_def unregister_def)
    qed
  qed
qed


lemma exit_cases:
  assumes "worker_exit i p = Some p'"
  obtains "i < length (workers p)" "loop_started (workers p ! i)" "\<not> loop_done (workers p ! i)"
    "current (workers p ! i) = None" "queue (workers p ! i) = []" "chan_closed (workers p ! i)"
    "p' = p\<lparr>workers := (workers p)[i := (workers p ! i)\<lparr>loop_done := True\<rparr>]\<rparr>"
  using assms by (auto simp: worker_exit_def Let_def set_worker_def split: if_splits)

lemma psubmit_cases:
  assumes "pool_exec env (PSubmit c) p = Some (r, p')" "inv_life p" "0 < length (workers p)"
    and "i = workerIndex (length (workers p)) c" "t = length (contexts p)"
  obtains (stopping) "step c = -1" "trace c = []" "\<not> accepting p" "r = Some (Rejected ErrServerStopping)"
      "p' = p\<lparr>contexts := contexts p @ [c]\<rparr>"
  | (queued) "step c = -1" "trace c = []" "accepting p" "r = Some Submitted" "i < length (workers p)"
      "length (queue (workers p ! i)) < capacity p"
      "p' = p\<lparr>contexts := contexts p @ [c], tasks := insert t (tasks p), metrics := taskQueued c (metrics p),
         workers := (workers p)[i := queue_update (\<lambda>q. q @ [t]) (workers p ! i)], accepted := accepted p @ [t]\<rparr>"
  | (full) "step c = -1" "trace c = []" "accepting p" "r = Some (Rejected ErrWorkerQueueFull)" "i < length (workers p)"
      "capacity p \<le> length (queue (workers p ! i))"
      "p' = p\<lparr>contexts := contexts p @ [c], tasks := insert t (tasks p) - {t},
         metrics := taskRejected c (taskDequeued c (taskQueued c (metrics p)))\<rparr>"
proof -
  let ?p = "p\<lparr>contexts := contexts p @ [c]\<rparr>"
  obtain r' where r: "r = Some r'" and c: "step c = -1" "trace c = []" and sub: "submit t ?p = (r', p')"
    using assms(1,5) by (auto split: if_splits simp: apfst_def map_prod_def case_prod_beta)
  have inv: "inv_life ?p" by (rule inv_life_frame [OF assms(2)]) simp_all
  have i: "i = workerIndex (length (workers ?p)) (ctx ?p t)" using assms(4,5) by simp
  have pos: "0 < length (workers ?p)" and t: "ctx ?p t = c" using assms(3,5) by simp_all
  from sub inv pos i show thesis
  proof (cases rule: submit_cases)
    case 1
    then show thesis using r c by (intro stopping) simp_all
  next
    case 2
    then show thesis using r c t by (intro queued) simp_all
  next
    case 3
    then show thesis using r c t by (intro full) simp_all
  qed
qed

lemma inv_life_update:
  assumes "inv_life p" "workers p' = (workers p)[i := w]" "worker_life (pool_state p) w"
    and "accepting p' = accepting p" "pool_state p' = pool_state p" "drain_fired p' = drain_fired p"
      "draining p' = draining p" "pool_done p' = pool_done p"
  shows "inv_life p'"
  using assms by (auto simp: inv_life_def dest!: set_update_subset_insert [THEN subsetD])

lemma inv_life_submit:
  assumes inv: "inv_life p" and pos: "0 < length (workers p)" and ev: "pool_exec env (PSubmit c) p = Some (r, p')"
  shows "inv_life p'"
  using ev inv pos HOL.refl HOL.refl
proof (cases rule: psubmit_cases)
  case queued
  have "worker_life (pool_state p) (queue_update (\<lambda>q. q @ [length (contexts p)]) (workers p ! workerIndex (length (workers p)) c))"
    using inv queued(3) inv_life_worker [OF inv queued(5)] by (simp add: inv_life_def worker_life_simps)
  then show ?thesis using queued(7) by (intro inv_life_update [OF inv]) simp_all
qed (use inv in \<open>auto simp: inv_life_def\<close>)

lemma inv_life_work:
  assumes inv: "inv_life p"
  shows "worker_receive i p = Some p' \<Longrightarrow> inv_life p'" "worker_run env d i p = Some p' \<Longrightarrow> inv_life p'"
    "worker_exit i p = Some p' \<Longrightarrow> inv_life p'"
proof -
  assume "worker_receive i p = Some p'"
  then show "inv_life p'"
  proof (cases rule: receive_cases)
    case (1 t q)
    have "worker_life (pool_state p) ((workers p ! i)\<lparr>queue := q, current := Some t\<rparr>)"
      using inv_life_worker [OF inv 1(1)] 1 by (cases "pool_state p") (simp_all add: worker_life_simps)
    then show ?thesis using 1(6) by (intro inv_life_update [OF inv]) simp_all
  qed
next
  assume "worker_run env d i p = Some p'"
  then show "inv_life p'"
  proof (cases rule: run_cases)
    case (1 t c m b)
    have "worker_life (pool_state p) ((workers p ! i)\<lparr>current := None\<rparr>)"
      using inv_life_worker [OF inv 1(1)] by (cases "pool_state p") (simp_all add: worker_life_simps)
    then show ?thesis using 1(3) by (intro inv_life_update [OF inv]) simp_all
  qed
next
  assume "worker_exit i p = Some p'"
  then show "inv_life p'"
  proof (cases rule: exit_cases)
    case 1
    have "worker_life (pool_state p) ((workers p ! i)\<lparr>loop_done := True\<rparr>)"
      using inv_life_worker [OF inv 1(1)] 1 by (cases "pool_state p") (simp_all add: worker_life_simps)
    then show ?thesis using 1(7) by (intro inv_life_update [OF inv]) simp_all
  qed
qed

lemma inv_life_event:
  assumes inv: "inv_life p" and pos: "0 < length (workers p)" and ev: "pool_exec env ev p = Some (r, p')"
  shows "inv_life p'"
proof (cases ev)
  case PStart
  then show ?thesis
    using inv ev by (cases "pool_state p") (auto simp: pool_start_def inv_life_def worker_life_simps)
next
  case PDrain
  then show ?thesis
    using inv ev by (cases "pool_state p") (auto simp: drain_begin_def inv_life_def worker_life_simps)
next
  case PDrainFinish
  then show ?thesis
    using inv ev by (auto simp: drain_finish_def inv_life_def worker_life_simps split: if_splits)
next
  case (PSubmit c)
  then show ?thesis using inv_life_submit [OF inv pos] ev by blast
qed (use ev in \<open>auto intro: inv_life_work [OF inv] inv_life_frame [OF inv] simp: set_context_def forceCancel_def split: if_splits\<close>,
    use inv ev in \<open>simp add: stopAccepting_def inv_life_def\<close>)

section \<open>Where the tasks are\<close>

text \<open>
  A worker holds the task it works on and those in its queue. Every task held is registered,
  is held by the worker of its connection, and has not run yet.
\<close>

definition held :: "worker \<Rightarrow> nat list" where
  "held w = (case current w of None \<Rightarrow> [] | Some t \<Rightarrow> [t]) @ queue w"

definition placed :: "('v, 'w) workerPool \<Rightarrow> nat \<Rightarrow> nat \<Rightarrow> bool" where
  "placed p i t \<longleftrightarrow> i < length (workers p) \<and> t \<in> set (held (workers p ! i))"

definition static :: "('v, 'w) Context \<Rightarrow> (uint64 option \<times> Request \<times> 'v prog Handler list) \<times> bool \<times> Transport" where
  "static c = ((ctx_Connection c, ctx_Request c, handlers c), has_metrics c, metricTransport c)"

definition waiting :: "('v, 'w) Context \<Rightarrow> bool" where
  "waiting c \<longleftrightarrow> step c = -1 \<and> trace c = []"

definition inv_tasks :: "('v, 'w) workerPool \<Rightarrow> bool" where
  "inv_tasks p \<longleftrightarrow>
     (\<forall>i t. placed p i t \<longrightarrow> t < length (contexts p) \<and> workerIndex (length (workers p)) (ctx p t) = i \<and> waiting (ctx p t)) \<and>
     (\<forall>i<length (workers p). distinct (held (workers p ! i)) \<and> length (queue (workers p ! i)) \<le> capacity p) \<and>
     tasks p = {t. \<exists>i. placed p i t}"

lemma held_flags [simp]:
  "held (w\<lparr>chan_closed := b\<rparr>) = held w" "held (w\<lparr>loop_started := b\<rparr>) = held w" "held (w\<lparr>loop_done := b\<rparr>) = held w"
  by (simp_all add: held_def)

lemma cancel_static [simp]:
  "static (cancelTask c) = static c" "waiting (cancelTask c) = waiting c" "static (finish c) = static c"
  by (simp_all add: static_def waiting_def cancelTask_def finish_def)

lemma workerIndex_static: "static c = static c' \<Longrightarrow> workerIndex n c = workerIndex n c'"
  by (simp add: static_def workerIndex_def)

lemma Next_static:
  assumes "waiting c" "Context_Next env c = Some (c', r)"
  shows "static c' = static c"
proof -
  from assms(1) have "step c = -1" "started (trace c) = []" by (simp_all add: waiting_def)
  then show ?thesis
    by (rule Context_Next_total [where env = env]) (use assms(2) in \<open>simp add: progress_def static_def\<close>)
qed

text \<open>The contexts change only in ways that matter to nobody else.\<close>

lemma inv_tasks_frame:
  assumes "inv_tasks p" "length (contexts p) \<le> length (contexts p')"
    and "length (workers p') = length (workers p)" "capacity p' = capacity p"
    and "\<And>i. i < length (workers p) \<Longrightarrow> held (workers p' ! i) = held (workers p ! i) \<and>
            length (queue (workers p' ! i)) \<le> length (queue (workers p ! i))"
    and "\<And>i t. placed p i t \<Longrightarrow> static (ctx p' t) = static (ctx p t) \<and> waiting (ctx p' t)"
    and "tasks p' = tasks p"
  shows "inv_tasks p'"
proof -
  have placed: "placed p' i t = placed p i t" for i t
    using assms(3,5) by (auto simp: placed_def)
  have "t < length (contexts p') \<and> workerIndex (length (workers p')) (ctx p' t) = i \<and> waiting (ctx p' t)"
    if "placed p i t" for i t
    using assms(1-3) assms(6) [OF that] workerIndex_static that by (fastforce simp: inv_tasks_def)
  moreover have "distinct (held (workers p' ! i)) \<and> length (queue (workers p' ! i)) \<le> capacity p'"
    if "i < length (workers p')" for i
    using assms(1,3,4) assms(5) [of i] that by (auto simp: inv_tasks_def)
  moreover have "tasks p' = {t. \<exists>i. placed p i t}" using assms(1,7) by (simp add: inv_tasks_def)
  ultimately show ?thesis unfolding inv_tasks_def placed by blast
qed

lemma run_static:
  assumes "inv_tasks p" "placed p i t"
    and "ctx_err (ctx p t) \<noteq> None \<Longrightarrow> c = ctx p t"
    and "ctx_err (ctx p t) = None \<Longrightarrow> \<exists>r. Context_Next env (ctx p t) = Some (c, r)"
  shows "static (finish c) = static (ctx p t)"
proof (cases "ctx_err (ctx p t)")
  case None
  moreover have "waiting (ctx p t)" using assms(1,2) by (simp add: inv_tasks_def)
  ultimately show ?thesis using assms(4) Next_static by fastforce
qed (use assms(3) in simp)

lemma inv_tasks_submit:
  assumes inv: "inv_tasks p" and life: "inv_life p" and pos: "0 < length (workers p)"
    and ev: "pool_exec env (PSubmit c) p = Some (r, p')"
  shows "inv_tasks p'"
  using ev life pos HOL.refl HOL.refl
proof (cases rule: psubmit_cases)
  case stopping
  show ?thesis
    by (rule inv_tasks_frame [OF inv]) (use inv in \<open>auto simp: stopping nth_append inv_tasks_def\<close>)
next
  case full
  have "length (contexts p) \<notin> tasks p" using inv by (auto simp: inv_tasks_def)
  then show ?thesis
    by (intro inv_tasks_frame [OF inv]) (use inv in \<open>auto simp: full nth_append inv_tasks_def\<close>)
next
  case queued
  let ?t = "length (contexts p)" and ?i = "workerIndex (length (workers p)) c"
  have new: "\<not> placed p j ?t" for j using inv by (auto simp: inv_tasks_def)
  have held: "held (workers p' ! j) = (if j = ?i then held (workers p ! j) @ [?t] else held (workers p ! j))"
    if "j < length (workers p)" for j
    using that by (auto simp: queued nth_list_update held_def)
  have len: "length (workers p') = length (workers p)" by (simp add: queued)
  have placed: "placed p' j t \<longleftrightarrow> placed p j t \<or> j = ?i \<and> t = ?t" for j t
    using held [of j] queued(5) unfolding placed_def len by (auto split: if_splits)
  have "t < length (contexts p') \<and> workerIndex (length (workers p')) (ctx p' t) = j \<and> waiting (ctx p' t)"
    if "placed p' j t" for j t
    using that inv queued(1,2) unfolding placed by (auto simp: queued(7) inv_tasks_def waiting_def nth_append)
  moreover have "distinct (held (workers p' ! j)) \<and> length (queue (workers p' ! j)) \<le> capacity p'"
    if "j < length (workers p')" for j
  proof -
    have "length (queue (workers p' ! j)) \<le> capacity p'"
      using that inv queued(5,6) by (auto simp: queued(7) nth_list_update inv_tasks_def)
    then show ?thesis using held [of j] new [of j] that inv unfolding len placed_def inv_tasks_def by auto
  qed
  moreover have "tasks p' = {t. \<exists>j. placed p' j t}"
    using inv unfolding placed by (auto simp: queued(7) inv_tasks_def)
  ultimately show ?thesis unfolding inv_tasks_def by blast
qed

lemma inv_tasks_run:
  assumes inv: "inv_tasks p" and run: "worker_run env d i p = Some p'"
  shows "inv_tasks p'"
  using run
proof (cases rule: run_cases)
  case (1 t c m b)
  have here: "placed p i t" using 1(1,2) by (simp add: placed_def held_def)
  have len: "length (workers p') = length (workers p)" by (simp add: 1(3))
  have only: "j = i" if "placed p j t" for j using inv here that unfolding inv_tasks_def by metis
  have dist: "distinct (held (workers p ! i))" using inv 1(1) by (simp add: inv_tasks_def)
  have held: "held (workers p' ! j) = (if j = i then tl (held (workers p ! j)) else held (workers p ! j))"
    if "j < length (workers p)" for j
    using that 1(2) by (auto simp: 1(3) nth_list_update held_def)
  have "set (tl (held (workers p ! i))) = set (held (workers p ! i)) - {t}"
    using 1(2) dist by (auto simp: held_def)
  then have placed: "placed p' j u \<longleftrightarrow> placed p j u \<and> u \<noteq> t" for j u
    using held [of j] only unfolding placed_def len by (auto split: if_splits)
  have "u < length (contexts p') \<and> workerIndex (length (workers p')) (ctx p' u) = j \<and> waiting (ctx p' u)"
    if "placed p' j u" for j u
    using that inv unfolding placed by (auto simp: 1(3) inv_tasks_def)
  moreover have "distinct (held (workers p' ! j)) \<and> length (queue (workers p' ! j)) \<le> capacity p'"
    if "j < length (workers p')" for j
    using held [of j] that inv unfolding len by (auto simp: 1(3) nth_list_update inv_tasks_def distinct_tl)
  moreover have "tasks p' = {u. \<exists>j. placed p' j u}"
    using inv unfolding placed by (auto simp: 1(3) inv_tasks_def)
  ultimately show ?thesis unfolding inv_tasks_def by blast
qed

lemma inv_tasks_event:
  assumes inv: "inv_tasks p" and life: "inv_life p" and pos: "0 < length (workers p)"
    and ev: "pool_exec env ev p = Some (r, p')"
  shows "inv_tasks p'"
proof (cases ev)
  case (PSubmit c)
  then show ?thesis using inv_tasks_submit inv life pos ev by simp
next
  case (PReceive i)
  then obtain "worker_receive i p = Some p'" using ev by auto
  then show ?thesis
  proof (cases rule: receive_cases)
    case (1 t q)
    show ?thesis
      by (rule inv_tasks_frame [OF inv]) (use inv 1 in \<open>auto simp: nth_list_update held_def inv_tasks_def\<close>)
  qed
next
  case (PRun d i)
  then show ?thesis using inv_tasks_run inv ev by auto
next
  case (PExit i)
  then obtain "worker_exit i p = Some p'" using ev by auto
  then show ?thesis
  proof (cases rule: exit_cases)
    case 1
    show ?thesis
      by (rule inv_tasks_frame [OF inv]) (use inv 1(1,7) in \<open>auto simp: nth_list_update inv_tasks_def\<close>)
  qed
next
  case PStart
  show ?thesis
    by (rule inv_tasks_frame [OF inv]) (use inv ev PStart in \<open>auto simp: pool_start_def inv_tasks_def split: if_splits\<close>)
next
  case PForceCancel
  show ?thesis
    by (rule inv_tasks_frame [OF inv]) (use inv ev PForceCancel in \<open>auto simp: forceCancel_def inv_tasks_def\<close>)
next
  case PDrain
  show ?thesis
    by (rule inv_tasks_frame [OF inv])
      (use inv ev PDrain in \<open>auto simp: drain_begin_def inv_tasks_def Let_def split: if_splits workerPoolState.splits\<close>)
next
  case (PCancel t)
  show ?thesis
    by (rule inv_tasks_frame [OF inv])
      (use inv ev PCancel in \<open>auto simp: set_context_def nth_list_update inv_tasks_def split: if_splits\<close>)
next
  case (PFinish t)
  show ?thesis
    by (rule inv_tasks_frame [OF inv])
      (use inv ev PFinish in \<open>auto simp: set_context_def nth_list_update inv_tasks_def split: if_splits\<close>)
next
  case PDrainFinish
  show ?thesis
    by (rule inv_tasks_frame [OF inv])
      (use inv ev PDrainFinish in \<open>auto simp: drain_finish_def inv_tasks_def split: if_splits\<close>)
next
  case PStopAccepting
  show ?thesis
    by (rule inv_tasks_frame [OF inv]) (use inv ev PStopAccepting in \<open>auto simp: stopAccepting_def inv_tasks_def\<close>)
qed

lemma event_static:
  assumes inv: "inv_tasks p" and life: "inv_life p" and pos: "0 < length (workers p)"
    and ev: "pool_exec env ev p = Some (r, p')" and t: "t < length (contexts p)"
  shows "t < length (contexts p')" and "static (ctx p' t) = static (ctx p t)"
proof -
  have "t < length (contexts p') \<and> static (ctx p' t) = static (ctx p t)"
  proof (cases ev)
    case (PSubmit c)
    from ev [unfolded PSubmit] life pos HOL.refl HOL.refl t show ?thesis
      by (cases rule: psubmit_cases) (simp_all add: nth_append)
  next
    case (PRun d i)
    then obtain "worker_run env d i p = Some p'" using ev by auto
    then show ?thesis
    proof (cases rule: run_cases)
      case (1 u c m b)
      have here: "placed p i u" using 1(1,2) by (simp add: placed_def held_def)
      then have "static (finish c) = static (ctx p u)"
        by (rule run_static [OF inv, of _ _ c env]) (use 1(4,5) in auto)
      moreover have "u < length (contexts p)" using here inv by (auto simp: inv_tasks_def)
      ultimately show ?thesis using t by (simp add: 1(3) nth_list_update)
    qed
  next
    case (PReceive i)
    then show ?thesis using ev t by (auto elim!: receive_cases)
  next
    case (PExit i)
    then show ?thesis using ev t by (auto elim!: exit_cases)
  qed (use ev t in \<open>auto simp: pool_start_def stopAccepting_def forceCancel_def drain_begin_def drain_finish_def
      set_context_def nth_list_update Let_def split: if_splits workerPoolState.splits\<close>)
  then show "t < length (contexts p')" "static (ctx p' t) = static (ctx p t)" by simp_all
qed

section \<open>Order\<close>

text \<open>The tasks of worker \<open>i\<close> among a list of tasks.\<close>

definition served :: "('v, 'w) workerPool \<Rightarrow> nat \<Rightarrow> nat list \<Rightarrow> nat list" where
  "served p i ts = filter (\<lambda>t. workerIndex (length (workers p)) (ctx p t) = i) ts"

definition inv_order :: "('v, 'w) workerPool \<Rightarrow> bool" where
  "inv_order p \<longleftrightarrow> (\<forall>t\<in>set (accepted p) \<union> set (received p). t < length (contexts p)) \<and>
     (\<forall>i<length (workers p). served p i (accepted p) = served p i (received p) @ queue (workers p ! i))"

lemma served_append [simp]: "served p i (xs @ ys) = served p i xs @ served p i ys"
  by (simp add: served_def)

lemma event_workers: "pool_exec env ev p = Some (r, p') \<Longrightarrow> inv_life p \<Longrightarrow> 0 < length (workers p) \<Longrightarrow>
    length (workers p') = length (workers p) \<and> capacity p' = capacity p"
proof (cases ev)
  case (PSubmit c)
  assume ev: "pool_exec env ev p = Some (r, p')" "inv_life p" "0 < length (workers p)"
  from ev(1) [unfolded PSubmit] ev(2,3) HOL.refl HOL.refl show ?thesis
    by (cases rule: psubmit_cases) simp_all
qed (auto elim!: receive_cases run_cases exit_cases simp: pool_start_def stopAccepting_def forceCancel_def
    drain_begin_def drain_finish_def set_context_def Let_def split: if_splits workerPoolState.splits)

lemma served_event:
  assumes tasks: "inv_tasks p" and life: "inv_life p" and pos: "0 < length (workers p)"
    and ev: "pool_exec env ev p = Some (r, p')" and ts: "\<forall>t\<in>set ts. t < length (contexts p)"
  shows "served p' i ts = served p i ts"
  unfolding served_def conjunct1 [OF event_workers [OF ev life pos]]
  using event_static(2) [OF tasks life pos ev] ts by (intro filter_cong) (auto intro!: workerIndex_static)

lemma inv_order_same:
  assumes inv: "inv_order p" and tasks: "inv_tasks p" and life: "inv_life p" and pos: "0 < length (workers p)"
    and ev: "pool_exec env ev p = Some (r, p')"
    and same: "accepted p' = accepted p" "received p' = received p"
      "\<And>i. i < length (workers p) \<Longrightarrow> queue (workers p' ! i) = queue (workers p ! i)"
  shows "inv_order p'"
  using inv same event_static(1) [OF tasks life pos ev] served_event [OF tasks life pos ev] event_workers [OF ev life pos]
  by (auto simp: inv_order_def)

lemma inv_order_submit:
  assumes inv: "inv_order p" and tasks: "inv_tasks p" and life: "inv_life p" and pos: "0 < length (workers p)"
    and ev: "pool_exec env (PSubmit c) p = Some (r, p')"
  shows "inv_order p'"
proof -
  note old = served_event [OF tasks life pos ev]
  have bound: "\<forall>t\<in>set (accepted p) \<union> set (received p). t < length (contexts p)" using inv by (simp add: inv_order_def)
  from ev life pos HOL.refl HOL.refl show ?thesis
  proof (cases rule: psubmit_cases)
    case queued
    have new: "served p' i [length (contexts p)] = (if i = workerIndex (length (workers p)) c then [length (contexts p)] else [])" for i
      by (simp add: served_def queued(7))
    have acc: "served p' i (accepted p') = served p i (accepted p) @ served p' i [length (contexts p)]" for i
      using old [of "accepted p"] bound by (simp add: queued(7) del: old)
    have rec: "served p' i (received p') = served p i (received p)" for i
      using old [of "received p"] bound by (simp add: queued(7))
    have "served p' i (accepted p') = served p' i (received p') @ queue (workers p' ! i)"
      if "i < length (workers p)" for i
      using that inv queued(5) unfolding acc rec new by (auto simp: inv_order_def queued(7) nth_list_update)
    moreover have "\<forall>t\<in>set (accepted p') \<union> set (received p'). t < length (contexts p')"
      using bound by (auto simp: queued(7) less_Suc_eq)
    ultimately show ?thesis unfolding inv_order_def by (simp add: queued(7))
  qed (rule inv_order_same [OF inv tasks life pos ev]; simp)+
qed

lemma inv_order_receive:
  assumes inv: "inv_order p" and tasks: "inv_tasks p" and life: "inv_life p" and pos: "0 < length (workers p)"
    and ev: "pool_exec env (PReceive i) p = Some (r, p')"
  shows "inv_order p'"
proof -
  note old = served_event [OF tasks life pos ev]
  have bound: "\<forall>t\<in>set (accepted p) \<union> set (received p). t < length (contexts p)" using inv by (simp add: inv_order_def)
  from ev obtain "worker_receive i p = Some p'" by auto
  then show ?thesis
  proof (cases rule: receive_cases)
    case (1 t q)
    have "placed p i t" using 1 by (simp add: placed_def held_def)
    then have t: "t < length (contexts p)" "workerIndex (length (workers p)) (ctx p t) = i"
      using tasks by (simp_all add: inv_tasks_def)
    then have new: "served p j [t] = (if j = i then [t] else [])" for j by (simp add: served_def)
    have acc: "served p' j (accepted p') = served p j (accepted p)" for j
      using old [of "accepted p"] bound by (simp add: 1(6))
    have rec: "served p' j (received p') = served p j (received p) @ served p j [t]" for j
      using old [of "received p @ [t]"] bound t(1) by (simp add: 1(6))
    have "served p' j (accepted p') = served p' j (received p') @ queue (workers p' ! j)"
      if "j < length (workers p)" for j
      using that inv 1(1,5) unfolding acc rec new by (auto simp: inv_order_def 1(6) nth_list_update)
    moreover have "\<forall>t\<in>set (accepted p') \<union> set (received p'). t < length (contexts p')"
      using bound t(1) by (auto simp: 1(6))
    ultimately show ?thesis unfolding inv_order_def by (simp add: 1(6))
  qed
qed

lemma inv_order_event:
  assumes inv: "inv_order p" and tasks: "inv_tasks p" and life: "inv_life p" and pos: "0 < length (workers p)"
    and ev: "pool_exec env ev p = Some (r, p')"
  shows "inv_order p'"
proof -
  note same = inv_order_same [OF inv tasks life pos ev]
  show ?thesis
  proof (cases ev)
    case (PSubmit c)
    show ?thesis by (rule inv_order_submit [OF inv tasks life pos ev [unfolded PSubmit]])
  next
    case (PReceive i)
    show ?thesis by (rule inv_order_receive [OF inv tasks life pos ev [unfolded PReceive]])
  next
    case (PRun d i)
    show ?thesis by (rule same) (use ev PRun in \<open>auto elim!: run_cases simp: nth_list_update split: if_splits\<close>)
  next
    case (PExit i)
    show ?thesis by (rule same) (use ev PExit in \<open>auto elim!: exit_cases simp: nth_list_update\<close>)
  qed (rule same; use ev in \<open>auto simp: pool_start_def stopAccepting_def forceCancel_def drain_begin_def drain_finish_def
      set_context_def Let_def split: if_splits workerPoolState.splits\<close>)+
qed

section \<open>The gauge of queued tasks\<close>

definition counted :: "('v, 'w) workerPool \<Rightarrow> Transport \<Rightarrow> nat \<Rightarrow> bool" where
  "counted p transport t \<longleftrightarrow> has_metrics (ctx p t) \<and> metricTransport (ctx p t) = transport"

definition queued_tasks :: "('v, 'w) workerPool \<Rightarrow> Transport \<Rightarrow> nat" where
  "queued_tasks p transport = (\<Sum>w\<leftarrow>workers p. length (filter (counted p transport) (queue w)))"

definition inv_gauge :: "('v, 'w) workerPool \<Rightarrow> bool" where
  "inv_gauge p \<longleftrightarrow> length (workers p) < 2 ^ 32 \<and> capacity p < 2 ^ 32 \<and>
     (\<forall>transport\<in>{TransportTCP, TransportWebSocket}.
        unat (queuedTasks (metrics_of transport (metrics p))) = queued_tasks p transport)"

lemma queued_tasks_bound:
  assumes "inv_tasks p" "inv_gauge p"
  shows "queued_tasks p transport < 2 ^ 64 - 1"
proof -
  have "length (filter (counted p transport) (queue w)) \<le> capacity p" if "w \<in> set (workers p)" for w
    using that assms(1) length_filter_le [of "counted p transport" "queue w"]
    unfolding inv_tasks_def in_set_conv_nth by (metis order.trans)
  then have "queued_tasks p transport \<le> (\<Sum>w\<leftarrow>workers p. capacity p)"
    unfolding queued_tasks_def by (rule sum_list_mono)
  also have "\<dots> = length (workers p) * capacity p" by (simp add: sum_list_triv)
  also have "\<dots> \<le> (2 ^ 32 - 1) * (2 ^ 32 - 1)"
    using assms(2) by (intro mult_le_mono) (auto simp: inv_gauge_def)
  also have "\<dots> < 2 ^ 64 - 1" by simp
  finally show ?thesis .
qed

lemma unat_queued:
  assumes "transport \<in> {TransportTCP, TransportWebSocket}"
    and "unat (queuedTasks (metrics_of transport m)) < 2 ^ 64 - 1"
  shows "unat (queuedTasks (metrics_of transport (taskQueued c m))) =
      unat (queuedTasks (metrics_of transport m)) + (if has_metrics c \<and> metricTransport c = transport then 1 else 0)"
    and "unat (queuedTasks (metrics_of transport (taskDequeued c m))) =
      unat (queuedTasks (metrics_of transport m)) - (if has_metrics c \<and> metricTransport c = transport then 1 else 0)"
  using assms(2)
  by (auto simp: taskQueued_def taskDequeued_def metrics_defs
      metrics_of_forTransport [OF assms(1)] unat_saturatingAdd unat_decrementGauge Let_def)

lemma queued_other:
  assumes "transport \<in> {TransportTCP, TransportWebSocket}"
  shows "queuedTasks (metrics_of transport (taskRejected c m)) = queuedTasks (metrics_of transport m)"
    and "queuedTasks (metrics_of transport (requestCompleted d c m)) = queuedTasks (metrics_of transport m)"
  by (auto simp: taskRejected_def requestCompleted_def metrics_defs metrics_of_forTransport [OF assms] Let_def)

lemma unat_dequeued_queued:
  assumes "transport \<in> {TransportTCP, TransportWebSocket}"
    and "unat (queuedTasks (metrics_of transport m)) < 2 ^ 64 - 1"
  shows "unat (queuedTasks (metrics_of transport (taskDequeued c (taskQueued c m)))) = unat (queuedTasks (metrics_of transport m))"
  using assms(2)
  by (auto simp: taskQueued_def taskDequeued_def metrics_defs
      metrics_of_forTransport [OF assms(1)] unat_saturatingAdd unat_decrementGauge Let_def)

lemma sum_map_update:
  fixes f :: "'a \<Rightarrow> nat"
  shows "i < length xs \<Longrightarrow> (\<Sum>y\<leftarrow>xs[i := x]. f y) + f (xs ! i) = (\<Sum>y\<leftarrow>xs. f y) + f x"
  by (induction xs arbitrary: i) (auto split: nat.splits)

lemma map_queue_eqI:
  "length ws' = length ws \<Longrightarrow> (\<And>i. i < length ws \<Longrightarrow> queue (ws' ! i) = queue (ws ! i)) \<Longrightarrow> map queue ws' = map queue ws"
  by (simp add: list_eq_iff_nth_eq)

lemma queued_tasks_map: "queued_tasks p transport = (\<Sum>q\<leftarrow>map queue (workers p). length (filter (counted p transport) q))"
  by (simp add: queued_tasks_def comp_def)

text \<open>
  How an event changes the number of queued tasks: contexts keep what counts, so the queues alone
  decide; if they and the gauges stay as they are, so does the invariant.
\<close>

lemma counted_event:
  assumes tasks: "inv_tasks p" and life: "inv_life p" and pos: "0 < length (workers p)"
    and ev: "pool_exec env ev p = Some (r, p')"
  shows "t < length (contexts p) \<Longrightarrow> counted p' T t = counted p T t"
    and "w \<in> set (workers p) \<Longrightarrow> t \<in> set (queue w) \<Longrightarrow> t < length (contexts p)"
    and "(\<Sum>w\<leftarrow>workers p. length (filter (counted p' T) (queue w))) = queued_tasks p T"
proof -
  show counted: "counted p' T t = counted p T t" if "t < length (contexts p)" for t T
    using event_static(2) [OF tasks life pos ev that] by (simp add: counted_def static_def)
  show bound: "t < length (contexts p)" if w: "w \<in> set (workers p)" and t: "t \<in> set (queue w)" for w t
  proof -
    obtain i where "i < length (workers p)" "w = workers p ! i" using w by (auto simp: in_set_conv_nth)
    then have "placed p i t" using t by (simp add: placed_def held_def)
    then show ?thesis using tasks by (auto simp: inv_tasks_def)
  qed
  have cnt: "length (filter (counted p' T) (queue w)) = length (filter (counted p T) (queue w))"
    if "w \<in> set (workers p)" for w T
    using counted bound [OF that] by (auto intro!: arg_cong [of _ _ length] filter_cong)
  show "(\<Sum>w\<leftarrow>workers p. length (filter (counted p' T) (queue w))) = queued_tasks p T" for T
    unfolding queued_tasks_def using cnt by (auto intro!: arg_cong [of _ _ sum_list])
qed

lemma gauge_value:
  assumes "inv_gauge p" "inv_tasks p" "T \<in> {TransportTCP, TransportWebSocket}"
  shows "unat (queuedTasks (metrics_of T (metrics p))) = queued_tasks p T" "queued_tasks p T < 2 ^ 64 - 1"
  using assms queued_tasks_bound [OF assms(2,1)] by (auto simp: inv_gauge_def)

lemma inv_gaugeI:
  assumes "inv_gauge p" "inv_life p" "0 < length (workers p)" "pool_exec env ev p = Some (r, p')"
    "\<And>T. T \<in> {TransportTCP, TransportWebSocket} \<Longrightarrow> unat (queuedTasks (metrics_of T (metrics p'))) = queued_tasks p' T"
  shows "inv_gauge p'"
  using assms(1,5) event_workers [OF assms(4,2,3)] by (simp add: inv_gauge_def)

lemma inv_gauge_same:
  assumes inv: "inv_gauge p" and tasks: "inv_tasks p" and life: "inv_life p" and pos: "0 < length (workers p)"
    and ev: "pool_exec env ev p = Some (r, p')"
    and queues: "\<And>i. i < length (workers p) \<Longrightarrow> queue (workers p' ! i) = queue (workers p ! i)"
    and gauges: "\<And>T. T \<in> {TransportTCP, TransportWebSocket} \<Longrightarrow>
      unat (queuedTasks (metrics_of T (metrics p'))) = unat (queuedTasks (metrics_of T (metrics p)))"
  shows "inv_gauge p'"
proof (rule inv_gaugeI [OF inv life pos ev])
  fix T assume T: "T \<in> {TransportTCP, TransportWebSocket :: Transport}"
  have "map queue (workers p') = map queue (workers p)"
    using queues event_workers [OF ev life pos] by (intro map_queue_eqI) simp_all
  then have "queued_tasks p' T = (\<Sum>q\<leftarrow>map queue (workers p). length (filter (counted p' T) q))"
    by (simp only: queued_tasks_map)
  also have "\<dots> = queued_tasks p T" using counted_event(3) [OF tasks life pos ev, of T] by (simp add: comp_def)
  finally show "unat (queuedTasks (metrics_of T (metrics p'))) = queued_tasks p' T"
    using gauges [OF T] gauge_value(1) [OF inv tasks T] by simp
qed

lemma inv_gauge_submit:
  assumes inv: "inv_gauge p" and tasks: "inv_tasks p" and life: "inv_life p" and pos: "0 < length (workers p)"
    and ev: "pool_exec env (PSubmit c) p = Some (r, p')"
  shows "inv_gauge p'"
proof -
  note intro = inv_gaugeI [OF inv life pos ev] and same = inv_gauge_same [OF inv tasks life pos ev]
    and old = counted_event(3) [OF tasks life pos ev] and bound = counted_event(2) [OF tasks life pos ev]
    and counted = counted_event(1) [OF tasks life pos ev] and g = gauge_value [OF inv tasks]
  from ev life pos HOL.refl HOL.refl show ?thesis
  proof (cases rule: psubmit_cases)
    case queued
    show ?thesis
    proof (rule intro)
      fix T assume T: "T \<in> {TransportTCP, TransportWebSocket :: Transport}"
      have "counted p' T (length (contexts p)) \<longleftrightarrow> has_metrics c \<and> metricTransport c = T"
        by (simp add: counted_def queued(7))
      then have "queued_tasks p' T = queued_tasks p T + (if has_metrics c \<and> metricTransport c = T then 1 else 0)"
        using sum_map_update [OF queued(5), of "\<lambda>w. length (filter (counted p' T) (queue w))"
            "queue_update (\<lambda>q. q @ [length (contexts p)]) (workers p ! workerIndex (length (workers p)) c)"] old [of T]
        by (simp add: queued_tasks_def queued(7))
      moreover have "metrics p' = taskQueued c (metrics p)" by (simp add: queued(7))
      ultimately show "unat (queuedTasks (metrics_of T (metrics p'))) = queued_tasks p' T"
        using unat_queued(1) [OF T, of "metrics p" c] g [OF T] by simp
    qed
  next
    case full
    show ?thesis
    proof (rule same)
      fix T assume T: "T \<in> {TransportTCP, TransportWebSocket :: Transport}"
      show "unat (queuedTasks (metrics_of T (metrics p'))) = unat (queuedTasks (metrics_of T (metrics p)))"
        using unat_dequeued_queued [OF T, of "metrics p" c] g [OF T] by (simp add: full(7) queued_other(1) [OF T])
    qed (simp add: full(7))
  qed (rule same; simp)
qed

lemma inv_gauge_receive:
  assumes inv: "inv_gauge p" and tasks: "inv_tasks p" and life: "inv_life p" and pos: "0 < length (workers p)"
    and ev: "pool_exec env (PReceive i) p = Some (r, p')"
  shows "inv_gauge p'"
proof -
  note intro = inv_gaugeI [OF inv life pos ev] and same = inv_gauge_same [OF inv tasks life pos ev]
    and old = counted_event(3) [OF tasks life pos ev] and bound = counted_event(2) [OF tasks life pos ev]
    and counted = counted_event(1) [OF tasks life pos ev] and g = gauge_value [OF inv tasks]
  from ev obtain "worker_receive i p = Some p'" by auto
  then show ?thesis
  proof (cases rule: receive_cases)
    case (1 t q)
    show ?thesis
    proof (rule intro)
      fix T assume T: "T \<in> {TransportTCP, TransportWebSocket :: Transport}"
      have t: "t < length (contexts p)" using bound [of "workers p ! i" t] 1(1,5) by simp
      have "queued_tasks p' T + (if counted p' T t then 1 else 0) = queued_tasks p T"
        using sum_map_update [OF 1(1), of "\<lambda>w. length (filter (counted p' T) (queue w))"
            "(workers p ! i)\<lparr>queue := q, current := Some t\<rparr>"] old [of T] 1(5)
        by (simp add: queued_tasks_def 1(6) split: if_splits)
      moreover have "metrics p' = taskDequeued (ctx p t) (metrics p)" by (simp add: 1(6))
      ultimately show "unat (queuedTasks (metrics_of T (metrics p'))) = queued_tasks p' T"
        using unat_queued(2) [OF T, of "metrics p" "ctx p t"] g [OF T] counted [OF t, of T]
        by (simp add: counted_def split: if_splits)
    qed
  qed
qed

lemma inv_gauge_event:
  assumes inv: "inv_gauge p" and tasks: "inv_tasks p" and life: "inv_life p" and pos: "0 < length (workers p)"
    and ev: "pool_exec env ev p = Some (r, p')"
  shows "inv_gauge p'"
proof -
  note same = inv_gauge_same [OF inv tasks life pos ev]
  show ?thesis
  proof (cases ev)
    case (PSubmit c)
    show ?thesis by (rule inv_gauge_submit [OF inv tasks life pos ev [unfolded PSubmit]])
  next
    case (PReceive i)
    show ?thesis by (rule inv_gauge_receive [OF inv tasks life pos ev [unfolded PReceive]])
  next
    case (PRun d i)
    then obtain "worker_run env d i p = Some p'" using ev by auto
    then show ?thesis
    proof (cases rule: run_cases)
      case (1 t c m b)
      have "queuedTasks (metrics_of T m) = queuedTasks (metrics_of T (metrics p))"
        if "T \<in> {TransportTCP, TransportWebSocket}" for T
        using 1(4,5) queued_other(2) [OF that] by (cases "ctx_err (ctx p t)") auto
      then show ?thesis by (intro same) (simp_all add: 1(1,3) nth_list_update)
    qed
  next
    case (PExit i)
    show ?thesis by (rule same) (use ev PExit in \<open>auto elim!: exit_cases simp: nth_list_update split: if_splits\<close>)
  qed (rule same; use ev in \<open>auto simp: pool_start_def stopAccepting_def forceCancel_def drain_begin_def drain_finish_def
      set_context_def Let_def split: if_splits workerPoolState.splits\<close>)+
qed

section \<open>Reachable pools\<close>

definition pool_inv :: "uint32 \<Rightarrow> uint32 \<Rightarrow> ('v, 'w) workerPool \<Rightarrow> bool" where
  "pool_inv n_workers q_size p \<longleftrightarrow> length (workers p) = unat n_workers \<and> 0 < length (workers p) \<and>
     capacity p = unat q_size \<and> inv_life p \<and> inv_tasks p \<and> inv_order p \<and> inv_gauge p"

lemma pool_inv_new:
  assumes "newWorkerPool n_workers q_size = (Ok p :: (go_error, ('v, 'w) workerPool) outcome)"
  shows "pool_inv n_workers q_size p"
proof -
  have "0 < unat n_workers" using assms by (auto simp: newWorkerPool_def unat_gt_0 split: if_splits)
  with assms show ?thesis
    using unsigned_less [of n_workers, where ?'a = nat] unsigned_less [of q_size, where ?'a = nat]
    by (auto simp: newWorkerPool_def pool_inv_def inv_life_def worker_life_simps newWorker_def inv_tasks_def
        placed_def held_def inv_order_def served_def inv_gauge_def queued_tasks_def zeroTransportMetrics_def
        sum_list_replicate split: if_splits)
qed

lemma pool_inv_event:
  "pool_inv n_workers q_size p \<Longrightarrow> pool_exec env ev p = Some (r, p') \<Longrightarrow> pool_inv n_workers q_size p'"
  unfolding pool_inv_def
  using event_workers inv_life_event inv_tasks_event inv_order_event inv_gauge_event by metis

lemma pool_reachable_inv: "pool_reachable env n_workers q_size p \<Longrightarrow> pool_inv n_workers q_size p"
  by (induction rule: pool_reachable.induct) (use pool_inv_new pool_inv_event in blast)+

lemma tasks_held: "pool_inv n_workers q_size p \<Longrightarrow> tasks p = (\<Union>w\<in>set (workers p). set (held w))"
  unfolding pool_inv_def inv_tasks_def placed_def set_conv_nth [of "workers p"] by auto

lemma pool_done_empty:
  assumes "pool_inv n_workers q_size p"
  shows "pool_done p \<longrightarrow> tasks p = {} \<and> (\<forall>i<length (workers p). served p i (accepted p) = served p i (received p))"
proof
  assume "pool_done p"
  then have "queue w = [] \<and> current w = None" if "w \<in> set (workers p)" for w
    using assms that by (auto simp: pool_inv_def inv_life_def worker_life_simps)
  then show "tasks p = {} \<and> (\<forall>i<length (workers p). served p i (accepted p) = served p i (received p))"
    using assms unfolding tasks_held [OF assms] by (auto simp: held_def pool_inv_def inv_order_def)
qed

section \<open>Draining\<close>

text \<open>
  The steps the goroutines make by themselves, and what is left to do: two steps for a queued
  task, one for a task at work, one for a worker to end and one for the drain to notice.
\<close>

fun internal :: "('v, 'w) pool_event \<Rightarrow> bool" where
  "internal (PReceive i) = True"
| "internal (PRun d i) = True"
| "internal (PExit i) = True"
| "internal PDrainFinish = True"
| "internal _ = False"

definition worker_left :: "worker \<Rightarrow> nat" where
  "worker_left w = 2 * length (queue w) + (if current w = None then 0 else 1) + (if loop_done w then 0 else 1)"

definition work_left :: "('v, 'w) workerPool \<Rightarrow> nat" where
  "work_left p = (\<Sum>w\<leftarrow>workers p. worker_left w) + (if pool_done p then 0 else 1)"

lemma work_left_update:
  assumes "i < length (workers p)" "worker_left w < worker_left (workers p ! i)"
    and "workers p' = (workers p)[i := w]" "pool_done p' = pool_done p"
  shows "work_left p' < work_left p"
  using sum_map_update [OF assms(1), of worker_left w] assms(2-4) by (simp add: work_left_def)

lemma internal_decreases:
  assumes "inv_life p" "internal ev" "pool_exec env ev p = Some (r, p')"
  shows "work_left p' < work_left p"
proof (cases ev)
  case (PReceive i)
  then obtain "worker_receive i p = Some p'" using assms(3) by auto
  then show ?thesis
    by (cases rule: receive_cases) (rule work_left_update [of i], auto simp: worker_left_def)
next
  case (PRun d i)
  then obtain "worker_run env d i p = Some p'" using assms(3) by auto
  then show ?thesis
    by (cases rule: run_cases) (rule work_left_update [of i], auto simp: worker_left_def)
next
  case (PExit i)
  then obtain "worker_exit i p = Some p'" using assms(3) by auto
  then show ?thesis
    by (cases rule: exit_cases) (rule work_left_update [of i], auto simp: worker_left_def)
next
  case PDrainFinish
  then show ?thesis
    using assms(1,3) by (auto simp: drain_finish_def work_left_def inv_life_def split: if_splits)
qed (use assms(2) in auto)

lemma internal_enabled:
  assumes life: "inv_life p" and tasks: "inv_tasks p" and st: "pool_state p = workerPoolStateStopping"
  shows "\<exists>ev r p'. internal ev \<and> pool_exec env ev p = Some (r, p')"
proof (cases "\<forall>w\<in>set (workers p). loop_done w")
  case True
  then have "pool_exec env PDrainFinish p \<noteq> None" using life st by (simp add: drain_finish_def inv_life_def)
  then show ?thesis by (intro exI [of _ PDrainFinish]) auto
next
  case False
  then obtain i where i: "i < length (workers p)" "\<not> loop_done (workers p ! i)" by (auto simp: in_set_conv_nth)
  have w: "loop_started (workers p ! i)" "chan_closed (workers p ! i)"
    using inv_life_worker [OF life i(1)] st by (simp_all add: worker_life_simps)
  show ?thesis
  proof (cases "current (workers p ! i)")
    case (Some t)
    then have "placed p i t" using i(1) by (simp add: placed_def held_def)
    then have "waiting (ctx p t)" using tasks by (simp add: inv_tasks_def)
    then obtain c r where "Context_Next env (ctx p t) = Some (c, r)"
      by (auto simp: waiting_def elim: Context_Next_total [where env = env])
    then have "pool_exec env (PRun 0 i) p \<noteq> None"
      using i(1) Some by (auto simp: worker_run_def split: result.split)
    then show ?thesis by (intro exI [of _ "PRun 0 i"]) auto
  next
    case None
    then have "pool_exec env (if queue (workers p ! i) = [] then PExit i else PReceive i) p \<noteq> None"
      using i w by (auto simp: worker_exit_def worker_receive_def Let_def split: list.split)
    then show ?thesis by (intro exI [of _ "if queue (workers p ! i) = [] then PExit i else PReceive i"]) auto
  qed
qed

text \<open>A pool that is stopping, or has stopped, until a panic ends the process.\<close>

definition live_exec ::
  "'w handler_env \<Rightarrow> ('v, 'w) pool_event \<Rightarrow> ('v, 'w) workerPool \<Rightarrow> (submit_result option \<times> ('v, 'w) workerPool) option" where
  "live_exec env ev p = (if crashed p then None else pool_exec env ev p)"

definition stopping :: "('v, 'w) workerPool \<Rightarrow> bool" where
  "stopping p \<longleftrightarrow> (\<exists>n_workers q_size. pool_inv n_workers q_size p) \<and> pool_state p \<in> {workerPoolStateStopping, workerPoolStateStopped}"

lemma internal_stopping:
  assumes "internal ev" "pool_exec env ev p = Some (r, p')" "stopping p"
  shows "stopping p'"
proof -
  have "pool_state p' \<in> {workerPoolStateStopping, workerPoolStateStopped}"
    using assms by (cases ev) (auto elim!: receive_cases run_cases exit_cases simp: drain_finish_def stopping_def split: if_splits)
  then show ?thesis using assms(2,3) pool_inv_event unfolding stopping_def by blast
qed

interpretation pw: terminating "live_exec env" internal stopping "\<lambda>p. pool_done p \<or> crashed p" work_left
  for env :: "'w handler_env"
proof unfold_locales
  fix p p' :: "('v, 'w) workerPool" and ev :: "('v, 'w) pool_event" and r
  assume inv: "stopping p"
  then have life: "inv_life p" "inv_tasks p" by (auto simp: stopping_def pool_inv_def)
  show "stopping p'" "work_left p' < work_left p" if "internal ev" "live_exec env ev p = Some (r, p')"
    using that internal_stopping internal_decreases [OF life(1)] inv by (auto simp: live_exec_def split: if_splits)
  show "\<exists>ev r p'. internal ev \<and> live_exec env ev p = Some (r, p') \<and> work_left p' < work_left p" if "\<not> (pool_done p \<or> crashed p)"
  proof -
    have "pool_state p = workerPoolStateStopping" using inv that life(1) by (auto simp: stopping_def inv_life_def)
    then show ?thesis using that internal_enabled [OF life] internal_decreases [OF life(1)] unfolding live_exec_def by metis
  qed
qed

text \<open>The tasks of one connection.\<close>

definition tasks_of :: "('v, 'w) workerPool \<Rightarrow> uint64 \<Rightarrow> nat list \<Rightarrow> nat list" where
  "tasks_of p cid ts = filter (\<lambda>t. ctx_Connection (ctx p t) = Some cid) ts"

lemma tasks_of_served:
  "tasks_of p cid ts = tasks_of p cid (served p (unat cid mod length (workers p)) ts)"
  by (auto simp: tasks_of_def served_def workerIndex_def intro!: filter_cong)

lemma tasks_of_split:
  assumes "pool_inv n_workers q_size p" "i = unat cid mod length (workers p)"
  shows "tasks_of p cid (accepted p) = tasks_of p cid (received p) @ tasks_of p cid (queue (workers p ! i))"
proof -
  have "i < length (workers p)" "inv_order p" using assms by (simp_all add: pool_inv_def del: length_greater_0_conv)
  then have "served p i (accepted p) = served p i (received p) @ queue (workers p ! i)" by (simp add: inv_order_def)
  then show ?thesis
    unfolding tasks_of_served [of p cid "received p"] tasks_of_served [of p cid "accepted p"] assms(2) [symmetric]
    by (simp add: tasks_of_def)
qed

text \<open>A pool of two workers with queues of one task, started, and a request on connection 5.\<close>

definition small_pool :: "(nat, nat) workerPool" where
  "small_pool = \<lparr>contexts = [], workers = [newWorker\<lparr>loop_started := True\<rparr>, newWorker\<lparr>loop_started := True\<rparr>],
     capacity = 1, accepting = True, pool_state = workerPoolStateStarted, tasks = {}, drain_fired = False,
     draining = False, pool_done = False, metrics = zeroServerMetrics, crashed = False, accepted = [], received = []\<rparr>"

definition small_task :: "(nat, nat) Context" where
  "small_task = (newContext None (Some 5) sample_request 0)
     \<lparr>handlers := [Some notFoundHandler], has_metrics := True, metricTransport := TransportTCP\<rparr>"

lemma replicate_two: "replicate 2 x = [x, x]"
  by (simp add: numeral_2_eq_2)

lemma five_mod_two: "(5 :: nat) mod Suc (Suc 0) = Suc 0"
  by (simp flip: numeral_2_eq_2)

lemma small_pool_reachable: "pool_reachable counting_env 2 1 small_pool"
proof -
  have "pool_reachable counting_env 2 1 (p :: (nat, nat) workerPool)"
    if "newWorkerPool 2 1 = (Ok p :: (go_error, (nat, nat) workerPool) outcome)" for p
    by (rule pool_reachable.start [OF that])
  then have "pool_reachable counting_env 2 1 (\<lparr>contexts = [], workers = [newWorker, newWorker], capacity = 1,
      accepting = False, pool_state = workerPoolStateNew, tasks = {}, drain_fired = False, draining = False,
      pool_done = False, metrics = zeroServerMetrics, crashed = False, accepted = [], received = []\<rparr> :: (nat, nat) workerPool)"
    by (simp add: newWorkerPool_def replicate_two)
  then show ?thesis
    by (rule pool_reachable.event [where ev = PStart]) (simp_all add: pool_start_def small_pool_def newWorker_def)
qed

definition busy_pool :: "(nat, nat) workerPool" where
  "busy_pool = snd (the (pool_exec counting_env (PSubmit small_task) small_pool))"

lemmas small_defs = busy_pool_def small_pool_def small_task_def newContext_def newWorker_def submit_def workerIndex_def
  register_def unregister_def set_worker_def taskQueued_def five_mod_two Let_def

lemma busy_pool_eq: "busy_pool =
   \<lparr>contexts = [small_task], workers = [newWorker\<lparr>loop_started := True\<rparr>, newWorker\<lparr>loop_started := True, queue := [0]\<rparr>],
     capacity = 1, accepting = True, pool_state = workerPoolStateStarted, tasks = {0}, drain_fired = False,
     draining = False, pool_done = False, metrics = metrics_taskQueued TransportTCP zeroServerMetrics, crashed = False,
     accepted = [0], received = []\<rparr>"
  by (simp add: small_defs)

lemma busy_pool_step: "pool_exec counting_env (PSubmit small_task) small_pool = Some (Some Submitted, busy_pool)"
  by (simp add: small_defs)

lemma busy_pool_reachable: "pool_reachable counting_env 2 1 busy_pool"
  by (rule pool_reachable.event [OF small_pool_reachable _ busy_pool_step]) (simp add: small_pool_def)

lemma stopping_pool_reachable: "pool_reachable counting_env 2 1 (drain_begin busy_pool)"
  by (rule pool_reachable.event [OF busy_pool_reachable, where ev = PDrain]) (simp_all add: busy_pool_eq)

section \<open>Properties of the pool\<close>

text \<open>
  What \<open>submit\<close> answers, in every reachable pool: \<open>ErrServerStopping\<close> exactly when the
  pool does not accept, \<open>ErrWorkerQueueFull\<close> exactly when it accepts and the queue of the
  connection's worker is full, and success otherwise. It never sends on a closed channel, and
  a rejected task leaves no trace in the register or the gauge of queued tasks.\<close>

lemma submit_exact:
  assumes "pool_reachable env n_workers q_size p" and "pool_exec env (PSubmit c) p = Some (r, p')"
    and "transport \<in> {TransportTCP, TransportWebSocket}"
  shows "r = Some (if \<not> accepting p then Rejected ErrServerStopping
           else if length (queue (workers p ! workerIndex (length (workers p)) c)) \<ge> capacity p
           then Rejected ErrWorkerQueueFull else Submitted) \<and>
    (r \<noteq> Some Submitted \<longrightarrow> tasks p' = tasks p \<and>
       queuedTasks (metrics_of transport (metrics p')) = queuedTasks (metrics_of transport (metrics p)))"
proof -
  have inv: "pool_inv n_workers q_size p" by (rule pool_reachable_inv [OF assms(1)])
  have new: "length (contexts p) \<notin> tasks p" using inv by (auto simp: pool_inv_def inv_tasks_def)
  have life: "inv_life p" and pos: "0 < length (workers p)" using inv unfolding pool_inv_def by blast+
  have "unat (queuedTasks (metrics_of transport (metrics p))) < 2 ^ 64 - 1"
    using inv assms(3) queued_tasks_bound [of p transport] by (auto simp: pool_inv_def inv_gauge_def)
  note g = unat_dequeued_queued [OF assms(3) this, of c]
  from assms(2) life pos HOL.refl HOL.refl show ?thesis
    by (cases rule: psubmit_cases) (use new g in \<open>simp_all add: queued_other(1) [OF assms(3)] word_unat_eq_iff\<close>)
qed

text \<open>
  C4. Requests of a connection are handled in the order in which they were accepted, and one
  at a time: for every connection, the tasks its worker has taken up are a prefix of those
  accepted, and no two workers are at work for the same connection.\<close>

theorem connection_fifo:
  assumes "pool_reachable env n_workers q_size p"
  shows "prefix (tasks_of p cid (received p)) (tasks_of p cid (accepted p)) \<and>
    (\<forall>i j t u. i < length (workers p) \<and> j < length (workers p) \<and>
       current (workers p ! i) = Some t \<and> current (workers p ! j) = Some u \<and>
       ctx_Connection (ctx p t) = ctx_Connection (ctx p u) \<longrightarrow> i = j \<and> t = u)"
proof -
  have inv: "pool_inv n_workers q_size p" by (rule pool_reachable_inv [OF assms])
  have "prefix (tasks_of p cid (received p)) (tasks_of p cid (accepted p))"
    using tasks_of_split [OF inv HOL.refl, of cid] by simp
  moreover have "i = j" if "placed p i t" "placed p j u" "ctx_Connection (ctx p t) = ctx_Connection (ctx p u)" for i j t u
  proof -
    have "workerIndex (length (workers p)) (ctx p t) = i" "workerIndex (length (workers p)) (ctx p u) = j"
      using inv that(1,2) unfolding pool_inv_def inv_tasks_def by blast+
    then show ?thesis using that(3) by (simp add: workerIndex_def)
  qed
  moreover have "placed p i t" if "i < length (workers p)" "current (workers p ! i) = Some t" for i t
    using that by (simp add: placed_def held_def)
  ultimately show ?thesis by (metis option.inject)
qed

theorem connection_fifo_witness:
  "prefix (tasks_of busy_pool 5 (received busy_pool)) (tasks_of busy_pool 5 (accepted busy_pool)) \<and>
   tasks_of busy_pool 5 (accepted busy_pool) = [0]"
  using connection_fifo [OF busy_pool_reachable, of 5]
  by (simp add: busy_pool_eq small_task_def newContext_def tasks_of_def)





end
