(* ===== verification/Manager.thy ===== *)
theory Manager
  imports Errors
begin

text \<open>
  The connection manager, \<open>src/manager.go\<close>: the open connections, spread over groups by their
  ID, and the connections that are being finalized. First the data structure, which refines a
  single map; then \<open>waitAll\<close>, which must not miss a connection although connections leave
  their group and are finalized while it looks at one group after the other.
\<close>

section \<open>The data structure\<close>

text \<open>
  \<open>'c\<close> is the type of the connections and \<open>ID\<close> their method of that name. The channel
  \<open>finalizingChange\<close> is replaced by a new one each time it is closed; it is represented by the
  number of the current one.
\<close>

record 'c connectionManager =
  connectionGroups :: "(uint64 \<times> 'c) list list"
  finalizing :: "(uint64 \<times> 'c) list"
  finalizingChange :: nat

definition newConnectionManager :: "nat \<Rightarrow> 'c connectionManager" where
  "newConnectionManager connectionGroupsCount =
     \<lparr>connectionGroups = replicate connectionGroupsCount [], finalizing = [], finalizingChange = 0\<rparr>"

definition selectGroup :: "('c \<Rightarrow> uint64) \<Rightarrow> 'c connectionManager \<Rightarrow> 'c \<Rightarrow> nat" where
  "selectGroup ID m c = unat (ID c) mod length (connectionGroups m)"

definition addConnection :: "('c \<Rightarrow> uint64) \<Rightarrow> 'c \<Rightarrow> 'c connectionManager \<Rightarrow> 'c connectionManager" where
  "addConnection ID c m =
     (let g = selectGroup ID m c
      in m\<lparr>connectionGroups := (connectionGroups m)[g := map_put (ID c) c (connectionGroups m ! g)]\<rparr>)"

text \<open>The two critical sections of \<open>removeConnection\<close>, in the order in which it enters them.\<close>

definition remove_begin :: "('c \<Rightarrow> uint64) \<Rightarrow> 'c \<Rightarrow> 'c connectionManager \<Rightarrow> 'c connectionManager" where
  "remove_begin ID c m = m\<lparr>finalizing := map_put (ID c) c (finalizing m)\<rparr>"

definition remove_end :: "('c \<Rightarrow> uint64) \<Rightarrow> 'c \<Rightarrow> 'c connectionManager \<Rightarrow> 'c connectionManager" where
  "remove_end ID c m =
     (let g = selectGroup ID m c
      in m\<lparr>connectionGroups := (connectionGroups m)[g := map_delete (ID c) (connectionGroups m ! g)]\<rparr>)"

definition removeConnection :: "('c \<Rightarrow> uint64) \<Rightarrow> 'c \<Rightarrow> 'c connectionManager \<Rightarrow> 'c connectionManager" where
  "removeConnection ID c m = remove_end ID c (remove_begin ID c m)"

definition markFinalized :: "('c \<Rightarrow> uint64) \<Rightarrow> 'c \<Rightarrow> 'c connectionManager \<Rightarrow> 'c connectionManager" where
  "markFinalized ID c m =
     m\<lparr>finalizing := map_delete (ID c) (finalizing m), finalizingChange := finalizingChange m + 1\<rparr>"

definition connectionsCount :: "'c connectionManager \<Rightarrow> nat" where
  "connectionsCount m = (\<Sum>group\<leftarrow>connectionGroups m. length group)"

definition snapshot :: "'c connectionManager \<Rightarrow> 'c list" where
  "snapshot m = concat (map (map snd) (connectionGroups m))"

definition finalizationState :: "'c connectionManager \<Rightarrow> 'c list \<times> nat" where
  "finalizationState m = (map snd (finalizing m), finalizingChange m)"

definition finalizationSnapshot :: "'c connectionManager \<Rightarrow> 'c list" where
  "finalizationSnapshot m = fst (finalizationState m)"

text \<open>
  \<open>quiesceAll\<close> and \<open>forceCloseAll\<close> call a method of every connection of a snapshot; the methods
  are arguments, acting on a state \<open>'s\<close>.
\<close>

fun quiesce_each :: "('c \<Rightarrow> 's \<Rightarrow> go_error option \<times> 's) \<Rightarrow> 'c list \<Rightarrow> 's \<Rightarrow> go_error list \<times> 's" where
  "quiesce_each quiesceReads [] s = ([], s)"
| "quiesce_each quiesceReads (c # cs) s =
     (let (e, s1) = quiesceReads c s; (errs, s2) = quiesce_each quiesceReads cs s1
      in (case e of None \<Rightarrow> errs | Some err \<Rightarrow> err # errs, s2))"

definition quiesceAll ::
  "('c \<Rightarrow> 's \<Rightarrow> go_error option \<times> 's) \<Rightarrow> 'c connectionManager \<Rightarrow> 's \<Rightarrow> go_error list \<times> 's" where
  "quiesceAll quiesceReads m s = quiesce_each quiesceReads (snapshot m) s"

definition forceCloseAll ::
  "('c \<Rightarrow> ConnectionOperation \<Rightarrow> go_error \<Rightarrow> 's \<Rightarrow> 's) \<Rightarrow> 'c connectionManager \<Rightarrow> 's \<Rightarrow> 's" where
  "forceCloseAll requestClose m s = fold (\<lambda>c. requestClose c OperationRead ErrServerStopping) (snapshot m) s"

section \<open>Refinement of a single map\<close>

record 'c registry =
  active :: "uint64 \<Rightarrow> 'c option"
  leaving :: "uint64 \<Rightarrow> 'c option"
  changes :: nat

definition abs_manager :: "'c connectionManager \<Rightarrow> 'c registry" where
  "abs_manager m =
     \<lparr>active = (\<lambda>k. map_of (connectionGroups m ! (unat k mod length (connectionGroups m))) k),
      leaving = map_of (finalizing m), changes = finalizingChange m\<rparr>"

definition group_ok :: "('c \<Rightarrow> uint64) \<Rightarrow> nat \<Rightarrow> nat \<Rightarrow> (uint64 \<times> 'c) list \<Rightarrow> bool" where
  "group_ok ID n i grp \<longleftrightarrow> distinct (map fst grp) \<and>
     (\<forall>(k, c)\<in>set grp. k = ID c \<and> unat k mod n = i)"

definition manager_inv :: "('c \<Rightarrow> uint64) \<Rightarrow> 'c connectionManager \<Rightarrow> bool" where
  "manager_inv ID m \<longleftrightarrow> 0 < length (connectionGroups m) \<and> distinct (map fst (finalizing m)) \<and>
     (\<forall>i<length (connectionGroups m). group_ok ID (length (connectionGroups m)) i (connectionGroups m ! i))"

datatype 'c manager_op = MAdd 'c | MRemove 'c | MMarkFinalized 'c | MCount | MSnapshot | MFinalizing

datatype 'c manager_result = RUnit | RCount nat | RConnections "'c set"

fun manager_step ::
  "('c \<Rightarrow> uint64) \<Rightarrow> 'c manager_op \<Rightarrow> 'c connectionManager \<Rightarrow> ('c manager_result \<times> 'c connectionManager) option" where
  "manager_step ID (MAdd c) m = Some (RUnit, addConnection ID c m)"
| "manager_step ID (MRemove c) m = Some (RUnit, removeConnection ID c m)"
| "manager_step ID (MMarkFinalized c) m = Some (RUnit, markFinalized ID c m)"
| "manager_step ID MCount m = Some (RCount (connectionsCount m), m)"
| "manager_step ID MSnapshot m = Some (RConnections (set (snapshot m)), m)"
| "manager_step ID MFinalizing m = Some (RConnections (set (finalizationSnapshot m)), m)"

fun registry_step ::
  "('c \<Rightarrow> uint64) \<Rightarrow> 'c manager_op \<Rightarrow> 'c registry \<Rightarrow> ('c manager_result \<times> 'c registry) option" where
  "registry_step ID (MAdd c) r = Some (RUnit, r\<lparr>active := (active r)(ID c \<mapsto> c)\<rparr>)"
| "registry_step ID (MRemove c) r =
     Some (RUnit, r\<lparr>leaving := (leaving r)(ID c \<mapsto> c), active := (active r)(ID c := None)\<rparr>)"
| "registry_step ID (MMarkFinalized c) r =
     Some (RUnit, r\<lparr>leaving := (leaving r)(ID c := None), changes := changes r + 1\<rparr>)"
| "registry_step ID MCount r = Some (RCount (card (dom (active r))), r)"
| "registry_step ID MSnapshot r = Some (RConnections (ran (active r)), r)"
| "registry_step ID MFinalizing r = Some (RConnections (ran (leaving r)), r)"

lemma group_ok_put: "group_ok ID n (unat (ID c) mod n) g \<Longrightarrow> group_ok ID n (unat (ID c) mod n) (map_put (ID c) c g)"
proof -
  have "set (map_put (ID c) c g) \<subseteq> insert (ID c, c) (set g)"
    by (induction g) (auto split: if_splits)
  then show "group_ok ID n (unat (ID c) mod n) g \<Longrightarrow> group_ok ID n (unat (ID c) mod n) (map_put (ID c) c g)"
    by (auto simp: group_ok_def distinct_map_put)
qed

lemma group_ok_delete: "group_ok ID n i g \<Longrightarrow> group_ok ID n i (map_delete k g)"
  by (auto simp: group_ok_def distinct_map_delete) (auto simp: map_delete_def)

text \<open>An update of the group of a connection is an update of the map at its ID.\<close>

lemma set_group:
  assumes inv: "manager_inv ID m" and g: "g = unat k mod length (connectionGroups m)"
    and ok: "group_ok ID (length (connectionGroups m)) g grp"
    and upd: "map_of grp = (map_of (connectionGroups m ! g))(k := v)"
    and m': "m' = m\<lparr>connectionGroups := (connectionGroups m)[g := grp]\<rparr>"
  shows "manager_inv ID m'" and "abs_manager m' = (abs_manager m)\<lparr>active := (active (abs_manager m))(k := v)\<rparr>"
proof -
  have pos: "g < length (connectionGroups m)" using inv g by (simp add: manager_inv_def)
  show "manager_inv ID m'"
    using inv ok pos by (auto simp: manager_inv_def m' nth_list_update)
  show "abs_manager m' = (abs_manager m)\<lparr>active := (active (abs_manager m))(k := v)\<rparr>"
    using pos upd g by (auto simp: abs_manager_def m' fun_eq_iff nth_list_update)
qed

lemma manager_inv_group: "manager_inv ID m \<Longrightarrow> group_ok ID (length (connectionGroups m)) (selectGroup ID m c) (connectionGroups m ! selectGroup ID m c)"
  by (simp add: manager_inv_def selectGroup_def)

lemma add_refines:
  assumes "manager_inv ID m"
  shows "manager_inv ID (addConnection ID c m)"
    and "abs_manager (addConnection ID c m) = (abs_manager m)\<lparr>active := (active (abs_manager m))(ID c \<mapsto> c)\<rparr>"
proof -
  let ?g = "selectGroup ID m c"
  have ok: "group_ok ID (length (connectionGroups m)) ?g (map_put (ID c) c (connectionGroups m ! ?g))"
    using manager_inv_group [OF assms, of c] group_ok_put by (simp add: selectGroup_def)
  note set = set_group [OF assms _ ok, of "ID c" "Some c" "addConnection ID c m"]
  show "manager_inv ID (addConnection ID c m)"
    by (rule set(1)) (simp_all add: selectGroup_def addConnection_def Let_def)
  show "abs_manager (addConnection ID c m) = (abs_manager m)\<lparr>active := (active (abs_manager m))(ID c \<mapsto> c)\<rparr>"
    by (rule set(2)) (simp_all add: selectGroup_def addConnection_def Let_def)
qed

lemma remove_end_refines:
  assumes "manager_inv ID m"
  shows "manager_inv ID (remove_end ID c m)"
    and "abs_manager (remove_end ID c m) = (abs_manager m)\<lparr>active := (active (abs_manager m))(ID c := None)\<rparr>"
proof -
  let ?g = "selectGroup ID m c"
  have ok: "group_ok ID (length (connectionGroups m)) ?g (map_delete (ID c) (connectionGroups m ! ?g))"
    by (rule group_ok_delete [OF manager_inv_group [OF assms]])
  note set = set_group [OF assms _ ok, of "ID c" None "remove_end ID c m"]
  show "manager_inv ID (remove_end ID c m)"
    by (rule set(1)) (simp_all add: selectGroup_def remove_end_def Let_def)
  show "abs_manager (remove_end ID c m) = (abs_manager m)\<lparr>active := (active (abs_manager m))(ID c := None)\<rparr>"
    by (rule set(2)) (simp_all add: selectGroup_def remove_end_def Let_def)
qed

lemma remove_begin_refines:
  assumes "manager_inv ID m"
  shows "manager_inv ID (remove_begin ID c m)"
    and "abs_manager (remove_begin ID c m) = (abs_manager m)\<lparr>leaving := (leaving (abs_manager m))(ID c \<mapsto> c)\<rparr>"
  using assms by (simp_all add: remove_begin_def manager_inv_def abs_manager_def distinct_map_put)

lemma markFinalized_refines:
  assumes "manager_inv ID m"
  shows "manager_inv ID (markFinalized ID c m)"
    and "abs_manager (markFinalized ID c m) =
      (abs_manager m)\<lparr>leaving := (leaving (abs_manager m))(ID c := None), changes := changes (abs_manager m) + 1\<rparr>"
  using assms by (simp_all add: markFinalized_def manager_inv_def abs_manager_def distinct_map_delete)

lemma entry_group:
  assumes "manager_inv ID m" "i < length (connectionGroups m)" "(k, c) \<in> set (connectionGroups m ! i)"
  shows "i = unat k mod length (connectionGroups m)" "k = ID c" "active (abs_manager m) k = Some c"
  using assms by (auto simp: manager_inv_def group_ok_def abs_manager_def)

lemma active_entry:
  assumes "manager_inv ID m"
  shows "active (abs_manager m) k = Some c \<longleftrightarrow> (\<exists>g\<in>set (connectionGroups m). (k, c) \<in> set g)"
proof
  assume "active (abs_manager m) k = Some c"
  then have "(k, c) \<in> set (connectionGroups m ! (unat k mod length (connectionGroups m)))"
    by (simp add: abs_manager_def map_of_SomeD)
  moreover have "unat k mod length (connectionGroups m) < length (connectionGroups m)"
    using assms by (simp add: manager_inv_def)
  ultimately show "\<exists>g\<in>set (connectionGroups m). (k, c) \<in> set g" by (meson nth_mem)
next
  assume "\<exists>g\<in>set (connectionGroups m). (k, c) \<in> set g"
  then show "active (abs_manager m) k = Some c"
    using entry_group(3) [OF assms] by (metis in_set_conv_nth)
qed

lemma snapshot_ran: "manager_inv ID m \<Longrightarrow> set (snapshot m) = ran (active (abs_manager m))"
  by (auto simp: snapshot_def ran_def active_entry) force+

lemma count_card:
  assumes "manager_inv ID m"
  shows "connectionsCount m = card (dom (active (abs_manager m)))"
proof -
  let ?gs = "connectionGroups m"
  have "dom (active (abs_manager m)) = (\<Union>i\<in>{..<length ?gs}. fst ` set (?gs ! i))"
    using active_entry [OF assms] unfolding dom_def set_conv_nth [of ?gs] by force
  also have "card \<dots> = (\<Sum>i<length ?gs. card (fst ` set (?gs ! i)))"
    by (rule card_UN_disjoint) (use entry_group(1) [OF assms] in \<open>auto, metis\<close>)
  also have "\<dots> = (\<Sum>i<length ?gs. length (?gs ! i))"
  proof (rule sum.cong [OF HOL.refl])
    fix i assume "i \<in> {..<length ?gs}"
    then have "distinct (map fst (?gs ! i))" using assms by (simp add: manager_inv_def group_ok_def)
    then show "card (fst ` set (?gs ! i)) = length (?gs ! i)" by (metis distinct_card length_map list.set_map)
  qed
  also have "\<dots> = connectionsCount m"
    by (simp add: connectionsCount_def sum_list_sum_nth atLeast0LessThan)
  finally show ?thesis by simp
qed

interpretation mg: functional_refinement "manager_step ID" "registry_step ID" abs_manager "manager_inv ID"
  for ID :: "'c \<Rightarrow> uint64"
proof unfold_locales
  fix m m' :: "'c connectionManager" and opn r
  assume inv: "manager_inv ID m"
  show "manager_inv ID m'" if "manager_step ID opn m = Some (r, m')"
    using that inv by (cases opn) (auto simp: removeConnection_def add_refines(1) remove_end_refines(1)
        remove_begin_refines(1) markFinalized_refines(1))
  show "map_option (apsnd abs_manager) (manager_step ID opn m) = registry_step ID opn (abs_manager m)"
  proof (cases opn)
    case (MRemove c)
    have inv': "manager_inv ID (remove_begin ID c m)" by (rule remove_begin_refines(1) [OF inv])
    show ?thesis
      by (simp add: MRemove removeConnection_def remove_end_refines(2) [OF inv'] remove_begin_refines(2) [OF inv])
  next
    case MFinalizing
    have "distinct (map fst (finalizing m))" using inv by (simp add: manager_inv_def)
    then show ?thesis
      by (simp add: MFinalizing finalizationSnapshot_def finalizationState_def abs_manager_def ran_map_of_zip ran_distinct)
  qed (simp_all add: add_refines(2) [OF inv] markFinalized_refines(2) [OF inv] count_card [OF inv] snapshot_ran [OF inv])
qed

lemma newConnectionManager_refines:
  "0 < n \<Longrightarrow> manager_inv ID (newConnectionManager n)"
  "0 < n \<Longrightarrow> abs_manager (newConnectionManager n) = \<lparr>active = Map.empty, leaving = Map.empty, changes = 0\<rparr>"
  by (auto simp: newConnectionManager_def manager_inv_def group_ok_def abs_manager_def fun_eq_iff)

section \<open>Waiting for all connections\<close>

text \<open>
  A connection goes through the steps of its supervisor: it is added, enters \<open>finalizing\<close>,
  leaves its group, closes its channel \<open>done\<close>, and is marked finalized. \<open>waitAll\<close> runs beside
  any number of connections. It visits the groups one after the other under their own locks,
  then reads \<open>finalizing\<close>, waits for the connections it has seen, and looks at \<open>finalizing\<close>
  again, together with the channel that announces the next change.
\<close>

datatype phase = Absent | Open | Entered | Removed | Done | Finalized

datatype waiter =
    WGroups nat "uint64 list"     \<comment> \<open>\<open>snapshot\<close>: the groups before this one have been read\<close>
  | WFinalizing "uint64 list"
  | WWait "uint64 list"
  | WCheck
  | WBlocked nat                  \<comment> \<open>waits for a change of \<open>finalizing\<close>\<close>
  | WReturned "go_error option"

record wait_sys =
  mgr :: "uint64 connectionManager"
  phase :: "uint64 \<Rightarrow> phase"
  waiter :: waiter

text \<open>Connections are their IDs here. The steps of a connection:\<close>

inductive conn_step :: "uint64 connectionManager \<times> (uint64 \<Rightarrow> phase) \<Rightarrow> uint64 connectionManager \<times> (uint64 \<Rightarrow> phase) \<Rightarrow> bool" where
  add: "ph c = Absent \<Longrightarrow> conn_step (m, ph) (addConnection id c m, ph(c := Open))"
| enter: "ph c = Open \<Longrightarrow> conn_step (m, ph) (remove_begin id c m, ph(c := Entered))"
| leave: "ph c = Entered \<Longrightarrow> conn_step (m, ph) (remove_end id c m, ph(c := Removed))"
| close_done: "ph c = Removed \<Longrightarrow> conn_step (m, ph) (m, ph(c := Done))"
| mark: "ph c = Done \<Longrightarrow> conn_step (m, ph) (markFinalized id c m, ph(c := Finalized))"

definition done_closed :: "(uint64 \<Rightarrow> phase) \<Rightarrow> uint64 \<Rightarrow> bool" where
  "done_closed ph c \<longleftrightarrow> ph c \<in> {Done, Finalized}"

text \<open>
  The steps of \<open>waitAll\<close>; \<open>ctx_err\<close> is the error of its context, which any of the two waits
  may observe once the context has ended.
\<close>

inductive waitAll_step :: "uint64 connectionManager \<times> (uint64 \<Rightarrow> phase) \<Rightarrow> waiter \<Rightarrow> waiter \<Rightarrow> bool" where
  group: "k < length (connectionGroups m) \<Longrightarrow>
    waitAll_step (m, ph) (WGroups k seen) (WGroups (Suc k) (seen @ map snd (connectionGroups m ! k)))"
| groups_end: "k = length (connectionGroups m) \<Longrightarrow> waitAll_step (m, ph) (WGroups k seen) (WFinalizing seen)"
| empty: "seen @ fst (finalizationState m) = [] \<Longrightarrow> waitAll_step (m, ph) (WFinalizing seen) (WReturned None)"
| collect: "seen @ fst (finalizationState m) \<noteq> [] \<Longrightarrow>
    waitAll_step (m, ph) (WFinalizing seen) (WWait (seen @ fst (finalizationState m)))"
| wait_done: "done_closed ph c \<Longrightarrow> waitAll_step (m, ph) (WWait (c # cs)) (WWait cs)"
| wait_ctx: "waitAll_step (m, ph) (WWait (c # cs)) (WReturned (Some err))"
| waited: "waitAll_step (m, ph) (WWait []) WCheck"
| finished: "fst (finalizationState m) = [] \<Longrightarrow> waitAll_step (m, ph) WCheck (WReturned None)"
| block: "fst (finalizationState m) \<noteq> [] \<Longrightarrow> waitAll_step (m, ph) WCheck (WBlocked (snd (finalizationState m)))"
| wake: "finalizingChange m \<noteq> g \<Longrightarrow> waitAll_step (m, ph) (WBlocked g) (WGroups 0 [])"
| blocked_ctx: "waitAll_step (m, ph) (WBlocked g) (WReturned (Some err))"

inductive wait_step :: "wait_sys \<Rightarrow> wait_sys \<Rightarrow> bool" where
  conn: "conn_step (mgr s, phase s) (m', ph') \<Longrightarrow> wait_step s (s\<lparr>mgr := m', phase := ph'\<rparr>)"
| wait: "waitAll_step (mgr s, phase s) (waiter s) w' \<Longrightarrow> wait_step s (s\<lparr>waiter := w'\<rparr>)"

definition registered :: "(uint64 \<Rightarrow> phase) \<Rightarrow> uint64 \<Rightarrow> bool" where
  "registered ph c \<longleftrightarrow> ph c \<notin> {Absent, Finalized}"

text \<open>The books agree with the phases.\<close>

definition books :: "uint64 connectionManager \<Rightarrow> (uint64 \<Rightarrow> phase) \<Rightarrow> bool" where
  "books m ph \<longleftrightarrow> manager_inv id m \<and>
     (\<forall>c. active (abs_manager m) c = (if ph c \<in> {Open, Entered} then Some c else None)) \<and>
     (\<forall>c. leaving (abs_manager m) c = (if ph c \<in> {Entered, Removed, Done} then Some c else None))"

lemma books_step: "conn_step (m, ph) (m', ph') \<Longrightarrow> books m ph \<Longrightarrow> books m' ph'"
  by (cases rule: conn_step.cases, assumption)
    (auto simp: books_def add_refines remove_begin_refines remove_end_refines markFinalized_refines)

text \<open>
  What \<open>waitAll\<close> knows about a connection that was registered when it was called. A
  connection that a group did not show had left it, and was in \<open>finalizing\<close> before that.
\<close>

definition gone :: "phase \<Rightarrow> bool" where
  "gone p \<longleftrightarrow> p \<in> {Removed, Done, Finalized}"

fun knows :: "nat \<Rightarrow> uint64 \<Rightarrow> phase \<Rightarrow> waiter \<Rightarrow> bool" where
  "knows n c p (WGroups k seen) = (c \<in> set seen \<or> k \<le> unat c mod n \<or> gone p)"
| "knows n c p (WFinalizing seen) = (c \<in> set seen \<or> gone p)"
| "knows n c p (WWait cs) = (c \<in> set cs \<or> p \<in> {Done, Finalized})"
| "knows n c p WCheck = (p \<in> {Done, Finalized})"
| "knows n c p (WBlocked g) = True"
| "knows n c p (WReturned None) = (p = Finalized)"
| "knows n c p (WReturned (Some err)) = True"

lemma conn_step_forward:
  assumes "conn_step (m, ph) (m', ph')" "ph c \<noteq> Absent"
  shows "ph' c \<noteq> Absent" and "knows n c (ph c) w \<Longrightarrow> knows n c (ph' c) w"
proof -
  have "ph' c = ph c \<or> (ph c, ph' c) \<in> {(Open, Entered), (Entered, Removed), (Removed, Done), (Done, Finalized)}"
    using assms by (cases rule: conn_step.cases) auto
  then show "ph' c \<noteq> Absent" "knows n c (ph c) w \<Longrightarrow> knows n c (ph' c) w"
    using assms(2) by (auto simp: gone_def) (cases "(n, c, ph c, w)" rule: knows.cases; auto simp: gone_def)+
qed

lemma leaving_state: "books m ph \<Longrightarrow> c \<in> set (fst (finalizationState m)) \<longleftrightarrow> ph c \<in> {Entered, Removed, Done}"
proof -
  assume b: "books m ph"
  then have "distinct (map fst (finalizing m))" by (simp add: books_def manager_inv_def)
  then have "set (fst (finalizationState m)) = ran (leaving (abs_manager m))"
    by (simp add: finalizationState_def abs_manager_def ran_distinct)
  also have "\<dots> = {c. ph c \<in> {Entered, Removed, Done}}"
    using b by (auto simp: books_def ran_def)
  finally show ?thesis by blast
qed

lemma active_group:
  assumes "books m ph" "k < length (connectionGroups m)" "unat c mod length (connectionGroups m) = k" "ph c \<in> {Open, Entered}"
  shows "c \<in> set (map snd (connectionGroups m ! k))"
proof -
  have "active (abs_manager m) c = Some c" using assms(1,4) by (simp add: books_def)
  then have "(c, c) \<in> set (connectionGroups m ! k)" using assms(3) by (simp add: abs_manager_def map_of_SomeD)
  then show ?thesis by force
qed

lemma waitAll_step_knows:
  assumes "waitAll_step (m, ph) w w'" "books m ph" "ph c \<noteq> Absent" "knows (length (connectionGroups m)) c (ph c) w"
  shows "knows (length (connectionGroups m)) c (ph c) w'"
  using assms
proof (cases rule: waitAll_step.cases)
  case (group k seen)
  then show ?thesis
    using assms active_group [OF assms(2), of k c] by (cases "ph c") (auto simp: gone_def not_less_eq_eq)
next
  case (groups_end k seen)
  have "unat c mod length (connectionGroups m) < length (connectionGroups m)"
    using assms(2) by (simp add: books_def manager_inv_def)
  with groups_end assms show ?thesis by auto
qed (use assms leaving_state [OF assms(2), of c] in \<open>auto simp: gone_def done_closed_def, (cases "ph c"; auto)?\<close>)

lemma books_new: "0 < n \<Longrightarrow> books (newConnectionManager n) (\<lambda>_. Absent)"
  by (simp add: books_def newConnectionManager_refines)

lemma books_run:
  "conn_step\<^sup>*\<^sup>* (m, ph) (m', ph') \<Longrightarrow> books m ph \<Longrightarrow> books m' ph'"
  by (induction "(m', ph')" arbitrary: m' ph' rule: rtranclp_induct) (auto dest: books_step)

text \<open>A waiter that sleeps has something to wait for.\<close>

definition sleeps_ok :: "wait_sys \<Rightarrow> bool" where
  "sleeps_ok s \<longleftrightarrow> (\<forall>g. waiter s = WBlocked g \<longrightarrow> g \<le> finalizingChange (mgr s) \<and>
     (finalizingChange (mgr s) = g \<longrightarrow> (\<exists>c. phase s c \<in> {Entered, Removed, Done})))"

lemma groups_const: "conn_step (m, ph) (m', ph') \<Longrightarrow> length (connectionGroups m') = length (connectionGroups m)"
  by (cases rule: conn_step.cases, assumption)
    (auto simp: addConnection_def remove_begin_def remove_end_def markFinalized_def Let_def)

lemma conn_step_sleeps:
  assumes "conn_step (m, ph) (m', ph')"
  shows "finalizingChange m \<le> finalizingChange m'"
    and "finalizingChange m' = finalizingChange m \<Longrightarrow> ph c \<in> {Entered, Removed, Done} \<Longrightarrow> ph' c \<in> {Entered, Removed, Done}"
  using assms
  by (cases rule: conn_step.cases; auto simp: addConnection_def remove_begin_def remove_end_def markFinalized_def Let_def)+

lemma wait_step_invs:
  assumes "wait_step s s'" "books (mgr s) (phase s)" "sleeps_ok s"
  shows "books (mgr s') (phase s') \<and> sleeps_ok s' \<and>
    length (connectionGroups (mgr s')) = length (connectionGroups (mgr s)) \<and>
    (\<forall>c. phase s c \<noteq> Absent \<and> knows (length (connectionGroups (mgr s))) c (phase s c) (waiter s) \<longrightarrow>
      phase s' c \<noteq> Absent \<and> knows (length (connectionGroups (mgr s))) c (phase s' c) (waiter s'))"
  using assms(1)
proof (cases rule: wait_step.cases)
  case (conn m' ph')
  have "sleeps_ok s'"
    using assms(3) conn_step_sleeps [OF conn(2)] unfolding conn(1) sleeps_ok_def
    by simp (metis order.trans order.antisym)
  then show ?thesis
    using books_step [OF conn(2) assms(2)] groups_const [OF conn(2)] conn_step_forward [OF conn(2)]
    by (simp add: conn(1))
next
  case (wait w')
  have "sleeps_ok s'"
    using wait(2) leaving_state [OF assms(2)] unfolding sleeps_ok_def wait(1)
    by (cases rule: waitAll_step.cases) (auto simp: finalizationState_def neq_Nil_conv, metis)
  then show ?thesis
    using assms(2) waitAll_step_knows [OF wait(2) assms(2)] by (simp add: wait(1))
qed

lemma wait_run_invs:
  assumes "wait_step\<^sup>*\<^sup>* s0 s" "books (mgr s0) (phase s0)" "waiter s0 = WGroups 0 []"
  shows "books (mgr s) (phase s) \<and> sleeps_ok s \<and> length (connectionGroups (mgr s)) = length (connectionGroups (mgr s0)) \<and>
    (\<forall>c. phase s0 c \<noteq> Absent \<longrightarrow> phase s c \<noteq> Absent \<and> knows (length (connectionGroups (mgr s0))) c (phase s c) (waiter s))"
  using assms(1)
proof (induction rule: rtranclp_induct)
  case base
  then show ?case using assms(2,3) by (simp add: sleeps_ok_def)
next
  case (step s s')
  then show ?case using wait_step_invs [OF step(2)] by metis
qed

text \<open>
  A concrete run with one connection, number 7: \<open>waitAll\<close> sees it in its group, the
  connection leaves and closes \<open>done\<close>, \<open>waitAll\<close> falls asleep, the connection is marked
  finalized, and \<open>waitAll\<close> wakes up and returns.
\<close>

abbreviation only :: "phase \<Rightarrow> uint64 \<Rightarrow> phase" where
  "only p \<equiv> (\<lambda>_. Absent)(7 := p)"

definition single :: "(uint64 \<times> uint64) list \<Rightarrow> (uint64 \<times> uint64) list \<Rightarrow> nat \<Rightarrow> uint64 connectionManager" where
  "single grp fin g = \<lparr>connectionGroups = [grp], finalizing = fin, finalizingChange = g\<rparr>"

abbreviation sys :: "uint64 connectionManager \<Rightarrow> phase \<Rightarrow> waiter \<Rightarrow> wait_sys" where
  "sys m p w \<equiv> \<lparr>mgr = m, phase = only p, waiter = w\<rparr>"

lemma one_added: "conn_step\<^sup>*\<^sup>* (newConnectionManager 1, \<lambda>_. Absent) (single [(7, 7)] [] 0, only Open)"
proof -
  have "addConnection id 7 (newConnectionManager 1) = single [(7, 7)] [] 0"
    by (simp add: addConnection_def newConnectionManager_def selectGroup_def single_def)
  then show ?thesis using conn_step.add [of "\<lambda>_. Absent" 7 "newConnectionManager 1"] by (simp add: r_into_rtranclp)
qed

lemma sys_conn: "conn_step (m, only p) (m', (only p)(7 := q)) \<Longrightarrow> wait_step (sys m p w) (sys m' q w)"
  using wait_step.conn [of "sys m p w" m' "(only p)(7 := q)"] by simp

lemma sys_wait: "waitAll_step (m, only p) w w' \<Longrightarrow> wait_step (sys m p w) (sys m p w')"
  using wait_step.wait [of "sys m p w" w'] by simp

lemma one_conn:
  "wait_step (sys (single [(7, 7)] [] g) Open w) (sys (single [(7, 7)] [(7, 7)] g) Entered w)"
  "wait_step (sys (single [(7, 7)] [(7, 7)] g) Entered w) (sys (single [] [(7, 7)] g) Removed w)"
  "wait_step (sys (single [] [(7, 7)] g) Removed w) (sys (single [] [(7, 7)] g) Done w)"
  "wait_step (sys (single [] [(7, 7)] g) Done w) (sys (single [] [] (Suc g)) Finalized w)"
  using conn_step.enter [of "only Open" 7 "single [(7, 7)] [] g"] conn_step.leave [of "only Entered" 7 "single [(7, 7)] [(7, 7)] g"]
    conn_step.close_done [of "only Removed" 7 "single [] [(7, 7)] g"] conn_step.mark [of "only Done" 7 "single [] [(7, 7)] g"]
  by (intro sys_conn; simp add: single_def remove_begin_def remove_end_def markFinalized_def selectGroup_def map_delete_def)+

lemma one_wait:
  "wait_step (sys (single [(7, 7)] [] 0) Open (WGroups 0 [])) (sys (single [(7, 7)] [] 0) Open (WGroups (Suc 0) [7]))"
  "wait_step (sys (single [(7, 7)] [] 0) Open (WGroups (Suc 0) [7])) (sys (single [(7, 7)] [] 0) Open (WFinalizing [7]))"
  "wait_step (sys (single [(7, 7)] [] 0) Open (WFinalizing [7])) (sys (single [(7, 7)] [] 0) Open (WWait [7]))"
  "wait_step (sys (single [] [(7, 7)] 0) Done (WWait [7])) (sys (single [] [(7, 7)] 0) Done (WWait []))"
  "wait_step (sys (single [] [(7, 7)] 0) Done (WWait [])) (sys (single [] [(7, 7)] 0) Done WCheck)"
  "wait_step (sys (single [] [(7, 7)] 0) Done WCheck) (sys (single [] [(7, 7)] 0) Done (WBlocked 0))"
  "wait_step (sys (single [] [] (Suc 0)) Finalized (WBlocked 0)) (sys (single [] [] (Suc 0)) Finalized (WGroups 0 []))"
  "wait_step (sys (single [] [] (Suc 0)) Finalized (WGroups 0 [])) (sys (single [] [] (Suc 0)) Finalized (WGroups (Suc 0) []))"
  "wait_step (sys (single [] [] (Suc 0)) Finalized (WGroups (Suc 0) [])) (sys (single [] [] (Suc 0)) Finalized (WFinalizing []))"
  "wait_step (sys (single [] [] (Suc 0)) Finalized (WFinalizing [])) (sys (single [] [] (Suc 0)) Finalized (WReturned None))"
  by (rule sys_wait, simp add: waitAll_step.simps single_def finalizationState_def done_closed_def)+

lemma then_step: "wait_step s t \<Longrightarrow> wait_step\<^sup>*\<^sup>* t u \<Longrightarrow> wait_step\<^sup>*\<^sup>* s u"
  by (rule converse_rtranclp_into_rtranclp)

lemma one_sleeps:
  "wait_step\<^sup>*\<^sup>* (sys (single [(7, 7)] [] 0) Open (WGroups 0 [])) (sys (single [] [(7, 7)] 0) Done (WBlocked 0))"
  by (rule then_step [OF one_wait(1)] then_step [OF one_wait(2)]
      then_step [OF one_wait(3)] then_step [OF one_conn(1)]
      then_step [OF one_conn(2)] then_step [OF one_conn(3)]
      then_step [OF one_wait(4)] then_step [OF one_wait(5)]
      then_step [OF one_wait(6)] rtranclp.rtrancl_refl)+

lemma one_returns:
  "wait_step\<^sup>*\<^sup>* (sys (single [(7, 7)] [] 0) Open (WGroups 0 [])) (sys (single [] [] (Suc 0)) Finalized (WReturned None))"
  by (rule rtranclp_trans [OF one_sleeps])
    (rule then_step [OF one_conn(4)] then_step [OF one_wait(7)]
      then_step [OF one_wait(8)] then_step [OF one_wait(9)]
      then_step [OF one_wait(10)] rtranclp.rtrancl_refl)+

section \<open>Properties\<close>

text \<open>
  C12. The groups of the manager are invisible: for every sequence of operations on a manager
  with at least one group, additions, removals and finalizations act as on one map from IDs to
  connections, \<open>connectionsCount\<close> is the number of its entries and \<open>snapshot\<close> yields exactly
  its connections.\<close>

theorem manager_refines:
  assumes "0 < n"
  shows "map_option (apsnd abs_manager) (run_ops (manager_step ID) ops (newConnectionManager n)) =
    run_ops (registry_step ID) ops \<lparr>active = Map.empty, leaving = Map.empty, changes = 0\<rparr>"
  using mg.run_refines [OF newConnectionManager_refines(1) [OF assms], of ID ops]
  by (simp add: newConnectionManager_refines(2) [OF assms])

theorem manager_refines_witness:
  "map_option (apsnd abs_manager) (run_ops (manager_step id) [MAdd 7, MAdd 12, MCount, MRemove 7, MCount] (newConnectionManager 5)) =
   run_ops (registry_step id) [MAdd 7, MAdd 12, MCount, MRemove 7, MCount] \<lparr>active = Map.empty, leaving = Map.empty, changes = 0\<rparr>"
  by (rule manager_refines) simp

text \<open>
  C6. \<open>waitAll\<close> misses no connection. However its steps interleave with connections that are
  added, removed and finalized, when it returns without an error every connection that was
  registered at the time of the call, in a group or among those being finalized, has been
  finalized.\<close>

theorem waitAll_complete:
  assumes "0 < n" and "conn_step\<^sup>*\<^sup>* (newConnectionManager n, \<lambda>_. Absent) (m, ph)"
    and "wait_step\<^sup>*\<^sup>* \<lparr>mgr = m, phase = ph, waiter = WGroups 0 []\<rparr> s"
    and "waiter s = WReturned None" and "registered ph c"
  shows "phase s c = Finalized"
proof -
  have "books m ph" by (rule books_run [OF assms(2) books_new [OF assms(1)]])
  with wait_run_invs [OF assms(3)] assms(4,5) show ?thesis by (auto simp: registered_def)
qed

theorem waitAll_complete_witness:
  "registered (only Open) 7 \<and>
   wait_step\<^sup>*\<^sup>* (sys (single [(7, 7)] [] 0) Open (WGroups 0 [])) (sys (single [] [] (Suc 0)) Finalized (WReturned None)) \<and>
   phase (sys (single [] [] (Suc 0)) Finalized (WReturned None)) 7 = Finalized"
  using waitAll_complete [OF _ one_added one_returns, of 7] one_returns by (simp add: registered_def)

text \<open>
  C29. \<open>waitAll\<close> never sleeps through the last change: while it is blocked and has not been
  woken, some connection is still being finalized, and the step that finalizes a connection
  wakes it.\<close>

theorem waitAll_no_lost_wakeup:
  assumes "0 < n" and "conn_step\<^sup>*\<^sup>* (newConnectionManager n, \<lambda>_. Absent) (m, ph)"
    and "wait_step\<^sup>*\<^sup>* \<lparr>mgr = m, phase = ph, waiter = WGroups 0 []\<rparr> s"
    and "waiter s = WBlocked g"
  shows "waitAll_step (mgr s, phase s) (WBlocked g) (WGroups 0 []) \<or>
    (\<exists>c. phase s c \<in> {Entered, Removed, Done} \<and>
       waitAll_step (markFinalized id c (mgr s), (phase s)(c := Finalized)) (WBlocked g) (WGroups 0 []))"
proof -
  have "books m ph" by (rule books_run [OF assms(2) books_new [OF assms(1)]])
  with wait_run_invs [OF assms(3)] have "sleeps_ok s" by simp
  then show ?thesis
    using assms(4) waitAll_step.wake [of "mgr s" g] waitAll_step.wake [of "markFinalized id c (mgr s)" g for c]
    by (cases "finalizingChange (mgr s) = g") (auto simp: sleeps_ok_def markFinalized_def)
qed

theorem waitAll_no_lost_wakeup_witness:
  "\<exists>c. only Done c \<in> {Entered, Removed, Done} \<and>
     waitAll_step (markFinalized id c (single [] [(7, 7)] 0), (only Done)(c := Finalized)) (WBlocked 0) (WGroups 0 [])"
proof -
  have "\<not> waitAll_step (single [] [(7, 7)] 0, only Done) (WBlocked 0) (WGroups 0 [])"
    by (simp add: waitAll_step.simps single_def)
  with waitAll_no_lost_wakeup [OF _ one_added one_sleeps, of 0] show ?thesis by simp
qed

end
