(* ===== verification/Frame_Decoder.thy ===== *)
theory Frame_Decoder
  imports Errors
begin

text \<open>
  The length-field frame decoder, \<open>src/frame_decoder.go\<close>: its options and their validation,
  the reading and adjustment of the length field, the extraction of one frame and the
  stateful loop that splits the buffered bytes into frames. Lengths and offsets are kept at
  64 bits, signed (\<open>int\<close>, read with \<open>sint\<close>) or unsigned (\<open>uint64\<close>) as in the code, since the
  validation is there to exclude overflow. The locale \<open>framing\<close> states what the loop needs of
  one extraction step, and the lemmas about the loop are proved once inside it.
\<close>

section \<open>Options\<close>

text \<open>
  \<open>binary.ByteOrder\<close> values of the standard library. \<open>NativeEndian\<close> (since Go 1.21) is a type
  of its own that behaves like the machine's order, here little-endian, and is not equal to
  \<open>LittleEndian\<close>.
\<close>

datatype ByteOrder = LittleEndian | BigEndian | NativeEndian

fun ByteOrder_Uint16 :: "ByteOrder \<Rightarrow> byte list \<Rightarrow> (go_error, uint16) outcome" where
  "ByteOrder_Uint16 BigEndian bs = be_Uint16 bs"
| "ByteOrder_Uint16 _ bs = le_Uint16 bs"

fun ByteOrder_Uint32 :: "ByteOrder \<Rightarrow> byte list \<Rightarrow> (go_error, uint32) outcome" where
  "ByteOrder_Uint32 BigEndian bs = be_Uint32 bs"
| "ByteOrder_Uint32 _ bs = le_Uint32 bs"

fun ByteOrder_Uint64 :: "ByteOrder \<Rightarrow> byte list \<Rightarrow> (go_error, uint64) outcome" where
  "ByteOrder_Uint64 BigEndian bs = be_Uint64 bs"
| "ByteOrder_Uint64 _ bs = le_Uint64 bs"

text \<open>The options; \<open>None\<close> is the nil \<open>ByteOrder\<close>. The decoder embeds them and adds its state.\<close>

record FrameDecoderOptions =
  FD_ByteOrder :: "ByteOrder option"
  FD_MaxFrameLength :: uint64
  LengthFieldOffset :: goint
  LengthFieldLength :: goint
  LengthAdjustment :: goint
  InitialBytesToStrip :: goint

record FrameDecoder = FrameDecoderOptions +
  lengthFieldEndOffset :: goint
  decoder_bytes :: "byte list"

definition defaultFrameDecoderOptions :: FrameDecoderOptions where
  "defaultFrameDecoderOptions = \<lparr>FD_ByteOrder = Some LittleEndian, FD_MaxFrameLength = push_bit 20 1,
     LengthFieldOffset = 0, LengthFieldLength = 0, LengthAdjustment = 0, InitialBytesToStrip = 0\<rparr>"

type_synonym FrameDecoderOption = "FrameDecoderOptions \<Rightarrow> FrameDecoderOptions"

definition WithByteOrder :: "ByteOrder option \<Rightarrow> FrameDecoderOption" where
  "WithByteOrder byteOrder = (\<lambda>o'. o'\<lparr>FD_ByteOrder := byteOrder\<rparr>)"

definition WithMaxFrameLength :: "uint64 \<Rightarrow> FrameDecoderOption" where
  "WithMaxFrameLength maxFrameLength = (\<lambda>o'. o'\<lparr>FD_MaxFrameLength := maxFrameLength\<rparr>)"

definition WithLengthFieldOffset :: "goint \<Rightarrow> FrameDecoderOption" where
  "WithLengthFieldOffset lengthFieldOffset = (\<lambda>o'. o'\<lparr>LengthFieldOffset := lengthFieldOffset\<rparr>)"

definition WithLengthFieldLength :: "goint \<Rightarrow> FrameDecoderOption" where
  "WithLengthFieldLength lengthFieldLength = (\<lambda>o'. o'\<lparr>LengthFieldLength := lengthFieldLength\<rparr>)"

definition WithLengthAdjustment :: "goint \<Rightarrow> FrameDecoderOption" where
  "WithLengthAdjustment lengthAdjustment = (\<lambda>o'. o'\<lparr>LengthAdjustment := lengthAdjustment\<rparr>)"

definition WithInitialBytesToStrip :: "goint \<Rightarrow> FrameDecoderOption" where
  "WithInitialBytesToStrip initialBytesToStrip =
     (\<lambda>o'. o'\<lparr>InitialBytesToStrip := initialBytesToStrip\<rparr>)"

lemmas FrameDecoderOption_defs =
  WithByteOrder_def WithMaxFrameLength_def WithLengthFieldOffset_def WithLengthFieldLength_def
  WithLengthAdjustment_def WithInitialBytesToStrip_def defaultFrameDecoderOptions_def

section \<open>Validation and construction\<close>

definition maxRepresentableUnadjustedLength :: "goint \<Rightarrow> go_error + uint64" where
  "maxRepresentableUnadjustedLength lengthFieldLength =
     (if lengthFieldLength = 1 then Inr MaxUint8
      else if lengthFieldLength = 2 then Inr MaxUint16
      else if lengthFieldLength = 3 then Inr (push_bit 24 1 - 1)
      else if lengthFieldLength = 4 then Inr MaxUint32
      else if lengthFieldLength = 8 then Inr MaxInt64
      else Inl (ErrInvalidConfiguration LengthFieldLengthUnsupported))"

text \<open>The result is the error returned, \<open>None\<close> for \<open>nil\<close>.\<close>

definition validateConfiguration :: "FrameDecoder \<Rightarrow> go_error option" where
  "validateConfiguration d =
     (if FD_ByteOrder d = None then Some (ErrInvalidConfiguration ByteOrderNil)
      else if LengthFieldLength d \<notin> {1, 2, 3, 4, 8}
        then Some (ErrInvalidConfiguration LengthFieldLengthUnsupported)
      else if sint (LengthFieldOffset d) < 0
        then Some (ErrInvalidConfiguration LengthFieldOffsetNegative)
      else if sint (InitialBytesToStrip d) < 0
        then Some (ErrInvalidConfiguration InitialBytesToStripNegative)
      else if FD_MaxFrameLength d = 0 then Some (ErrInvalidConfiguration MaxFrameLengthZero)
      else if sint (lengthFieldEndOffset d) < 0
        then Some (ErrInvalidConfiguration LengthFieldEndOffsetOverflow)
      else let platformMaxInt = maxInt;
               effectiveMax = (if FD_MaxFrameLength d > platformMaxInt then platformMaxInt
                               else FD_MaxFrameLength d)
        in if lengthFieldEndOffset d > effectiveMax
             then Some (ErrInvalidConfiguration LengthFieldEndOffsetTooLarge)
           else if LengthAdjustment d = MinInt64
             then Some (ErrInvalidConfiguration LengthAdjustmentMinInt)
           else case maxRepresentableUnadjustedLength (LengthFieldLength d) of
             Inl err \<Rightarrow> Some err
           | Inr maxRepresentableUnadjusted \<Rightarrow>
               if sint (LengthAdjustment d) < 0 then
                 if - LengthAdjustment d > maxRepresentableUnadjusted
                   then Some (ErrInvalidConfiguration NegativeAdjustmentTooLarge)
                 else None
               else if LengthAdjustment d > effectiveMax - lengthFieldEndOffset d
                 then Some (ErrInvalidConfiguration PositiveAdjustmentTooLarge)
               else None)"

text \<open>\<open>None\<close> in the list is a nil option.\<close>

fun applyFrameDecoderOptions ::
  "FrameDecoderOptions \<Rightarrow> FrameDecoderOption option list \<Rightarrow> (go_error, FrameDecoderOptions) outcome"
where
  "applyFrameDecoderOptions opts [] = Ok opts"
| "applyFrameDecoderOptions opts (None # _) = Err (ErrInvalidConfiguration OptionNil)"
| "applyFrameDecoderOptions opts (Some option # rest) = applyFrameDecoderOptions (option opts) rest"

definition NewFrameDecoder :: "FrameDecoderOption option list \<Rightarrow> (go_error, FrameDecoder) outcome" where
  "NewFrameDecoder options =
     obind (applyFrameDecoderOptions defaultFrameDecoderOptions options) (\<lambda>opts.
       let frameDecoder = FrameDecoderOptions.extend opts
             (FrameDecoder.fields (LengthFieldOffset opts + LengthFieldLength opts) [])
       in case validateConfiguration frameDecoder of
            Some err \<Rightarrow> Err err
          | None \<Rightarrow> Ok frameDecoder)"

section \<open>One frame\<close>

definition readLengthField :: "FrameDecoder \<Rightarrow> byte list \<Rightarrow> (go_error, uint64) outcome" where
  "readLengthField d input =
     obind (goslice input (sint (LengthFieldOffset d)) (sint (lengthFieldEndOffset d))) (\<lambda>field.
       if LengthFieldLength d = 1 then
         (case field of b0 # _ \<Rightarrow> Ok (ucast b0) | [] \<Rightarrow> Panic)
       else if LengthFieldLength d = 2 then
         (case FD_ByteOrder d of None \<Rightarrow> Panic
          | Some order \<Rightarrow> obind (ByteOrder_Uint16 order field) (\<lambda>v. Ok (ucast v)))
       else if LengthFieldLength d = 3 then
         (case field of
            b0 # b1 # b2 # _ \<Rightarrow>
              if FD_ByteOrder d = Some LittleEndian
              then Ok (ucast b0 OR push_bit 8 (ucast b1) OR push_bit 16 (ucast b2))
              else Ok (ucast b2 OR push_bit 8 (ucast b1) OR push_bit 16 (ucast b0))
          | _ \<Rightarrow> Panic)
       else if LengthFieldLength d = 4 then
         (case FD_ByteOrder d of None \<Rightarrow> Panic
          | Some order \<Rightarrow> obind (ByteOrder_Uint32 order field) (\<lambda>v. Ok (ucast v)))
       else if LengthFieldLength d = 8 then
         (case FD_ByteOrder d of None \<Rightarrow> Panic
          | Some order \<Rightarrow> obind (ByteOrder_Uint64 order field) (\<lambda>v.
              if v > MaxInt64 then Err (ErrInvalidFrame LengthFieldExceedsInt64) else Ok v))
       else Err (ErrInvalidConfiguration LengthFieldLengthUnsupported))"

text \<open>\<open>None\<close> is the result \<open>(0, false)\<close>.\<close>

definition adjustFrameLength :: "FrameDecoder \<Rightarrow> uint64 \<Rightarrow> uint64 option" where
  "adjustFrameLength d unadjusted =
     (if unadjusted > MaxUint64 - lengthFieldEndOffset d then None
      else let adjusted = unadjusted + lengthFieldEndOffset d;
               adjustment = LengthAdjustment d
        in if 0 \<le> sint adjustment then
             if adjusted > MaxUint64 - adjustment then None else Some (adjusted + adjustment)
           else if adjustment = MinInt64 then None
           else let negative = - adjustment
             in if adjusted < negative then None else Some (adjusted - negative))"

text \<open>The result is \<open>(frame, consumed, complete)\<close>, or the error.\<close>

definition decodeOne :: "FrameDecoder \<Rightarrow> byte list \<Rightarrow> (go_error, byte list \<times> goint \<times> bool) outcome" where
  "decodeOne d input =
     (if int (length input) < sint (lengthFieldEndOffset d) then Ok ([], 0, False)
      else obind (readLengthField d input) (\<lambda>unadjustedFrameLength.
        case adjustFrameLength d unadjustedFrameLength of
          None \<Rightarrow> Err (ErrInvalidFrame AdjustedLengthOverflow)
        | Some frameLength \<Rightarrow>
            if frameLength < lengthFieldEndOffset d
              then Err (ErrInvalidFrame AdjustedLengthBelowHeader)
            else if frameLength > FD_MaxFrameLength d then Err ErrFrameTooLarge
            else if frameLength > maxInt then Err (ErrInvalidFrame AdjustedLengthExceedsInt)
            else if int (length input) < sint frameLength then Ok ([], 0, False)
            else if sint (InitialBytesToStrip d) > sint frameLength
              then Err (ErrInvalidFrame StripExceedsFrame)
            else obind (goslice input (sint (InitialBytesToStrip d)) (sint frameLength)) (\<lambda>frame.
              Ok (frame, frameLength, True))))"

section \<open>The decoding loop\<close>

text \<open>
  The loop of \<open>Decode\<close> over the buffer \<open>d.bytes\<close>, threaded as an argument; the result is the
  outcome and the buffer left behind. The loop has no bound in the code, so not returning is
  a value of the model, \<open>None\<close>.
\<close>

partial_function (option) decode_loop ::
  "FrameDecoder \<Rightarrow> byte list \<Rightarrow> byte list list \<Rightarrow>
   ((go_error, byte list list) outcome \<times> byte list) option"
where
  "decode_loop d buf frames =
     (case decodeOne d buf of
        Err err \<Rightarrow> Some (Err err, [])
      | Panic \<Rightarrow> Some (Panic, buf)
      | Ok (frame, consumed, complete) \<Rightarrow>
          if \<not> complete then Some (Ok frames, buf)
          else (case goslice buf (sint consumed) (int (length buf)) of
                  Ok rest \<Rightarrow> decode_loop d rest (frames @ [frame])
                | Err err \<Rightarrow> Some (Err err, buf)
                | Panic \<Rightarrow> Some (Panic, buf)))"

definition FrameDecoder_Decode ::
  "FrameDecoder \<Rightarrow> byte list \<Rightarrow> ((go_error, byte list list) outcome \<times> FrameDecoder) option" where
  "FrameDecoder_Decode d input =
     map_option (\<lambda>(result, buf). (result, d\<lparr>decoder_bytes := buf\<rparr>))
       (decode_loop d (decoder_bytes d @ input) [])"

section \<open>What a validated configuration guarantees\<close>

definition valid_decoder :: "FrameDecoder \<Rightarrow> bool" where
  "valid_decoder d \<longleftrightarrow> validateConfiguration d = None \<and>
     lengthFieldEndOffset d = LengthFieldOffset d + LengthFieldLength d"

lemma validateConfiguration_bytes [simp]:
  "validateConfiguration (d\<lparr>decoder_bytes := bs\<rparr>) = validateConfiguration d"
  unfolding validateConfiguration_def Let_def by (simp cong: sum.case_cong if_cong)

lemma valid_decoder_bytes [simp]: "valid_decoder (d\<lparr>decoder_bytes := bs\<rparr>) = valid_decoder d"
  by (simp add: valid_decoder_def)

lemma NewFrameDecoder_Ok:
  "NewFrameDecoder options = Ok d \<Longrightarrow> valid_decoder d \<and> decoder_bytes d = []"
  by (auto simp: NewFrameDecoder_def obind_iffs valid_decoder_def Let_def
      FrameDecoderOptions.defs FrameDecoder.defs split: option.splits)

lemma valid_decoderD:
  assumes "valid_decoder d"
  shows "\<exists>order. FD_ByteOrder d = Some order"
    and "LengthFieldLength d \<in> {1, 2, 3, 4, 8}"
    and "0 \<le> sint (LengthFieldOffset d)" and "0 \<le> sint (InitialBytesToStrip d)"
    and "0 \<le> sint (lengthFieldEndOffset d)"
    and "lengthFieldEndOffset d \<le> FD_MaxFrameLength d"
    and "lengthFieldEndOffset d = LengthFieldOffset d + LengthFieldLength d"
    and "LengthAdjustment d \<noteq> MinInt64"
  using assms
  by (auto simp: valid_decoder_def validateConfiguration_def Let_def not_less
      split: if_splits)

text \<open>The header ends after the length field, without wrap-around.\<close>

lemma valid_decoder_end:
  assumes "valid_decoder d"
  shows "unat (lengthFieldEndOffset d) = unat (LengthFieldOffset d) + unat (LengthFieldLength d)"
    and "1 \<le> unat (lengthFieldEndOffset d)"
proof -
  note v = valid_decoderD [OF assms]
  have len: "1 \<le> unat (LengthFieldLength d)" "unat (LengthFieldLength d) \<le> 8"
    using v(2) by auto
  moreover have "unat (LengthFieldOffset d) < 2 ^ 63"
    using v(3) by (simp add: sint_nonneg_iff)
  ultimately show "unat (lengthFieldEndOffset d) = unat (LengthFieldOffset d) + unat (LengthFieldLength d)"
    by (simp add: v(7) unat_word_ariths)
  with len show "1 \<le> unat (lengthFieldEndOffset d)" by linarith
qed

lemma length_field_slice:
  assumes "valid_decoder d" and "unat (lengthFieldEndOffset d) \<le> length input"
  shows "\<exists>field. (goslice input (sint (LengthFieldOffset d)) (sint (lengthFieldEndOffset d))
             :: (go_error, byte list) outcome) = Ok field
           \<and> length field = unat (LengthFieldLength d)"
proof -
  note v = valid_decoderD(3,5) [OF assms(1), THEN sint_int_unat] valid_decoder_end(1) [OF assms(1)]
  show ?thesis
    unfolding v(1,2) using assms(2) by (subst goslice_nat) (simp_all add: v(3))
qed

lemma list_of_length_cases:
  "length xs = 1 \<Longrightarrow> \<exists>a. xs = [a]"
  "length xs = 2 \<Longrightarrow> \<exists>a b. xs = [a, b]"
  "length xs = 3 \<Longrightarrow> \<exists>a b c. xs = [a, b, c]"
  "length xs = 4 \<Longrightarrow> \<exists>a b c d. xs = [a, b, c, d]"
  "length xs = 8 \<Longrightarrow> \<exists>a b c d e f g h. xs = [a, b, c, d, e, f, g, h]"
  by (auto simp: length_Suc_conv numeral_eq_Suc)

text \<open>With a validated configuration the length field can be read whenever the header is there.\<close>

lemma readLengthField_no_panic:
  assumes "valid_decoder d" and "unat (lengthFieldEndOffset d) \<le> length input"
  shows "readLengthField d input \<noteq> Panic"
proof -
  obtain field where f: "(goslice input (sint (LengthFieldOffset d)) (sint (lengthFieldEndOffset d))
      :: (go_error, byte list) outcome) = Ok field"
    and len: "length field = unat (LengthFieldLength d)"
    using length_field_slice [OF assms] by blast
  obtain order where order: "FD_ByteOrder d = Some order"
    using valid_decoderD(1) [OF assms(1)] by blast
  from valid_decoderD(2) [OF assms(1)] consider "LengthFieldLength d = 1" | "LengthFieldLength d = 2"
    | "LengthFieldLength d = 3" | "LengthFieldLength d = 4" | "LengthFieldLength d = 8"
    by auto
  then show ?thesis
  proof cases
    case 1
    with f len list_of_length_cases(1) [of field] show ?thesis
      by (auto simp: readLengthField_def)
  next
    case 2
    with f len order list_of_length_cases(2) [of field] show ?thesis
      by (cases order) (auto simp: readLengthField_def)
  next
    case 3
    with f len order list_of_length_cases(3) [of field] show ?thesis
      by (auto simp: readLengthField_def split: if_splits)
  next
    case 4
    with f len order list_of_length_cases(4) [of field] show ?thesis
      by (cases order) (auto simp: readLengthField_def)
  next
    case 5
    with f len order list_of_length_cases(5) [of field] show ?thesis
      by (cases order) (auto simp: readLengthField_def split: if_splits)
  qed
qed

text \<open>Bytes behind the header do not matter for the length field.\<close>

lemma readLengthField_append:
  assumes "sint (lengthFieldEndOffset d) \<le> int (length input)"
  shows "readLengthField d (input @ ys) = readLengthField d input"
  using assms by (simp add: readLengthField_def goslice_append)

section \<open>The contract of one extraction step\<close>

text \<open>
  What the loop relies on: a step does not panic, a complete frame or an error found in a
  prefix of the buffer stays what it is when more bytes arrive, and a frame consumes at least
  one byte, all of it buffered. The loop itself is given by its unfolding.
\<close>

locale framing =
  fixes ok :: "'d \<Rightarrow> bool"
    and one :: "'d \<Rightarrow> byte list \<Rightarrow> (go_error, byte list \<times> goint \<times> bool) outcome"
    and loop :: "'d \<Rightarrow> byte list \<Rightarrow> byte list list \<Rightarrow>
      ((go_error, byte list list) outcome \<times> byte list) option"
  assumes one_no_panic: "ok d \<Longrightarrow> one d buf \<noteq> Panic"
    and one_complete_append:
      "ok d \<Longrightarrow> one d buf = Ok (f, n, True) \<Longrightarrow> one d (buf @ ys) = Ok (f, n, True)"
    and one_error_append: "ok d \<Longrightarrow> one d buf = Err e \<Longrightarrow> one d (buf @ ys) = Err e"
    and one_progress:
      "ok d \<Longrightarrow> one d buf = Ok (f, n, True) \<Longrightarrow> 0 < sint n \<and> sint n \<le> int (length buf)"
    and loop_unfold: "loop d buf frames =
      (case one d buf of
         Err err \<Rightarrow> Some (Err err, [])
       | Panic \<Rightarrow> Some (Panic, buf)
       | Ok (frame, consumed, complete) \<Rightarrow>
           if \<not> complete then Some (Ok frames, buf)
           else (case goslice buf (sint consumed) (int (length buf)) of
                   Ok rest \<Rightarrow> loop d rest (frames @ [frame])
                 | Err err \<Rightarrow> Some (Err err, buf)
                 | Panic \<Rightarrow> Some (Panic, buf)))"
begin

lemma loop_error: "one d buf = Err e \<Longrightarrow> loop d buf fs = Some (Err e, [])"
  by (subst loop_unfold) simp

lemma loop_incomplete: "one d buf = Ok (f, n, False) \<Longrightarrow> loop d buf fs = Some (Ok fs, buf)"
  by (subst loop_unfold) simp

lemma loop_complete:
  assumes "ok d" and "one d buf = Ok (f, n, True)"
  shows "loop d buf fs = loop d (drop (nat (sint n)) buf) (fs @ [f])"
  using one_progress [OF assms] assms(2)
  by (subst loop_unfold) (simp add: nat_diff_distrib')

lemma loop_complete_append:
  assumes "ok d" and "one d xs = Ok (f, n, True)"
  shows "loop d (xs @ ys) fs = loop d (drop (nat (sint n)) xs @ ys) (fs @ [f])"
  using loop_complete [OF assms(1) one_complete_append [OF assms]] one_progress [OF assms]
  by (simp add: nat_le_iff)

text \<open>The three ways a step can go, for a valid decoder.\<close>

lemma one_cases [consumes 1, case_names error incomplete complete]:
  assumes "ok d"
  obtains e where "one d buf = Err e"
  | f n where "one d buf = Ok (f, n, False)"
  | f n where "one d buf = Ok (f, n, True)" "length (drop (nat (sint n)) buf) < length buf"
proof (cases "one d buf")
  case (Ok r)
  then obtain f n c where r: "one d buf = Ok (f, n, c)"
    by (metis prod_cases3)
  show ?thesis
  proof (cases c)
    case True
    with r one_progress [OF assms] have "length (drop (nat (sint n)) buf) < length buf"
      by fastforce
    with r True show ?thesis by (intro that(3)) simp_all
  next
    case False
    with r show ?thesis by (intro that(2)) simp
  qed
qed (use that(1) one_no_panic [OF assms] in auto)

text \<open>The loop always ends: with an error and an empty buffer, or with frames and a buffer that
  holds no complete frame.\<close>

lemma loop_result:
  assumes "ok d"
  shows "(\<exists>e. loop d buf fs = Some (Err e, [])) \<or>
         (\<exists>gs rest f n. loop d buf fs = Some (Ok (fs @ gs), rest) \<and> one d rest = Ok (f, n, False))"
proof (induction buf arbitrary: fs rule: length_induct)
  case (1 buf)
  from assms show ?case
  proof (cases rule: one_cases [where buf = buf])
    case (error e)
    then show ?thesis by (simp add: loop_error)
  next
    case (incomplete f n)
    then show ?thesis by (auto simp: loop_incomplete)
  next
    case (complete f n)
    with 1 loop_complete [OF assms complete(1), of fs] show ?thesis
      by (metis append.assoc)
  qed
qed

text \<open>An error of the loop is an error of one of its rounds.\<close>

lemma loop_error_source:
  assumes "ok d" and "loop d buf fs = Some (Err e, rest)"
  shows "\<exists>buf'. one d buf' = Err e"
  using assms(2)
proof (induction buf arbitrary: fs rule: length_induct)
  case (1 buf)
  from assms(1) show ?case
  proof (cases rule: one_cases [where buf = buf])
    case (complete f n)
    with 1 loop_complete [OF assms(1) complete(1), of fs] show ?thesis by metis
  qed (use 1 in \<open>auto simp: loop_error loop_incomplete\<close>)
qed

text \<open>The frames found so far are only carried along.\<close>

lemma loop_acc:
  assumes "ok d"
  shows "loop d buf (as @ fs) =
    map_option (\<lambda>(r, rest). (case r of Ok gs \<Rightarrow> Ok (as @ gs) | x \<Rightarrow> x, rest)) (loop d buf fs)"
proof (induction buf arbitrary: fs rule: length_induct)
  case (1 buf)
  from assms show ?case
  proof (cases rule: one_cases [where buf = buf])
    case (complete f n)
    with 1 show ?thesis
      by (simp add: loop_complete [OF assms complete(1)])
  qed (simp_all add: loop_error loop_incomplete)
qed

text \<open>More input after a successful run: the loop goes on from the bytes that were left.\<close>

lemma loop_append:
  assumes "ok d" and "loop d xs fs = Some (Ok gs, rest)"
  shows "loop d (xs @ ys) fs = loop d (rest @ ys) gs"
  using assms(2)
proof (induction xs arbitrary: fs rule: length_induct)
  case (1 xs)
  from assms(1) show ?case
  proof (cases rule: one_cases [where buf = xs])
    case (complete f n)
    with 1 loop_complete [OF assms(1) complete(1), of fs]
      loop_complete_append [OF assms(1) complete(1), of ys fs] show ?thesis
      by metis
  qed (use 1 in \<open>simp_all add: loop_error loop_incomplete\<close>)
qed

lemma loop_error_append:
  assumes "ok d" and "loop d xs fs = Some (Err e, rest)"
  shows "loop d (xs @ ys) fs = Some (Err e, [])"
  using assms(2)
proof (induction xs arbitrary: fs rule: length_induct)
  case (1 xs)
  from assms(1) show ?case
  proof (cases rule: one_cases [where buf = xs])
    case (error e')
    with 1 one_error_append [OF assms(1) error] show ?thesis by (simp add: loop_error)
  next
    case (incomplete f n)
    with 1 show ?thesis by (simp add: loop_incomplete)
  next
    case (complete f n)
    with 1 loop_complete [OF assms(1) complete(1), of fs]
      loop_complete_append [OF assms(1) complete(1), of ys fs] show ?thesis
      by metis
  qed
qed

end

section \<open>The frame decoder meets the contract\<close>

lemma end_offset_le_iff:
  "valid_decoder d \<Longrightarrow>
   int n < sint (lengthFieldEndOffset d) \<longleftrightarrow> n < unat (lengthFieldEndOffset d)"
  by (simp only: sint_int_unat [OF valid_decoderD(5)] of_nat_less_iff)

lemma frame_length_nonneg:
  assumes "\<not> maxInt < frameLength"
  shows "0 \<le> sint frameLength"
  using assms by (simp add: sint_nonneg_iff not_less word_le_nat_alt)

lemma decodeOne_frame:
  assumes "decodeOne d buf = Ok (f, n, True)"
  shows "\<not> n < lengthFieldEndOffset d" and "\<not> FD_MaxFrameLength d < n" and "\<not> maxInt < n"
    and "\<not> int (length buf) < sint n"
    and "goslice buf (sint (InitialBytesToStrip d)) (sint n) = (Ok f :: (go_error, byte list) outcome)"
    and "\<exists>u. readLengthField d buf = Ok u \<and> adjustFrameLength d u = Some n"
proof -
  have hdr: "\<not> int (length buf) < sint (lengthFieldEndOffset d)"
    using assms by (auto simp: decodeOne_def)
  with assms obtain u where u: "readLengthField d buf = Ok u"
    by (auto simp: decodeOne_def obind_Ok_iff)
  with assms hdr obtain fl where fl: "adjustFrameLength d u = Some fl"
    by (cases "adjustFrameLength d u") (auto simp: decodeOne_def)
  have "\<not> fl < lengthFieldEndOffset d \<and> \<not> FD_MaxFrameLength d < fl \<and> \<not> maxInt < fl
      \<and> \<not> int (length buf) < sint fl \<and> fl = n
      \<and> goslice buf (sint (InitialBytesToStrip d)) (sint n) = (Ok f :: (go_error, byte list) outcome)"
    using assms unfolding decodeOne_def
    by (auto simp: hdr u fl obind_Ok_iff split: if_splits)
  with u fl show "\<not> n < lengthFieldEndOffset d" "\<not> FD_MaxFrameLength d < n" "\<not> maxInt < n"
    "\<not> int (length buf) < sint n"
    "goslice buf (sint (InitialBytesToStrip d)) (sint n) = (Ok f :: (go_error, byte list) outcome)"
    "\<exists>u. readLengthField d buf = Ok u \<and> adjustFrameLength d u = Some n"
    by auto
qed

text \<open>What is known of a complete frame: its length is the adjusted length, within every bound.\<close>

lemma decodeOne_complete:
  assumes "valid_decoder d" and "decodeOne d buf = Ok (f, n, True)"
  shows "lengthFieldEndOffset d \<le> n" and "n \<le> FD_MaxFrameLength d" and "0 \<le> sint n"
    and "sint n \<le> int (length buf)"
    and "f = drop (unat (InitialBytesToStrip d)) (take (unat n) buf)"
proof -
  note strip = valid_decoderD(4) [OF assms(1)]
  note * = decodeOne_frame [OF assms(2)]
  then show "lengthFieldEndOffset d \<le> n" "n \<le> FD_MaxFrameLength d" "sint n \<le> int (length buf)"
    by simp_all
  show n: "0 \<le> sint n" using *(3) by (rule frame_length_nonneg)
  show "f = drop (unat (InitialBytesToStrip d)) (take (unat n) buf)"
    using *(5) by (simp only: sint_int_unat [OF strip] sint_int_unat [OF n] goslice_nat_Ok_iff)
qed

lemma decodeOne_no_panic:
  assumes "valid_decoder d"
  shows "decodeOne d buf \<noteq> Panic"
proof (cases "int (length buf) < sint (lengthFieldEndOffset d)")
  case True
  then show ?thesis by (simp add: decodeOne_def)
next
  case False
  then have "readLengthField d buf \<noteq> Panic"
    using readLengthField_no_panic [OF assms] end_offset_le_iff [OF assms] by auto
  with False valid_decoderD(4) [OF assms] show ?thesis
    by (auto simp: decodeOne_def obind_iffs split: if_splits option.splits)
qed

text \<open>A decision taken on a prefix of the buffer is not changed by more bytes.\<close>

lemma decodeOne_append:
  assumes "decodeOne d buf \<noteq> Ok ([], 0, False)" and "decodeOne d buf \<noteq> Panic"
  shows "decodeOne d (buf @ ys) = decodeOne d buf"
proof (cases "readLengthField d buf")
  case (Ok u)
  with assms show ?thesis
    by (cases "adjustFrameLength d u")
      (simp_all add: decodeOne_def readLengthField_append goslice_append split: if_splits)
qed (use assms in \<open>simp_all add: decodeOne_def readLengthField_append split: if_splits\<close>)

lemma decodeOne_progress:
  assumes "valid_decoder d" and "decodeOne d buf = Ok (f, n, True)"
  shows "0 < sint n \<and> sint n \<le> int (length buf)"
proof -
  note c = decodeOne_complete [OF assms]
  have "0 < unat n"
    using c(1) valid_decoder_end(2) [OF assms(1)] by (simp add: word_le_nat_alt)
  then have "0 < int (unat n)" by (simp only: of_nat_0_less_iff)
  then show ?thesis using c(4) by (simp only: sint_int_unat [OF c(3)])
qed

interpretation fd: framing valid_decoder decodeOne decode_loop
proof unfold_locales
  show "decode_loop d buf frames =
      (case decodeOne d buf of
         Ok (frame, consumed, complete) \<Rightarrow>
           if \<not> complete then Some (Ok frames, buf)
           else (case goslice buf (sint consumed) (int (length buf)) of
                   Ok rest \<Rightarrow> decode_loop d rest (frames @ [frame])
                 | Err err \<Rightarrow> Some (Err err, buf)
                 | Panic \<Rightarrow> Some (Panic, buf))
       | Err err \<Rightarrow> Some (Err err, [])
       | Panic \<Rightarrow> Some (Panic, buf))" for d buf frames
    by (rule decode_loop.simps)
qed (simp_all add: decodeOne_no_panic decodeOne_append decodeOne_progress)

section \<open>Reference descriptions\<close>

text \<open>
  The adjusted frame length as integer arithmetic without a width: header length plus field
  value plus adjustment, provided neither the intermediate nor the final sum leaves the range
  of \<open>uint64\<close>.
\<close>

definition adjusted_length_spec :: "FrameDecoder \<Rightarrow> uint64 \<Rightarrow> int option" where
  "adjusted_length_spec d unadjusted =
     (let headed = uint unadjusted + sint (lengthFieldEndOffset d);
          total = headed + sint (LengthAdjustment d)
      in if headed < 2 ^ 64 \<and> 0 \<le> total \<and> total < 2 ^ 64 then Some total else None)"

text \<open>Feeding a decoder chunk by chunk, as the readers of the connections do: the frames of all
  chunks in order, up to the first error.\<close>

fun feed :: "FrameDecoder \<Rightarrow> byte list list \<Rightarrow>
  ((go_error, byte list list) outcome \<times> FrameDecoder) option" where
  "feed d [] = Some (Ok [], d)"
| "feed d (chunk # chunks) =
     (case FrameDecoder_Decode d chunk of
        None \<Rightarrow> None
      | Some (Ok frames, d') \<Rightarrow>
          map_option (\<lambda>(result, d''). (case result of Ok gs \<Rightarrow> Ok (frames @ gs) | x \<Rightarrow> x, d''))
            (feed d' chunks)
      | Some (x, d') \<Rightarrow> Some (x, d'))"

lemma uint_neg_word: "sint (w :: goint) < 0 \<Longrightarrow> uint (- w) = - sint w"
proof -
  assume neg: "sint w < 0"
  have "sint w = uint w - 2 ^ 64"
    using neg by (auto simp: sint_eq_uint_minus of_bool_def split: if_splits)
  moreover have "uint w mod 2 ^ 64 = uint w"
    using uint_lt2p [of w] by simp
  moreover have "uint w \<noteq> 0" using neg by (auto simp: uint_0_iff)
  ultimately show ?thesis by (simp add: uint_word_ariths zmod_zminus1_eq_if)
qed

lemma uint_add_negative:
  "sint (a :: goint) < 0 \<Longrightarrow> - sint a \<le> uint x \<Longrightarrow> uint (x + a) = uint x + sint a"
  using uint_sub_if' [of x "- a"] uint_neg_word [of a] by simp

lemma uint_add_no_wrap:
  "uint (a :: uint64) + uint b < 2 ^ 64 \<Longrightarrow> uint (a + b) = uint a + uint b"
  by (simp add: uint_word_ariths)

lemma less_MaxUint64_minus_iff:
  "MaxUint64 - b < (a :: uint64) \<longleftrightarrow> 2 ^ 64 \<le> uint a + uint b"
proof -
  have "uint (MaxUint64 - b) = 2 ^ 64 - 1 - uint b"
    using uint_lt2p [of b] by (simp add: uint_sub_if')
  then show ?thesis by (simp add: word_less_alt) linarith
qed

text \<open>
  The overflow-checked 64-bit computation of the frame length agrees with integer arithmetic: for
  a validated configuration it yields the exact sum of field value, header length and adjustment
  when that sum (and the intermediate one) fits in a \<open>uint64\<close>, and reports overflow otherwise.
\<close>

lemma adjustFrameLength_spec:
  assumes "valid_decoder d"
  shows "map_option uint (adjustFrameLength d u) = adjusted_length_spec d u"
proof -
  let ?e = "lengthFieldEndOffset d" and ?a = "LengthAdjustment d"
  note v = valid_decoderD(5,8) [OF assms]
  have e: "sint ?e = uint ?e" using v(1) by (rule sint_uint_nonneg)
  consider (wrap) "2 ^ 64 \<le> uint u + uint ?e"
    | (pos) "uint u + uint ?e < 2 ^ 64" "0 \<le> sint ?a"
    | (neg) "uint u + uint ?e < 2 ^ 64" "sint ?a < 0"
    by linarith
  then show ?thesis
  proof cases
    case wrap
    then show ?thesis
      by (simp add: adjustFrameLength_def adjusted_length_spec_def less_MaxUint64_minus_iff e Let_def)
  next
    case pos
    then show ?thesis
      using uint_ge_0 [of u] uint_ge_0 [of ?e] sint_uint_nonneg [OF pos(2)]
      by (simp add: adjustFrameLength_def adjusted_length_spec_def less_MaxUint64_minus_iff e
          Let_def uint_add_no_wrap)
  next
    case neg
    with v(2) show ?thesis
      by (simp add: adjustFrameLength_def adjusted_length_spec_def less_MaxUint64_minus_iff e
          Let_def word_less_alt [of "u + ?e" "- ?a"] uint_add_no_wrap uint_neg_word uint_add_negative)
  qed
qed

section \<open>The stateful decoder\<close>

text \<open>The result of one call, for a validated decoder.\<close>

lemma FrameDecoder_Decode_result:
  assumes "valid_decoder d"
  shows "(\<exists>e. FrameDecoder_Decode d input = Some (Err e, d\<lparr>decoder_bytes := []\<rparr>)) \<or>
    (\<exists>frames rest f n. FrameDecoder_Decode d input = Some (Ok frames, d\<lparr>decoder_bytes := rest\<rparr>)
       \<and> decodeOne d rest = Ok (f, n, False))"
  using fd.loop_result [OF assms, of "decoder_bytes d @ input" "[]"]
  by (auto simp: FrameDecoder_Decode_def)

lemma FrameDecoder_Decode_valid:
  assumes "valid_decoder d" and "FrameDecoder_Decode d input = Some (r, d')"
  shows "valid_decoder d'" and "r \<noteq> Panic"
  using FrameDecoder_Decode_result [OF assms(1), of input] assms by auto

lemma decodeOne_bytes [simp]: "decodeOne (d\<lparr>decoder_bytes := bs\<rparr>) = decodeOne d"
  by (rule ext) (simp add: decodeOne_def readLengthField_def adjustFrameLength_def Let_def
      cong: if_cong option.case_cong list.case_cong)

lemma decode_loop_bytes:
  assumes "valid_decoder d"
  shows "decode_loop (d\<lparr>decoder_bytes := bs\<rparr>) buf fs = decode_loop d buf fs"
proof (induction buf arbitrary: fs rule: length_induct)
  case (1 buf)
  have v: "valid_decoder (d\<lparr>decoder_bytes := bs\<rparr>)" using assms by simp
  from assms show ?case
  proof (cases rule: fd.one_cases [where buf = buf])
    case (complete f n)
    with 1 show ?thesis
      by (simp add: fd.loop_complete [OF assms complete(1)] fd.loop_complete [OF v])
  qed (simp_all add: fd.loop_error fd.loop_incomplete)
qed

text \<open>Two successive calls and one call on the concatenation.\<close>

lemma FrameDecoder_Decode_append:
  assumes "valid_decoder d" and "FrameDecoder_Decode d xs = Some (Ok frames, d')"
  shows "FrameDecoder_Decode d (xs @ ys) =
    map_option (\<lambda>(r, d''). (case r of Ok gs \<Rightarrow> Ok (frames @ gs) | x \<Rightarrow> x, d''))
      (FrameDecoder_Decode d' ys)"
proof -
  from assms(2) obtain rest where l: "decode_loop d (decoder_bytes d @ xs) [] = Some (Ok frames, rest)"
    and d': "d' = d\<lparr>decoder_bytes := rest\<rparr>"
    by (auto simp: FrameDecoder_Decode_def)
  from fd.loop_append [OF assms(1) l, of ys]
  have "decode_loop d (decoder_bytes d @ xs @ ys) [] = decode_loop d (rest @ ys) frames"
    by simp
  also have "\<dots> = map_option (\<lambda>(r, rest). (case r of Ok gs \<Rightarrow> Ok (frames @ gs) | x \<Rightarrow> x, rest))
      (decode_loop d (rest @ ys) [])"
    using fd.loop_acc [OF assms(1), of "rest @ ys" frames "[]"] by simp
  finally show ?thesis
    by (simp add: FrameDecoder_Decode_def d' decode_loop_bytes [OF assms(1)] option.map_comp
        comp_def case_prod_unfold)
qed

lemma FrameDecoder_Decode_error_append:
  assumes "valid_decoder d" and "FrameDecoder_Decode d xs = Some (Err e, d')"
  shows "FrameDecoder_Decode d (xs @ ys) = Some (Err e, d')"
proof -
  from assms(2) obtain rest where l: "decode_loop d (decoder_bytes d @ xs) [] = Some (Err e, rest)"
    and d': "d' = d\<lparr>decoder_bytes := rest\<rparr>"
    by (auto simp: FrameDecoder_Decode_def)
  moreover have "rest = []"
    using fd.loop_result [OF assms(1), of "decoder_bytes d @ xs" "[]"] l by auto
  ultimately show ?thesis
    using fd.loop_error_append [OF assms(1) l, of ys] by (simp add: FrameDecoder_Decode_def)
qed

text \<open>No complete frame is left in the buffer between two calls.\<close>

definition drained :: "FrameDecoder \<Rightarrow> bool" where
  "drained d \<longleftrightarrow> valid_decoder d \<and> (\<exists>f n. decodeOne d (decoder_bytes d) = Ok (f, n, False))"

lemma drained_Decode:
  assumes "drained d"
  shows "FrameDecoder_Decode d [] = Some (Ok [], d)"
  using assms by (auto simp: drained_def FrameDecoder_Decode_def fd.loop_incomplete)

lemma Decode_drained:
  assumes "valid_decoder d" and "FrameDecoder_Decode d xs = Some (Ok fs, d')"
  shows "drained d'"
  using FrameDecoder_Decode_result [OF assms(1), of xs] assms by (auto simp: drained_def)

lemma NewFrameDecoder_drained:
  assumes "NewFrameDecoder options = Ok d"
  shows "drained d"
proof -
  from NewFrameDecoder_Ok [OF assms] have d: "valid_decoder d" "decoder_bytes d = []" by simp_all
  with end_offset_le_iff [OF d(1), of 0] valid_decoder_end(2) [OF d(1)] show ?thesis
    by (simp add: drained_def decodeOne_def)
qed

lemma feed_eq_Decode: "drained d \<Longrightarrow> feed d chunks = FrameDecoder_Decode d (concat chunks)"
proof (induction chunks arbitrary: d)
  case Nil
  then show ?case by (simp add: drained_Decode)
next
  case (Cons c cs)
  then have v: "valid_decoder d" by (simp add: drained_def)
  consider e d' where "FrameDecoder_Decode d c = Some (Err e, d')"
    | fs d' where "FrameDecoder_Decode d c = Some (Ok fs, d')"
    using FrameDecoder_Decode_result [OF v, of c] by blast
  then show ?case
  proof cases
    case 1
    then show ?thesis by (simp add: FrameDecoder_Decode_error_append [OF v 1])
  next
    case 2
    with Cons.IH [OF Decode_drained [OF v 2]] show ?thesis
      by (simp add: FrameDecoder_Decode_append [OF v 2])
  qed
qed

section \<open>Bounds and conservation\<close>

lemma decodeOne_incomplete_bound:
  assumes "valid_decoder d" and "decodeOne d buf = Ok (f, n, False)"
  shows "length buf < unat (FD_MaxFrameLength d)"
proof (cases "int (length buf) < sint (lengthFieldEndOffset d)")
  case True
  with end_offset_le_iff [OF assms(1)] valid_decoderD(6) [OF assms(1)] show ?thesis
    by (simp add: word_le_nat_alt)
next
  case False
  with assms(2) obtain u fl where u: "readLengthField d buf = Ok u" "adjustFrameLength d u = Some fl"
    by (auto simp: decodeOne_def obind_Ok_iff split: option.splits)
  with False assms(2) have "\<not> FD_MaxFrameLength d < fl" "\<not> maxInt < fl" "int (length buf) < sint fl"
    by (auto simp: decodeOne_def obind_Ok_iff split: if_splits)
  then have "length buf < unat fl"
    using sint_int_unat [OF frame_length_nonneg, of fl] by (simp only: of_nat_less_iff simp_thms)
  with \<open>\<not> FD_MaxFrameLength d < fl\<close> show ?thesis by (simp add: word_le_nat_alt not_less)
qed

lemma decode_loop_frames:
  assumes "valid_decoder d" and "decode_loop d buf fs = Some (Ok gs, rest)"
    and "\<forall>f \<in> set fs. length f \<le> unat (FD_MaxFrameLength d)"
  shows "\<forall>f \<in> set gs. length f \<le> unat (FD_MaxFrameLength d)"
  using assms(2,3)
proof (induction buf arbitrary: fs rule: length_induct)
  case (1 buf)
  from assms(1) show ?case
  proof (cases rule: fd.one_cases [where buf = buf])
    case (complete f n)
    have "length f \<le> unat (FD_MaxFrameLength d)"
      using decodeOne_complete(2,5) [OF assms(1) complete(1)] by (simp add: word_le_nat_alt)
    with 1(3) have "\<forall>f \<in> set (fs @ [f]). length f \<le> unat (FD_MaxFrameLength d)" by simp
    moreover have "decode_loop d (drop (nat (sint n)) buf) (fs @ [f]) = Some (Ok gs, rest)"
      using 1(2) by (simp only: fd.loop_complete [OF assms(1) complete(1)])
    ultimately show ?thesis using 1(1) complete(2) by blast
  qed (use 1 in \<open>simp_all add: fd.loop_error fd.loop_incomplete\<close>)
qed

lemma decode_loop_concat:
  assumes "valid_decoder d" and "InitialBytesToStrip d = 0"
    and "decode_loop d buf fs = Some (Ok gs, rest)"
  shows "concat gs @ rest = concat fs @ buf"
  using assms(3)
proof (induction buf arbitrary: fs rule: length_induct)
  case (1 buf)
  from assms(1) show ?case
  proof (cases rule: fd.one_cases [where buf = buf])
    case (complete f n)
    note c = decodeOne_complete [OF assms(1) complete(1)]
    have "f = take (nat (sint n)) buf"
      using c(5) assms(2) by (simp add: sint_int_unat [OF c(3)])
    with 1(1) [rule_format, OF complete(2), of "fs @ [f]"] 1(2) show ?thesis
      by (simp add: fd.loop_complete [OF assms(1) complete(1)])
  qed (use 1 in \<open>simp_all add: fd.loop_error fd.loop_incomplete\<close>)
qed

section \<open>Properties\<close>

text \<open>
  The decoder that the server and every connection use: a 4-byte length field after the 4-byte
  event number.
\<close>

definition serverFrameDecoder :: "uint64 \<Rightarrow> (go_error, FrameDecoder) outcome" where
  "serverFrameDecoder maxFrameLength =
     NewFrameDecoder [Some (WithLengthFieldOffset 4), Some (WithLengthFieldLength 4),
                      Some (WithMaxFrameLength maxFrameLength)]"

definition server_decoder :: "uint64 \<Rightarrow> FrameDecoder" where
  "server_decoder maxFrameLength = \<lparr>FD_ByteOrder = Some LittleEndian,
     FD_MaxFrameLength = maxFrameLength, LengthFieldOffset = 4, LengthFieldLength = 4,
     LengthAdjustment = 0, InitialBytesToStrip = 0, lengthFieldEndOffset = 8, decoder_bytes = []\<rparr>"

lemma server_decoder_empty [simp]: "decoder_bytes (server_decoder m) = []"
  by (simp add: server_decoder_def)

lemma serverFrameDecoder_eq:
  "serverFrameDecoder m =
     (if m = 0 then Err (ErrInvalidConfiguration MaxFrameLengthZero)
      else if m < 8 then Err (ErrInvalidConfiguration LengthFieldEndOffsetTooLarge)
      else Ok (server_decoder m))"
proof -
  have "m < 8 \<Longrightarrow> \<not> MaxInt64 < m"
    by (simp add: word_less_nat_alt)
  then show ?thesis
    by (simp add: serverFrameDecoder_def NewFrameDecoder_def FrameDecoderOption_defs
        FrameDecoderOptions.defs FrameDecoder.defs validateConfiguration_def
        maxRepresentableUnadjustedLength_def server_decoder_def Let_def)
qed

lemma serverFrameDecoder_Ok: "8 \<le> m \<Longrightarrow> serverFrameDecoder m = Ok (server_decoder m)"
  by (auto simp: serverFrameDecoder_eq)

lemma valid_server_decoder: "8 \<le> m \<Longrightarrow> valid_decoder (server_decoder m)"
  using NewFrameDecoder_Ok serverFrameDecoder_Ok [of m] by (simp add: serverFrameDecoder_def)

lemma server_decoder_drained: "8 \<le> m \<Longrightarrow> drained (server_decoder m)"
  using NewFrameDecoder_drained serverFrameDecoder_Ok [of m] by (simp add: serverFrameDecoder_def)

lemma server_decode_example:
  "FrameDecoder_Decode (server_decoder 64) [1, 0, 0, 0, 1, 0, 0, 0, 7, 9] =
     Some (Ok [[1, 0, 0, 0, 1, 0, 0, 0, 7]], (server_decoder 64)\<lparr>decoder_bytes := [9]\<rparr>)"
  by (simp add: FrameDecoder_Decode_def server_decoder_def decode_loop.simps decodeOne_def
      readLengthField_def adjustFrameLength_def goslice_def)

text \<open>
  C15. Total and panic-free decoding: whatever options a frame decoder was successfully
  constructed with, and whatever chunks of bytes arrive, in whatever number, every call of
  \<open>Decode\<close> returns, and none panics (no slice expression is out of range, no byte order is
  nil).
\<close>

theorem frame_decoder_total:
  assumes "NewFrameDecoder options = Ok d"
  shows "\<exists>r d'. feed d chunks = Some (r, d') \<and> r \<noteq> Panic \<and> valid_decoder d'"
proof -
  have dr: "drained d" using assms by (rule NewFrameDecoder_drained)
  then have v: "valid_decoder d" by (simp add: drained_def)
  then obtain r d' where "FrameDecoder_Decode d (concat chunks) = Some (r, d')"
    using FrameDecoder_Decode_result [of d "concat chunks"] by blast
  with FrameDecoder_Decode_valid [OF v] feed_eq_Decode [OF dr] show ?thesis by auto
qed

theorem frame_decoder_total_witness:
  "NewFrameDecoder [Some (WithLengthFieldOffset 4), Some (WithLengthFieldLength 4),
     Some (WithMaxFrameLength 64)] = Ok (server_decoder 64) \<and>
   (\<exists>r d'. feed (server_decoder 64) [[1, 0, 0], [0, 1, 0, 0, 0, 7]] = Some (r, d')
      \<and> r \<noteq> Panic \<and> valid_decoder d')"
proof -
  have d: "NewFrameDecoder [Some (WithLengthFieldOffset 4), Some (WithLengthFieldLength 4),
     Some (WithMaxFrameLength 64)] = Ok (server_decoder 64)"
    using serverFrameDecoder_eq [of 64] by (simp add: serverFrameDecoder_def)
  show ?thesis using d frame_decoder_total [OF d] by blast
qed



text \<open>
  C19. Bounded memory: after a successful call fewer bytes are buffered than the maximal frame
  length, and no frame handed out is longer than it. After an error nothing is buffered.
\<close>

theorem frame_decoder_bounds:
  assumes "valid_decoder d" and "FrameDecoder_Decode d input = Some (r, d')"
  shows "case r of
      Ok frames \<Rightarrow> length (decoder_bytes d') < unat (FD_MaxFrameLength d) \<and>
                   (\<forall>f \<in> set frames. length f \<le> unat (FD_MaxFrameLength d))
    | Err e \<Rightarrow> decoder_bytes d' = []
    | Panic \<Rightarrow> False"
proof (cases r)
  case (Ok frames)
  with assms(2) have "decode_loop d (decoder_bytes d @ input) [] = Some (Ok frames, decoder_bytes d')"
    by (auto simp: FrameDecoder_Decode_def)
  moreover from Ok FrameDecoder_Decode_result [OF assms(1), of input] assms(2)
  obtain f n where "decodeOne d (decoder_bytes d') = Ok (f, n, False)" by auto
  ultimately show ?thesis
    using Ok decode_loop_frames [OF assms(1)] decodeOne_incomplete_bound [OF assms(1)] by simp
qed (use FrameDecoder_Decode_result [OF assms(1), of input] assms(2) in auto)

theorem frame_decoder_bounds_witness:
  "FrameDecoder_Decode (server_decoder 64) [1, 0, 0, 0, 1, 0, 0, 0, 7, 9] =
     Some (Ok [[1, 0, 0, 0, 1, 0, 0, 0, 7]], (server_decoder 64)\<lparr>decoder_bytes := [9]\<rparr>) \<and>
   length (decoder_bytes ((server_decoder 64)\<lparr>decoder_bytes := [9]\<rparr>))
     < unat (FD_MaxFrameLength (server_decoder 64))"
  using frame_decoder_bounds [OF valid_server_decoder server_decode_example] server_decode_example
  by simp

text \<open>
  No byte is lost, invented or reordered: when no initial bytes are stripped, the frames
  handed out followed by what stays buffered are what was buffered followed by the input.
\<close>

lemma frame_decoder_conservation:
  assumes "valid_decoder d" and "InitialBytesToStrip d = 0"
    and "FrameDecoder_Decode d input = Some (Ok frames, d')"
  shows "concat frames @ decoder_bytes d' = decoder_bytes d @ input"
  using decode_loop_concat [OF assms(1,2), of "decoder_bytes d @ input" "[]" frames] assms(3)
  by (auto simp: FrameDecoder_Decode_def)

text \<open>
  A three-byte length field read with the machine's own byte order. The code tests for
  \<open>binary.LittleEndian\<close> by equality and otherwise reads the field big-endian, so
  \<open>binary.NativeEndian\<close> on a little-endian machine reads it in the reversed order, although
  it reads every other width like \<open>LittleEndian\<close>.
\<close>

lemma native_endian_three_bytes:
  "obind (NewFrameDecoder [Some (WithByteOrder (Some order)), Some (WithLengthFieldLength 3)])
     (\<lambda>d. readLengthField d [1, 0, 0]) = Ok (if order = LittleEndian then 1 else 0x10000) \<and>
   obind (NewFrameDecoder [Some (WithByteOrder (Some order)), Some (WithLengthFieldLength 2)])
     (\<lambda>d. readLengthField d [1, 0]) = Ok (if order = BigEndian then 0x100 else 1)"
  by (cases order) (simp_all add: NewFrameDecoder_def FrameDecoderOption_defs
      FrameDecoderOptions.defs FrameDecoder.defs validateConfiguration_def
      maxRepresentableUnadjustedLength_def Let_def readLengthField_def goslice_def)

end
