(* ===== verification/Wire.thy ===== *)
theory Wire
  imports Codec Frame_Decoder
begin

text \<open>
  The wire format end to end: the frame decoder in the configuration the server uses
  (\<open>src/server.go\<close>, \<open>src/connection.go\<close>) composed with the message codec. The locale
  \<open>framed_codec\<close> joins the contract of the framing loop and that of the codec; what it needs
  beyond them is that an encoded message is recognised as one frame, and that a frame is an
  encoded message.
\<close>

locale framed_codec =
  framing ok one loop + message_codec enc dec wf
  for ok :: "'d \<Rightarrow> bool"
    and one :: "'d \<Rightarrow> byte list \<Rightarrow> (go_error, byte list \<times> goint \<times> bool) outcome"
    and loop :: "'d \<Rightarrow> byte list \<Rightarrow> byte list list \<Rightarrow>
      ((go_error, byte list list) outcome \<times> byte list) option"
    and enc :: "Message \<Rightarrow> (go_error, byte list) outcome"
    and dec :: "byte list \<Rightarrow> (go_error, Message) outcome"
    and wf :: "Message \<Rightarrow> bool" +
  fixes srv :: "'d \<Rightarrow> bool"
    and fits :: "'d \<Rightarrow> Message \<Rightarrow> bool"
  assumes srv_ok: "srv d \<Longrightarrow> ok d"
    and one_enc: "srv d \<Longrightarrow> wf m \<Longrightarrow> fits d m \<Longrightarrow> enc m = Ok bs \<Longrightarrow>
      \<exists>n. one d (bs @ ys) = Ok (bs, n, True) \<and> sint n = int (length bs)"
    and one_dec: "srv d \<Longrightarrow> one d buf = Ok (f, n, True) \<Longrightarrow>
      f = take (nat (sint n)) buf \<and> (\<exists>m. wf m \<and> fits d m \<and> enc m = Ok f)"
begin

text \<open>A buffer that starts with encoded messages gives them as frames, in order.\<close>

lemma loop_encoded:
  assumes "srv d" and "list_all2 (\<lambda>m bs. wf m \<and> fits d m \<and> enc m = Ok bs) ms ds"
  shows "loop d (concat ds @ ys) fs = loop d ys (fs @ ds)"
  using assms(2)
proof (induction arbitrary: fs rule: list_all2_induct)
  case (Cons m ms bs ds)
  then obtain n where "one d (bs @ concat ds @ ys) = Ok (bs, n, True)" "sint n = int (length bs)"
    using one_enc [OF assms(1)] by blast
  with Cons loop_complete [OF srv_ok [OF assms(1)], of "bs @ concat ds @ ys" bs n fs] show ?case
    by simp
qed simp

text \<open>Conversely, what the loop takes off the buffer is a list of encoded messages.\<close>

lemma loop_decoded:
  assumes "srv d" and "loop d buf fs = Some (Ok gs, rest)"
  shows "\<exists>ms ds. gs = fs @ ds \<and> buf = concat ds @ rest
           \<and> list_all2 (\<lambda>m bs. wf m \<and> fits d m \<and> enc m = Ok bs) ms ds"
  using assms(2)
proof (induction buf arbitrary: fs rule: length_induct)
  case (1 buf)
  note ok = srv_ok [OF assms(1)]
  from ok show ?case
  proof (cases rule: one_cases [where buf = buf])
    case (complete f n)
    note f = one_dec [OF assms(1) complete(1)]
    then obtain m where m: "wf m" "fits d m" "enc m = Ok f" by blast
    have "loop d (drop (nat (sint n)) buf) (fs @ [f]) = Some (Ok gs, rest)"
      using 1(2) by (simp only: loop_complete [OF ok complete(1)])
    with 1(1) complete(2) obtain ms ds where
      "gs = (fs @ [f]) @ ds" "drop (nat (sint n)) buf = concat ds @ rest"
      "list_all2 (\<lambda>m bs. wf m \<and> fits d m \<and> enc m = Ok bs) ms ds"
      by blast
    with f m append_take_drop_id [of "nat (sint n)" buf] show ?thesis
      by (intro exI [of _ "m # ms"] exI [of _ "f # ds"]) auto
  next
    case (incomplete f n)
    with 1 show ?thesis by (intro exI [of _ "[]"]) (simp add: loop_incomplete)
  qed (use 1 in \<open>simp add: loop_error\<close>)
qed

end

section \<open>The server's decoder and codec\<close>

definition is_server_decoder :: "FrameDecoder \<Rightarrow> bool" where
  "is_server_decoder d \<longleftrightarrow> 8 \<le> FD_MaxFrameLength d \<and>
     d = (server_decoder (FD_MaxFrameLength d))\<lparr>decoder_bytes := decoder_bytes d\<rparr>"

definition fits_frame :: "FrameDecoder \<Rightarrow> Message \<Rightarrow> bool" where
  "fits_frame d m \<longleftrightarrow> 8 + length (Body m) \<le> unat (FD_MaxFrameLength d) \<and> 8 + length (Body m) < 2 ^ 63"

lemma is_server_decoder_new: "8 \<le> m \<Longrightarrow> is_server_decoder (server_decoder m)"
  by (simp add: is_server_decoder_def server_decoder_def)

lemma is_server_decoder_bytes: "is_server_decoder d \<Longrightarrow> is_server_decoder (d\<lparr>decoder_bytes := bs\<rparr>)"
  unfolding is_server_decoder_def by (cases d) (auto simp: server_decoder_def)

lemma is_server_decoder_fields:
  assumes "is_server_decoder d"
  shows "FD_ByteOrder d = Some LittleEndian" "LengthFieldOffset d = 4" "LengthFieldLength d = 4"
    "LengthAdjustment d = 0" "InitialBytesToStrip d = 0" "lengthFieldEndOffset d = 8"
    "valid_decoder d"
proof -
  let ?s = "server_decoder (FD_MaxFrameLength d)"
  have d: "d = ?s\<lparr>decoder_bytes := decoder_bytes d\<rparr>" and m: "8 \<le> FD_MaxFrameLength d"
    using assms by (simp_all add: is_server_decoder_def)
  show "FD_ByteOrder d = Some LittleEndian" "LengthFieldOffset d = 4" "LengthFieldLength d = 4"
    "LengthAdjustment d = 0" "InitialBytesToStrip d = 0" "lengthFieldEndOffset d = 8"
    by (subst d, simp add: server_decoder_def)+
  show "valid_decoder d"
    using valid_decoder_bytes [where d = ?s and bs = "decoder_bytes d"] valid_server_decoder [OF m] d by simp
qed

lemma unat_frame_length: "unat (ucast (sz :: uint32) + 8 :: uint64) = unat sz + 8"
  using unat_u32_less [of sz] by (simp add: unat_word_ariths)

text \<open>The frame length the server's decoder reads off a header: 8 plus the size field.\<close>

lemma server_adjusted:
  assumes "is_server_decoder d"
  shows "adjustFrameLength d (ucast (sz :: uint32)) = Some (ucast sz + 8)"
proof -
  have "\<not> MaxUint64 - 8 < (ucast sz :: uint64)" "\<not> MaxUint64 < (ucast sz + 8 :: uint64)"
    using unat_u32_less [of sz] unat_frame_length [of sz] by (simp_all add: word_less_nat_alt)
  then show ?thesis
    using is_server_decoder_fields [OF assms] by (simp add: adjustFrameLength_def)
qed

lemma server_read_length:
  assumes "is_server_decoder d"
  shows "readLengthField d (le_PutUint32 ev @ le_PutUint32 sz @ ys) = Ok (ucast sz)"
  using is_server_decoder_fields [OF assms] by (simp add: readLengthField_def goslice_def)

lemma server_decodeOne_header:
  assumes "is_server_decoder d"
  shows "decodeOne d (le_PutUint32 ev @ le_PutUint32 sz @ ys) =
    (if unat (FD_MaxFrameLength d) < unat sz + 8 then Err ErrFrameTooLarge
     else if length ys < unat sz then Ok ([], 0, False)
     else Ok (le_PutUint32 ev @ le_PutUint32 sz @ take (unat sz) ys, ucast sz + 8, True))"
proof -
  note f = is_server_decoder_fields [OF assms]
  let ?n = "ucast sz + 8 :: uint64"
  have n: "unat ?n = unat sz + 8" by (rule unat_frame_length)
  have sn: "sint ?n = int (unat sz + 8)"
    using sint_int_unat [of ?n] n unat_u32_less [of sz] by (simp add: sint_nonneg_iff)
  have "\<not> ?n < 8" "\<not> MaxInt64 < ?n"
    using n unat_u32_less [of sz] by (simp_all add: word_less_nat_alt)
  moreover have "FD_MaxFrameLength d < ?n \<longleftrightarrow> unat (FD_MaxFrameLength d) < unat sz + 8"
    by (simp only: word_less_nat_alt n)
  moreover have "int (length (le_PutUint32 ev @ le_PutUint32 sz @ ys)) < sint ?n \<longleftrightarrow> length ys < unat sz"
    by (simp add: sn del: of_nat_add)
  moreover have "goslice (le_PutUint32 ev @ le_PutUint32 sz @ ys) 0 (sint ?n) =
      (Ok (le_PutUint32 ev @ le_PutUint32 sz @ take (unat sz) ys) :: (go_error, byte list) outcome)"
    if "\<not> length ys < unat sz"
    using that goslice_nat [of 0 "unat sz + 8" "le_PutUint32 ev @ le_PutUint32 sz @ ys"]
    by (simp add: sn del: of_nat_add)
  moreover have "\<not> uint sz + 8 < 0" using uint_ge_0 [of sz] by linarith
  ultimately show ?thesis
    using f(1-6) server_read_length [OF assms] server_adjusted [OF assms]
    by (simp add: decodeOne_def sn)
qed

interpretation fc: framed_codec valid_decoder decodeOne decode_loop Encoder_Encode Decoder_Decode
  message_ok is_server_decoder fits_frame
proof unfold_locales
  fix d :: FrameDecoder
  assume "is_server_decoder d"
  then show "valid_decoder d" by (rule is_server_decoder_fields)
next
  fix d m bs ys
  assume d: "is_server_decoder d" and m: "message_ok m" "fits_frame d m"
    and bs: "Encoder_Encode m = Ok bs"
  let ?n = "ucast (BodySize m) + 8 :: uint64"
  have sz: "unat (BodySize m) = length (Body m)" using m by (simp add: message_ok_def)
  have b: "bs = le_PutUint32 (Event m) @ le_PutUint32 (BodySize m) @ Body m"
    using bs m by (simp add: Encoder_Encode_ok)
  have "decodeOne d (bs @ ys) = Ok (bs, ?n, True)"
    using server_decodeOne_header [OF d] m(2) sz by (simp add: b fits_frame_def)
  moreover have "sint ?n = int (length bs)"
    using sint_int_unat [of ?n] unat_frame_length [of "BodySize m"] m(2) sz
    by (simp add: sint_nonneg_iff fits_frame_def b)
  ultimately show "\<exists>n. decodeOne d (bs @ ys) = Ok (bs, n, True) \<and> sint n = int (length bs)" by blast
next
  fix d buf f n
  assume d: "is_server_decoder d" and one: "decodeOne d buf = Ok (f, n, True)"
  note v = is_server_decoder_fields(7) [OF d]
  have "headerSize \<le> length buf"
    using one is_server_decoder_fields(6) [OF d] by (auto simp: decodeOne_def headerSize_def split: if_splits)
  then obtain ev sz ys where buf: "buf = le_PutUint32 ev @ le_PutUint32 sz @ ys"
    by (rule header_split)
  with one server_decodeOne_header [OF d, of ev sz ys]
  have f: "unat sz + 8 \<le> unat (FD_MaxFrameLength d)" "unat sz \<le> length ys"
    "f = le_PutUint32 ev @ le_PutUint32 sz @ take (unat sz) ys"
    by (auto split: if_splits)
  let ?m = "\<lparr>Event = ev, Body = take (unat sz) ys, BodySize = sz\<rparr>"
  have m: "message_ok ?m" "fits_frame d ?m"
    using f unat_u32_less [of sz] by (simp_all add: message_ok_def fits_frame_def min_def)
  moreover have "Encoder_Encode ?m = Ok f" using Encoder_Encode_ok [OF m(1)] f(3) by simp
  moreover have "f = take (nat (sint n)) buf"
    using decodeOne_complete(3,5) [OF v one] is_server_decoder_fields(5) [OF d]
    by (simp add: sint_int_unat)
  ultimately show "f = take (nat (sint n)) buf \<and>
      (\<exists>m. message_ok m \<and> fits_frame d m \<and> Encoder_Encode m = Ok f)" by blast
qed

section \<open>Properties\<close>

text \<open>
  C1. End-to-end delivery: a sequence of messages, each small enough for one frame, is encoded
  by the sender; however the concatenated bytes are cut into chunks on the way, a new frame
  decoder of a connection yields exactly the encoded messages, in order, with nothing left
  over, and the message decoder gives back every message.
\<close>

theorem wire_roundtrip:
  assumes "8 \<le> maxFrameLength"
    and "\<forall>m \<in> set ms. message_ok m \<and> fits_frame (server_decoder maxFrameLength) m"
    and "map Encoder_Encode ms = map Ok frames" and "concat chunks = concat frames"
  shows "feed (server_decoder maxFrameLength) chunks = Some (Ok frames, server_decoder maxFrameLength)
       \<and> map Decoder_Decode frames = map Ok ms"
proof -
  let ?d = "server_decoder maxFrameLength"
  have srv: "is_server_decoder ?d" by (rule is_server_decoder_new [OF assms(1)])
  have enc: "list_all2 (\<lambda>m bs. message_ok m \<and> fits_frame ?d m \<and> Encoder_Encode m = Ok bs) ms frames"
    using assms(2,3) map_eq_imp_length_eq [OF assms(3)]
    by (auto simp: list_all2_conv_all_nth list_eq_iff_nth_eq)
  have dr: "drained ?d" by (rule server_decoder_drained [OF assms(1)])
  then obtain f n where empty: "decodeOne ?d [] = Ok (f, n, False)"
    by (auto simp: drained_def server_decoder_def)
  have "decode_loop ?d (concat frames) [] = Some (Ok frames, [])"
    using fc.loop_encoded [OF srv enc, of "[]" "[]"] fd.loop_incomplete [OF empty] by simp
  then have "feed ?d chunks = Some (Ok frames, ?d)"
    using feed_eq_Decode [OF dr] assms(4) by (simp add: FrameDecoder_Decode_def server_decoder_def)
  moreover have "map Decoder_Decode frames = map Ok ms"
    using assms(2) enc by (intro mc.dec_enc_list) (auto simp: list_all_iff elim: list_all2_mono)
  ultimately show ?thesis by blast
qed

text \<open>
  C14. Everything accepted is well formed: whatever bytes a peer sends, in whatever chunks, as
  long as the frame decoder of a connection reports no error, the bytes received so far are
  the encodings of well-formed messages followed by the buffered rest, the frames are these
  encodings, and so the message decoder accepts each of them.
\<close>

theorem wire_accepts_only_messages:
  assumes "8 \<le> maxFrameLength"
    and "feed (server_decoder maxFrameLength) chunks = Some (Ok frames, d')"
  shows "\<exists>ms. list_all message_ok ms \<and> map Encoder_Encode ms = map Ok frames
          \<and> map Decoder_Decode frames = map Ok ms
          \<and> concat chunks = concat frames @ decoder_bytes d'"
proof -
  let ?d = "server_decoder maxFrameLength"
  have srv: "is_server_decoder ?d" by (rule is_server_decoder_new [OF assms(1)])
  have dr: "drained ?d" by (rule server_decoder_drained [OF assms(1)])
  have "decode_loop ?d (concat chunks) [] = Some (Ok frames, decoder_bytes d')"
    using assms(2) feed_eq_Decode [OF dr] by (auto simp: FrameDecoder_Decode_def server_decoder_def)
  from fc.loop_decoded [OF srv this] obtain ms where
    enc: "list_all2 (\<lambda>m bs. message_ok m \<and> fits_frame ?d m \<and> Encoder_Encode m = Ok bs) ms frames"
    and c: "concat chunks = concat frames @ decoder_bytes d'"
    by auto
  have "list_all message_ok ms"
    using enc by (auto simp: list_all_length list_all2_conv_all_nth)
  moreover have "map Encoder_Encode ms = map Ok frames"
    using enc by (auto simp: list_eq_iff_nth_eq list_all2_conv_all_nth)
  moreover from calculation(1) enc have "map Decoder_Decode frames = map Ok ms"
    by (intro mc.dec_enc_list) (auto elim: list_all2_mono)
  ultimately show ?thesis using c by blast
qed

theorem wire_roundtrip_witness:
  "feed (server_decoder 64) [[1, 0, 0, 0], [1, 0], [0, 0, 7]] =
     Some (Ok [[1, 0, 0, 0, 1, 0, 0, 0, 7]], server_decoder 64)
   \<and> map Decoder_Decode [[1, 0, 0, 0, 1, 0, 0, 0, 7]] = [Ok \<lparr>Event = 1, Body = [7], BodySize = 1\<rparr>]"
  using wire_roundtrip [of 64 "[\<lparr>Event = 1, Body = [7], BodySize = 1\<rparr>]"
      "[[1, 0, 0, 0, 1, 0, 0, 0, 7]]" "[[1, 0, 0, 0], [1, 0], [0, 0, 7]]"]
  by (simp add: message_ok_def fits_frame_def server_decoder_def Encoder_Encode_eq le_PutUint32_def)

theorem wire_accepts_only_messages_witness:
  "\<exists>ms. list_all message_ok ms \<and> map Encoder_Encode ms = map Ok [[1, 0, 0, 0, 1, 0, 0, 0, 7]]
     \<and> map Decoder_Decode [[1, 0, 0, 0, 1, 0, 0, 0, 7]] = map Ok ms
     \<and> concat [[1, 0, 0, 0, 1, 0, 0, 0, 7, 9]] = concat [[1, 0, 0, 0, 1, 0, 0, 0, 7]] @ [9]"
  using wire_accepts_only_messages [of 64 "[[1, 0, 0, 0, 1, 0, 0, 0, 7, 9]]"
      "[[1, 0, 0, 0, 1, 0, 0, 0, 7]]" "(server_decoder 64)\<lparr>decoder_bytes := [9]\<rparr>"]
  by (simp add: server_decode_example)

end
