(* ===== verification/Connection.thy ===== *)
theory Connection
  imports Codec Stats "HOL-Library.Sublist"
begin

text \<open>
  One network connection, \<open>src/connection.go\<close> and \<open>src/heartbeat.go\<close>: its four states, the
  queue between \<open>Send\<close> and the writer goroutine, graceful draining, closing with a reason, the
  heartbeat, and the supervisor that finalizes the connection when its goroutines have ended.

  The methods are functions on the record of the connection. What the goroutines do in one
  step between two points at which they can be interrupted is a function as well; a run is any
  interleaving. The bodies that a \<open>sync.Once\<close> or a mutex makes exclusive are one step.
\<close>

section \<open>State\<close>

datatype connectionState = connectionOpen | connectionDraining | connectionClosing | connectionClosed

fun state_rank :: "connectionState \<Rightarrow> nat" where
  "state_rank connectionOpen = 0"
| "state_rank connectionDraining = 1"
| "state_rank connectionClosing = 2"
| "state_rank connectionClosed = 3"

text \<open>
  Where the writer goroutine is: before its first check of \<open>forceCtx\<close>, at the \<open>select\<close>, in the
  inner loop that empties the queue, in a call of \<open>writeMessage\<close> (made from the outer loop, or
  from the inner one), or returned, with \<open>writerDone\<close> closed.
\<close>

datatype writer_pc = AtCheck | AtSelect | AtDrain | Writing bool "byte list" | WriterDone

text \<open>
  \<open>inflight\<close> are the calls of \<open>Send\<close> counted by \<open>sendWG\<close>, with the encoded message that each
  offers. \<open>reports\<close>, \<open>queued\<close>, \<open>written\<close> and \<open>close_hooks\<close> are history: the errors reported,
  the messages that entered the queue, those that were written, the one whose write failed
  (\<open>lost\<close>), and the calls of the close hook.
\<close>

record netConnection =
  conn_state :: connectionState
  conn_transport :: Transport
  readCtx_done :: bool
  sendCtx_done :: bool
  forceCtx_done :: bool
  acceptingSends :: bool
  inflight :: "(nat \<times> byte list) list"
  outgoing :: "byte list list"
  outgoing_cap :: nat
  sendStop_fired :: bool
  drainWriter_closed :: bool
  writer :: writer_pc
  reader_done :: bool
  heartbeat_done :: bool
  openHook_done :: bool
  conn_started :: bool
  quiesce_fired :: bool
  quiesceErr :: "go_error option"
  transport_closed :: bool
  closeReason :: "(ConnectionOperation \<times> go_error) option"
  finalized :: bool
  lastActive :: int
  conn_metrics :: serverMetrics
  reports :: "(ConnectionOperation \<times> go_error) list"
  queued :: "byte list list"
  written :: "byte list list"
  lost :: "byte list list"
  close_hooks :: nat

definition newNetConnection :: "Transport \<Rightarrow> uint32 \<Rightarrow> int \<Rightarrow> serverMetrics \<Rightarrow> netConnection" where
  "newNetConnection transport writeBufferSize now m =
     \<lparr>conn_state = connectionOpen, conn_transport = transport, readCtx_done = False, sendCtx_done = False,
      forceCtx_done = False, acceptingSends = True, inflight = [], outgoing = [],
      outgoing_cap = unat writeBufferSize, sendStop_fired = False, drainWriter_closed = False,
      writer = AtCheck, reader_done = False, heartbeat_done = False, openHook_done = False,
      conn_started = False, quiesce_fired = False, quiesceErr = None, transport_closed = False,
      closeReason = None, finalized = False, lastActive = now, conn_metrics = m, reports = [],
      queued = [], written = [], lost = [], close_hooks = 0\<rparr>"

section \<open>Activity and heartbeat\<close>

text \<open>
  \<open>activityClock\<close>: the time of the last activity in nanoseconds. \<open>time.Time\<close> adds a duration
  without wrapping, so the comparison is one of integers.
\<close>

definition refreshActivity :: "int \<Rightarrow> netConnection \<Rightarrow> netConnection" where
  "refreshActivity now c = c\<lparr>lastActive := now\<rparr>"

definition alive :: "int \<Rightarrow> duration \<Rightarrow> netConnection \<Rightarrow> bool" where
  "alive now timeout c \<longleftrightarrow> lastActive c + sint timeout > now"

section \<open>Closing\<close>

definition closeTransport :: "netConnection \<Rightarrow> netConnection" where
  "closeTransport c = c\<lparr>transport_closed := True\<rparr>"

definition requestCloseMatching ::
  "ConnectionOperation \<Rightarrow> go_error \<Rightarrow> bool \<Rightarrow> netConnection \<Rightarrow> bool \<times> netConnection" where
  "requestCloseMatching opn err onlyOpen c =
     (if conn_state c = connectionClosed \<or> conn_state c = connectionClosing \<or> onlyOpen \<and> conn_state c \<noteq> connectionOpen
      then (False, c)
      else (True, closeTransport (c\<lparr>conn_state := connectionClosing, closeReason := Some (opn, err),
             acceptingSends := False, sendCtx_done := True, readCtx_done := True, forceCtx_done := True\<rparr>)))"

definition tryRequestClose :: "ConnectionOperation \<Rightarrow> go_error \<Rightarrow> netConnection \<Rightarrow> bool \<times> netConnection" where
  "tryRequestClose opn err c = requestCloseMatching opn err False c"

definition requestClose :: "ConnectionOperation \<Rightarrow> go_error \<Rightarrow> netConnection \<Rightarrow> netConnection" where
  "requestClose opn err c = snd (tryRequestClose opn err c)"

definition requestCloseIfOpen :: "ConnectionOperation \<Rightarrow> go_error \<Rightarrow> netConnection \<Rightarrow> netConnection" where
  "requestCloseIfOpen opn err c = snd (requestCloseMatching opn err True c)"

text \<open>\<open>reportConnectionError\<close>: the counter, then the application's callback, whose panics are recovered.\<close>

definition reportConnectionError :: "ConnectionOperation \<Rightarrow> go_error \<Rightarrow> netConnection \<Rightarrow> netConnection" where
  "reportConnectionError opn err c =
     c\<lparr>conn_metrics := metrics_connectionError (conn_transport c) (conn_metrics c), reports := reports c @ [(opn, err)]\<rparr>"

text \<open>\<open>if c.tryRequestClose(op, err) { report }\<close>, the form of the writer and of the WebSocket \<open>fail\<close>.\<close>

definition closeAndReport :: "ConnectionOperation \<Rightarrow> go_error \<Rightarrow> netConnection \<Rightarrow> netConnection" where
  "closeAndReport opn err c =
     (let (ok, c') = tryRequestClose opn err c in if ok then reportConnectionError opn err c' else c')"

definition checkHeartbeat :: "int \<Rightarrow> duration \<Rightarrow> netConnection \<Rightarrow> netConnection" where
  "checkHeartbeat now timeout c =
     (if alive now timeout c then c else requestCloseIfOpen OperationHeartbeat DeadlineExceeded c)"

text \<open>What the readers count when a message has been decoded.\<close>

definition countReceived :: "byte list \<Rightarrow> netConnection \<Rightarrow> netConnection" where
  "countReceived body c =
     c\<lparr>conn_metrics := messageReceived (conn_transport c) (of_nat (length body)) (conn_metrics c)\<rparr>"

section \<open>Sending\<close>

text \<open>
  \<open>Send\<close> up to its \<open>select\<close>. \<open>Err\<close> is the error it returns; otherwise the call is in flight
  under the ticket \<open>k\<close>.
\<close>

definition Send_begin :: "nat \<Rightarrow> uint32 \<Rightarrow> byte list \<Rightarrow> netConnection \<Rightarrow> (go_error, netConnection) outcome" where
  "Send_begin k event body c =
     obind (Encoder_Encode \<lparr>Event = event, Body = body, BodySize = of_nat (length body)\<rparr>) (\<lambda>encoded.
       if \<not> acceptingSends c \<or> state_rank (conn_state c) \<ge> state_rank connectionClosing
       then Err ErrConnectionClosed
       else Ok (c\<lparr>inflight := inflight c @ [(k, encoded)]\<rparr>))"

text \<open>The cases of the \<open>select\<close>: the message enters the channel, or one of the three contexts has ended.\<close>

definition Send_enqueue :: "nat \<Rightarrow> netConnection \<Rightarrow> netConnection option" where
  "Send_enqueue k c =
     (case map_of (inflight c) k of
        None \<Rightarrow> None
      | Some m \<Rightarrow>
          if length (outgoing c) < outgoing_cap c
          then Some (c\<lparr>outgoing := outgoing c @ [m], queued := queued c @ [m], inflight := map_delete k (inflight c)\<rparr>)
          else None)"

definition Send_cancel :: "nat \<Rightarrow> go_error option \<Rightarrow> netConnection \<Rightarrow> (go_error \<times> netConnection) option" where
  "Send_cancel k ctx_err c =
     (case map_of (inflight c) k of
        None \<Rightarrow> None
      | Some m \<Rightarrow>
          (case (ctx_err, sendCtx_done c \<or> forceCtx_done c) of
             (Some err, _) \<Rightarrow> Some (err, c\<lparr>inflight := map_delete k (inflight c)\<rparr>)
           | (None, True) \<Rightarrow> Some (ErrConnectionClosed, c\<lparr>inflight := map_delete k (inflight c)\<rparr>)
           | (None, False) \<Rightarrow> None))"

section \<open>The writer\<close>

text \<open>
  The steps of \<open>runWriter\<close>. \<open>choice\<close> says which ready case a \<open>select\<close> takes. \<open>Write err\<close> is
  the return of \<open>writeMessage\<close>.
\<close>

datatype writer_event = Check | PickForce | PickMessage | PickDrain | DrainNext | Write "go_error option"

definition writeOutgoing :: "byte list \<Rightarrow> netConnection \<Rightarrow> netConnection" where
  "writeOutgoing data c = (c\<lparr>written := written c @ [data]\<rparr>)
     \<lparr>conn_metrics := (if length data \<ge> 8 then messageSent (conn_transport c) (of_nat (length data - 8)) (conn_metrics c)
                       else conn_metrics c)\<rparr>"

fun runWriter :: "writer_event \<Rightarrow> netConnection \<Rightarrow> netConnection option" where
  "runWriter Check c =
     (if writer c = AtCheck
      then Some (c\<lparr>writer := (if forceCtx_done c then WriterDone else AtSelect)\<rparr>) else None)"
| "runWriter PickForce c =
     (if writer c = AtSelect \<and> forceCtx_done c then Some (c\<lparr>writer := WriterDone\<rparr>) else None)"
| "runWriter PickMessage c =
     (case outgoing c of
        [] \<Rightarrow> None
      | m # ms \<Rightarrow> if writer c = AtSelect then Some (c\<lparr>outgoing := ms, writer := Writing False m\<rparr>) else None)"
| "runWriter PickDrain c =
     (if writer c = AtSelect \<and> drainWriter_closed c then Some (c\<lparr>writer := AtDrain\<rparr>) else None)"
| "runWriter DrainNext c =
     (if writer c = AtDrain
      then (case outgoing c of
              [] \<Rightarrow> Some (c\<lparr>writer := WriterDone\<rparr>)
            | m # ms \<Rightarrow> Some (c\<lparr>outgoing := ms, writer := Writing True m\<rparr>))
      else None)"
| "runWriter (Write result) c =
     (case writer c of
        Writing draining m \<Rightarrow>
          (case result of
             None \<Rightarrow> Some ((writeOutgoing m c)\<lparr>writer := (if draining then AtDrain else AtCheck)\<rparr>)
           | Some err \<Rightarrow> Some ((closeAndReport OperationWrite err c)\<lparr>writer := WriterDone, lost := [m]\<rparr>))
      | _ \<Rightarrow> None)"

section \<open>Draining\<close>

text \<open>\<open>deadline_err\<close> is what \<open>SetReadDeadline\<close> returns.\<close>

definition quiesceReads :: "go_error option \<Rightarrow> netConnection \<Rightarrow> go_error option \<times> netConnection" where
  "quiesceReads deadline_err c =
     (let c1 = (if conn_state c = connectionOpen then c\<lparr>conn_state := connectionDraining\<rparr> else c);
          c2 = (if quiesce_fired c1 then c1
                else c1\<lparr>quiesce_fired := True, readCtx_done := True, quiesceErr := deadline_err\<rparr>)
      in (quiesceErr c2, c2))"

text \<open>The body that \<open>sendStopOnce\<close> guards, and the goroutine it starts.\<close>

definition stopSends :: "netConnection \<Rightarrow> netConnection" where
  "stopSends c =
     (if sendStop_fired c then c
      else (if conn_state c = connectionOpen then c\<lparr>conn_state := connectionDraining\<rparr> else c)
             \<lparr>sendStop_fired := True, acceptingSends := False, sendCtx_done := True\<rparr>)"

definition drain_goroutine :: "netConnection \<Rightarrow> netConnection option" where
  "drain_goroutine c =
     (if sendStop_fired c \<and> inflight c = [] \<and> \<not> drainWriter_closed c
      then Some (c\<lparr>drainWriter_closed := True\<rparr>) else None)"

text \<open>
  \<open>stopSendsAndDrain\<close>: the guarded body, then the wait for \<open>writerDone\<close> or for the context;
  \<open>None\<close> means that it still waits.
\<close>

definition drain_result :: "bool \<Rightarrow> go_error option \<Rightarrow> netConnection \<Rightarrow> go_error option option" where
  "drain_result prefer_ctx ctx_err c =
     (if writer c = WriterDone \<and> (\<not> prefer_ctx \<or> ctx_err = None) then Some None
      else map_option Some ctx_err)"

definition stopSendsAndDrain ::
  "bool \<Rightarrow> go_error option \<Rightarrow> netConnection \<Rightarrow> go_error option option \<times> netConnection" where
  "stopSendsAndDrain prefer_ctx ctx_err c =
     (let c' = stopSends c in (drain_result prefer_ctx ctx_err c', c'))"

section \<open>Start and finalization\<close>

definition start_conn :: "netConnection \<Rightarrow> netConnection" where
  "start_conn c = (if conn_started c then c
     else c\<lparr>conn_metrics := connectionOpened (conn_transport c) (conn_metrics c), conn_started := True\<rparr>)"

text \<open>
  The hooks, when the callback has returned or panicked: a panic is recovered and reported; one
  of the open hook closes the connection. \<open>hook\<close> says whether a close hook is set.
\<close>

definition invokeOpenHook :: "go_error option \<Rightarrow> netConnection \<Rightarrow> netConnection" where
  [simp]: "invokeOpenHook panicked c =
     (case panicked of
        None \<Rightarrow> c
      | Some err \<Rightarrow> requestClose OperationOpenHook err (reportConnectionError OperationOpenHook err c))"

definition invokeCloseHook :: "bool \<Rightarrow> go_error option \<Rightarrow> netConnection \<Rightarrow> netConnection" where
  [simp]: "invokeCloseHook hook panicked c =
     (if \<not> hook then c
      else let c1 = c\<lparr>close_hooks := close_hooks c + 1\<rparr>
           in case panicked of None \<Rightarrow> c1 | Some err \<Rightarrow> reportConnectionError OperationCloseHook err c1)"

text \<open>The end of \<open>start\<close>: the open hook has returned, and \<open>openHookDone\<close> is closed.\<close>

definition openHook_return :: "go_error option \<Rightarrow> netConnection \<Rightarrow> netConnection option" where
  "openHook_return panicked c =
     (if conn_started c \<and> \<not> openHook_done c
      then Some ((invokeOpenHook panicked c)\<lparr>openHook_done := True\<rparr>) else None)"

definition heartbeat_exit :: "netConnection \<Rightarrow> netConnection option" where
  "heartbeat_exit c =
     (if conn_started c \<and> \<not> heartbeat_done c \<and> (readCtx_done c \<or> forceCtx_done c)
      then Some (c\<lparr>heartbeat_done := True\<rparr>) else None)"

definition heartbeat_tick :: "int \<Rightarrow> duration \<Rightarrow> netConnection \<Rightarrow> netConnection option" where
  "heartbeat_tick now timeout c =
     (if conn_started c \<and> \<not> heartbeat_done c then Some (checkHeartbeat now timeout c) else None)"

text \<open>
  \<open>supervise\<close>, when the open hook and the three goroutines have returned. The manager's part
  is in the theory \<open>Manager\<close>.
\<close>

definition supervise :: "bool \<Rightarrow> go_error option \<Rightarrow> netConnection \<Rightarrow> netConnection option" where
  "supervise hook panicked c =
     (if openHook_done c \<and> writer c = WriterDone \<and> reader_done c \<and> heartbeat_done c \<and> \<not> finalized c
      then let c1 = closeTransport (c\<lparr>readCtx_done := True, sendCtx_done := True, forceCtx_done := True\<rparr>);
               c2 = (if conn_started c1 then c1\<lparr>conn_metrics := metrics_connectionClosed (conn_transport c1) (conn_metrics c1)\<rparr> else c1);
               c3 = invokeCloseHook hook panicked c2
           in Some (c3\<lparr>conn_state := connectionClosed, finalized := True\<rparr>)
      else None)"

definition wait_result :: "bool \<Rightarrow> go_error option \<Rightarrow> netConnection \<Rightarrow> go_error option option" where
  "wait_result prefer_ctx ctx_err c =
     (if finalized c \<and> (\<not> prefer_ctx \<or> ctx_err = None) then Some None else map_option Some ctx_err)"

section \<open>Runs\<close>

datatype conn_event =
    CStart
  | COpenHook "go_error option"
  | CSend nat uint32 "byte list"
  | CEnqueue nat
  | CCancel nat "go_error option"
  | CWriter writer_event
  | CQuiesce "go_error option"
  | CStopSends
  | CDrainGoroutine
  | CClose ConnectionOperation go_error bool  \<comment> \<open>\<open>requestCloseMatching\<close>, by any goroutine\<close>
  | CReport ConnectionOperation go_error
  | CRefresh int
  | CReceived "byte list"
  | CTick int duration
  | CHeartbeatExit
  | CReaderExit
  | CSupervise bool "go_error option"

datatype conn_result = RNone | RSend "go_error option" | RClose bool | RQuiesce "go_error option"

fun conn_exec :: "conn_event \<Rightarrow> netConnection \<Rightarrow> (conn_result \<times> netConnection) option" where
  "conn_exec CStart c = Some (RNone, start_conn c)"
| "conn_exec (COpenHook panicked) c = map_option (Pair RNone) (openHook_return panicked c)"
| "conn_exec (CSend k event body) c =
     (if k \<in> fst ` set (inflight c) then None
      else case Send_begin k event body c of
             Ok c' \<Rightarrow> Some (RNone, c')
           | Err err \<Rightarrow> Some (RSend (Some err), c)
           | Panic \<Rightarrow> None)"
| "conn_exec (CEnqueue k) c = map_option (Pair (RSend None)) (Send_enqueue k c)"
| "conn_exec (CCancel k ctx_err) c = map_option (map_prod (RSend \<circ> Some) id) (Send_cancel k ctx_err c)"
| "conn_exec (CWriter ev) c = (if conn_started c then map_option (Pair RNone) (runWriter ev c) else None)"
| "conn_exec (CQuiesce deadline_err) c = Some (map_prod RQuiesce id (quiesceReads deadline_err c))"
| "conn_exec CStopSends c = Some (RNone, stopSends c)"
| "conn_exec CDrainGoroutine c = map_option (Pair RNone) (drain_goroutine c)"
| "conn_exec (CClose opn err onlyOpen) c = Some (map_prod RClose id (requestCloseMatching opn err onlyOpen c))"
| "conn_exec (CReport opn err) c = Some (RNone, reportConnectionError opn err c)"
| "conn_exec (CRefresh now) c = Some (RNone, refreshActivity now c)"
| "conn_exec (CReceived body) c = Some (RNone, countReceived body c)"
| "conn_exec (CTick now timeout) c = map_option (Pair RNone) (heartbeat_tick now timeout c)"
| "conn_exec CHeartbeatExit c = map_option (Pair RNone) (heartbeat_exit c)"
| "conn_exec CReaderExit c =
     (if conn_started c \<and> \<not> reader_done c then Some (RNone, c\<lparr>reader_done := True\<rparr>) else None)"
| "conn_exec (CSupervise hook panicked) c = map_option (Pair RNone) (supervise hook panicked c)"

text \<open>A connection that has run from its creation.\<close>

definition conn_reachable :: "netConnection \<Rightarrow> bool" where
  "conn_reachable c \<longleftrightarrow> (\<exists>transport bufsize now m evs rs.
     run_ops conn_exec evs (newNetConnection transport bufsize now m) = Some (rs, c))"

lemma conn_reachable_step: "conn_reachable c \<Longrightarrow> conn_exec ev c = Some (r, c') \<Longrightarrow> conn_reachable c'"
  unfolding conn_reachable_def by (meson run_ops_snoc)

section \<open>Invariant\<close>

fun in_write :: "writer_pc \<Rightarrow> byte list list" where
  "in_write (Writing d m) = [m]"
| "in_write _ = []"

fun drains :: "writer_pc \<Rightarrow> bool" where
  "drains AtDrain = True"
| "drains (Writing d m) = d"
| "drains _ = False"

text \<open>The flags that go with each other, and the books of the messages.\<close>

definition flags_ok :: "netConnection \<Rightarrow> bool" where
  "flags_ok c \<longleftrightarrow>
     (forceCtx_done c \<longrightarrow> sendCtx_done c \<and> readCtx_done c \<and> \<not> acceptingSends c \<and> state_rank (conn_state c) \<ge> 2) \<and>
     (sendStop_fired c \<longrightarrow> sendCtx_done c \<and> \<not> acceptingSends c \<and> conn_state c \<noteq> connectionOpen) \<and>
     (\<not> acceptingSends c \<longrightarrow> sendCtx_done c) \<and>
     (sendCtx_done c \<longrightarrow> \<not> acceptingSends c \<and> (sendStop_fired c \<or> forceCtx_done c)) \<and>
     (state_rank (conn_state c) \<ge> 2 \<longrightarrow> forceCtx_done c \<and> transport_closed c) \<and>
     (closeReason c \<noteq> None \<longrightarrow> state_rank (conn_state c) \<ge> 2) \<and>
     (conn_state c = connectionClosing \<longrightarrow> closeReason c \<noteq> None) \<and>
     (conn_state c = connectionOpen \<longrightarrow> \<not> readCtx_done c \<and> \<not> forceCtx_done c) \<and>
     (finalized c \<longleftrightarrow> conn_state c = connectionClosed)"

definition writer_ok :: "netConnection \<Rightarrow> bool" where
  "writer_ok c \<longleftrightarrow>
     (drainWriter_closed c \<longrightarrow> sendStop_fired c \<and> inflight c = []) \<and>
     (drains (writer c) \<longrightarrow> drainWriter_closed c) \<and>
     (writer c = WriterDone \<longrightarrow> forceCtx_done c \<or> drainWriter_closed c \<and> outgoing c = []) \<and>
     (lost c \<noteq> [] \<longrightarrow> forceCtx_done c \<and> writer c = WriterDone) \<and>
     (finalized c \<longrightarrow> writer c = WriterDone \<and> reader_done c \<and> heartbeat_done c)"

definition messages_ok :: "netConnection \<Rightarrow> bool" where
  "messages_ok c \<longleftrightarrow> queued c = written c @ lost c @ in_write (writer c) @ outgoing c \<and>
     length (outgoing c) \<le> outgoing_cap c \<and> distinct (map fst (inflight c))"

definition conn_inv :: "netConnection \<Rightarrow> bool" where
  "conn_inv c \<longleftrightarrow> flags_ok c \<and> writer_ok c \<and> messages_ok c"

lemma conn_inv_new: "conn_inv (newNetConnection transport bufsize now m)"
  by (simp add: conn_inv_def flags_ok_def writer_ok_def messages_ok_def newNetConnection_def)

lemmas inv_defs = conn_inv_def flags_ok_def writer_ok_def messages_ok_def

text \<open>Each part of the invariant is about some fields only.\<close>

lemma flags_ok_upd [simp]:
  "flags_ok (c\<lparr>writer := x1\<rparr>) = flags_ok c" "flags_ok (c\<lparr>outgoing := x2\<rparr>) = flags_ok c"
  "flags_ok (c\<lparr>queued := x3\<rparr>) = flags_ok c" "flags_ok (c\<lparr>written := x4\<rparr>) = flags_ok c"
  "flags_ok (c\<lparr>lost := x5\<rparr>) = flags_ok c" "flags_ok (c\<lparr>inflight := x6\<rparr>) = flags_ok c"
  "flags_ok (c\<lparr>reader_done := x7\<rparr>) = flags_ok c" "flags_ok (c\<lparr>heartbeat_done := x8\<rparr>) = flags_ok c"
  "flags_ok (c\<lparr>openHook_done := x9\<rparr>) = flags_ok c" "flags_ok (c\<lparr>conn_started := x10\<rparr>) = flags_ok c"
  "flags_ok (c\<lparr>quiesceErr := x11\<rparr>) = flags_ok c" "flags_ok (c\<lparr>quiesce_fired := x12\<rparr>) = flags_ok c"
  "flags_ok (c\<lparr>lastActive := x13\<rparr>) = flags_ok c" "flags_ok (c\<lparr>conn_metrics := x14\<rparr>) = flags_ok c"
  "flags_ok (c\<lparr>reports := x15\<rparr>) = flags_ok c" "flags_ok (c\<lparr>close_hooks := x16\<rparr>) = flags_ok c"
  "flags_ok (c\<lparr>drainWriter_closed := x17\<rparr>) = flags_ok c"
  by (simp_all add: flags_ok_def)

lemma writer_ok_upd [simp]:
  "writer_ok (c\<lparr>conn_state := x18\<rparr>) = writer_ok c" "writer_ok (c\<lparr>readCtx_done := x19\<rparr>) = writer_ok c"
  "writer_ok (c\<lparr>sendCtx_done := x20\<rparr>) = writer_ok c" "writer_ok (c\<lparr>acceptingSends := x21\<rparr>) = writer_ok c"
  "writer_ok (c\<lparr>quiesceErr := x22\<rparr>) = writer_ok c" "writer_ok (c\<lparr>quiesce_fired := x23\<rparr>) = writer_ok c"
  "writer_ok (c\<lparr>lastActive := x24\<rparr>) = writer_ok c" "writer_ok (c\<lparr>conn_metrics := x25\<rparr>) = writer_ok c"
  "writer_ok (c\<lparr>reports := x26\<rparr>) = writer_ok c" "writer_ok (c\<lparr>close_hooks := x27\<rparr>) = writer_ok c"
  "writer_ok (c\<lparr>transport_closed := x28\<rparr>) = writer_ok c" "writer_ok (c\<lparr>closeReason := x29\<rparr>) = writer_ok c"
  "writer_ok (c\<lparr>openHook_done := x30\<rparr>) = writer_ok c" "writer_ok (c\<lparr>conn_started := x31\<rparr>) = writer_ok c"
  "writer_ok (c\<lparr>queued := x32\<rparr>) = writer_ok c" "writer_ok (c\<lparr>written := x33\<rparr>) = writer_ok c"
  by (simp_all add: writer_ok_def)

lemma messages_ok_upd [simp]:
  "messages_ok (c\<lparr>conn_state := x34\<rparr>) = messages_ok c" "messages_ok (c\<lparr>readCtx_done := x35\<rparr>) = messages_ok c"
  "messages_ok (c\<lparr>sendCtx_done := x36\<rparr>) = messages_ok c" "messages_ok (c\<lparr>forceCtx_done := x37\<rparr>) = messages_ok c"
  "messages_ok (c\<lparr>acceptingSends := x38\<rparr>) = messages_ok c" "messages_ok (c\<lparr>quiesceErr := x39\<rparr>) = messages_ok c"
  "messages_ok (c\<lparr>quiesce_fired := x40\<rparr>) = messages_ok c" "messages_ok (c\<lparr>lastActive := x41\<rparr>) = messages_ok c"
  "messages_ok (c\<lparr>conn_metrics := x42\<rparr>) = messages_ok c" "messages_ok (c\<lparr>reports := x43\<rparr>) = messages_ok c"
  "messages_ok (c\<lparr>close_hooks := x44\<rparr>) = messages_ok c" "messages_ok (c\<lparr>transport_closed := x45\<rparr>) = messages_ok c"
  "messages_ok (c\<lparr>closeReason := x46\<rparr>) = messages_ok c" "messages_ok (c\<lparr>openHook_done := x47\<rparr>) = messages_ok c"
  "messages_ok (c\<lparr>conn_started := x48\<rparr>) = messages_ok c" "messages_ok (c\<lparr>reader_done := x49\<rparr>) = messages_ok c"
  "messages_ok (c\<lparr>heartbeat_done := x50\<rparr>) = messages_ok c" "messages_ok (c\<lparr>sendStop_fired := x51\<rparr>) = messages_ok c"
  "messages_ok (c\<lparr>drainWriter_closed := x52\<rparr>) = messages_ok c" "messages_ok (c\<lparr>finalized := x53\<rparr>) = messages_ok c"
  by (simp_all add: messages_ok_def)

lemma closed_iff: "2 \<le> state_rank st \<longleftrightarrow> st = connectionClosing \<or> st = connectionClosed"
  by (cases st) auto

lemma requestCloseMatching_inv:
  assumes "conn_inv c"
  shows "conn_inv (snd (requestCloseMatching opn err onlyOpen c))"
  using assms by (auto simp: requestCloseMatching_def inv_defs closeTransport_def closed_iff)

lemma report_inv [simp]: "conn_inv (reportConnectionError opn err c) = conn_inv c"
  by (simp add: reportConnectionError_def inv_defs)

lemma closeAndReport_inv: "conn_inv c \<Longrightarrow> conn_inv (closeAndReport opn err c)"
  using requestCloseMatching_inv [of c opn err False]
  by (simp add: closeAndReport_def tryRequestClose_def case_prod_beta)

lemma closeAndReport_forced: "conn_inv c \<Longrightarrow> forceCtx_done (closeAndReport opn err c)"
  by (auto simp: closeAndReport_def tryRequestClose_def requestCloseMatching_def reportConnectionError_def
      closeTransport_def inv_defs closed_iff)

lemma closeAndReport_frame:
  "outgoing (closeAndReport opn err c) = outgoing c" "queued (closeAndReport opn err c) = queued c"
  "written (closeAndReport opn err c) = written c" "lost (closeAndReport opn err c) = lost c"
  "writer (closeAndReport opn err c) = writer c" "inflight (closeAndReport opn err c) = inflight c"
  "outgoing_cap (closeAndReport opn err c) = outgoing_cap c" "reader_done (closeAndReport opn err c) = reader_done c"
  by (simp_all add: closeAndReport_def tryRequestClose_def requestCloseMatching_def reportConnectionError_def closeTransport_def)

lemma runWriter_cases:
  assumes "runWriter ev c = Some c'"
  obtains (check) "writer c = AtCheck" "c' = c\<lparr>writer := (if forceCtx_done c then WriterDone else AtSelect)\<rparr>"
  | (force) "writer c = AtSelect" "forceCtx_done c" "c' = c\<lparr>writer := WriterDone\<rparr>"
  | (message) m ms where "writer c = AtSelect" "outgoing c = m # ms" "c' = c\<lparr>outgoing := ms, writer := Writing False m\<rparr>"
  | (drain) "writer c = AtSelect" "drainWriter_closed c" "c' = c\<lparr>writer := AtDrain\<rparr>"
  | (drained) "writer c = AtDrain" "outgoing c = []" "c' = c\<lparr>writer := WriterDone\<rparr>"
  | (draining) m ms where "writer c = AtDrain" "outgoing c = m # ms" "c' = c\<lparr>outgoing := ms, writer := Writing True m\<rparr>"
  | (wrote) d m where "writer c = Writing d m" "c' = (writeOutgoing m c)\<lparr>writer := (if d then AtDrain else AtCheck)\<rparr>"
  | (failed) d m err where "writer c = Writing d m"
      "c' = (closeAndReport OperationWrite err c)\<lparr>writer := WriterDone, lost := [m]\<rparr>"
proof (cases ev)
  case Check
  with assms have "writer c = AtCheck" "c' = c\<lparr>writer := (if forceCtx_done c then WriterDone else AtSelect)\<rparr>"
    by (auto split: if_split_asm)
  then show thesis by (rule check)
next
  case PickForce
  with assms have "writer c = AtSelect" "forceCtx_done c" "c' = c\<lparr>writer := WriterDone\<rparr>" by (auto split: if_split_asm)
  then show thesis by (rule force)
next
  case PickMessage
  with assms obtain m ms where "outgoing c = m # ms" "writer c = AtSelect" "c' = c\<lparr>outgoing := ms, writer := Writing False m\<rparr>"
    by (auto split: if_split_asm list.split_asm)
  then show thesis by (intro message)
next
  case PickDrain
  with assms have "writer c = AtSelect" "drainWriter_closed c" "c' = c\<lparr>writer := AtDrain\<rparr>" by (auto split: if_split_asm)
  then show thesis by (rule drain)
next
  case DrainNext
  with assms have w: "writer c = AtDrain" by (simp split: if_split_asm)
  show thesis using assms DrainNext w by (cases "outgoing c") (auto intro: drained draining)
next
  case (Write result)
  with assms obtain d m where w: "writer c = Writing d m" by (auto split: writer_pc.split_asm)
  show thesis using assms Write w by (cases result) (auto intro: wrote failed)
qed

lemma runWriter_inv:
  assumes "conn_inv c" "runWriter ev c = Some c'"
  shows "conn_inv c'"
proof -
  have inv: "flags_ok c" "writer_ok c" "messages_ok c" using assms(1) by (simp_all add: conn_inv_def)
  from assms(2) show ?thesis
  proof (cases rule: runWriter_cases)
    case (wrote d m)
    have "lost c = []" using inv(2) wrote(1) by (auto simp: writer_ok_def)
    then show ?thesis
      unfolding wrote(2) conn_inv_def writeOutgoing_def using inv wrote(1) by (simp add: writer_ok_def messages_ok_def)
  next
    case (failed d m err)
    let ?c = "closeAndReport OperationWrite err c"
    have inv': "flags_ok ?c" "writer_ok ?c" "messages_ok ?c" "forceCtx_done ?c"
      using closeAndReport_inv [OF assms(1)] closeAndReport_forced [OF assms(1)] by (simp_all add: conn_inv_def)
    have "lost c = []" "\<not> finalized ?c"
      using inv(2) inv'(2) failed(1) closeAndReport_frame(5) [of OperationWrite err c] by (auto simp: writer_ok_def)
    then show ?thesis
      unfolding failed(2) conn_inv_def using inv' failed(1) by (simp add: writer_ok_def messages_ok_def closeAndReport_frame)
  qed (use inv in \<open>simp_all add: conn_inv_def writer_ok_def messages_ok_def\<close>)
qed

lemma Send_inv:
  assumes "conn_inv c" "k \<notin> fst ` set (inflight c)" "Send_begin k event body c = Ok c'"
  shows "conn_inv c'"
  using assms by (auto simp: Send_begin_def obind_iffs inv_defs split: if_splits)

lemma map_delete_empty: "map_delete k [] = []"
  by (simp add: map_delete_def)

lemma supervise_cases:
  assumes "ev = CSupervise hook panicked" "conn_exec ev c = Some (r, c')"
  obtains m rs n where "writer c = WriterDone" "reader_done c" "heartbeat_done c" "\<not> finalized c"
    "c' = c\<lparr>readCtx_done := True, sendCtx_done := True, forceCtx_done := True, transport_closed := True,
       conn_metrics := m, reports := rs, close_hooks := n, conn_state := connectionClosed, finalized := True\<rparr>"
proof -
  have ready: "writer c = WriterDone" "reader_done c" "heartbeat_done c" "\<not> finalized c" and sup: "supervise hook panicked c = Some c'"
    using assms by (auto simp: supervise_def split: if_splits)
  have "\<exists>m rs n. c' = c\<lparr>readCtx_done := True, sendCtx_done := True, forceCtx_done := True, transport_closed := True,
       conn_metrics := m, reports := rs, close_hooks := n, conn_state := connectionClosed, finalized := True\<rparr>"
    using sup by (cases panicked) (auto simp: supervise_def reportConnectionError_def closeTransport_def Let_def
        intro!: exI netConnection.equality split: if_splits)
  with ready that show thesis by blast
qed

lemma conn_inv_openHook:
  assumes "conn_inv c" "conn_exec (COpenHook panicked) c = Some (r, c')"
  shows "conn_inv c'"
proof -
  have inv: "flags_ok c" "writer_ok c" "messages_ok c" using assms(1) by (simp_all add: conn_inv_def)
  let ?r = "\<lambda>err. requestClose OperationOpenHook err (reportConnectionError OperationOpenHook err c)"
  have "conn_inv (?r err)" for err
    unfolding requestClose_def tryRequestClose_def by (rule requestCloseMatching_inv) (simp add: assms(1))
  then have "conn_inv (c\<lparr>openHook_done := True\<rparr>)" "conn_inv ((?r err)\<lparr>openHook_done := True\<rparr>)" for err
    using assms(1) by (simp_all add: conn_inv_def)
  then show ?thesis using assms by (auto simp: openHook_return_def split: if_splits option.splits)
qed

lemma conn_inv_enqueue:
  assumes "conn_inv c" "conn_exec (CEnqueue k) c = Some (r, c')"
  shows "conn_inv c'"
proof -
  have inv: "flags_ok c" "writer_ok c" "messages_ok c" using assms(1) by (simp_all add: conn_inv_def)
  then obtain m where m: "map_of (inflight c) k = Some m" "length (outgoing c) < outgoing_cap c"
    and c': "c' = c\<lparr>outgoing := outgoing c @ [m], queued := queued c @ [m], inflight := map_delete k (inflight c)\<rparr>"
    using assms(2) by (auto simp: Send_enqueue_def split: option.splits if_splits)
  have "inflight c \<noteq> []" using m by auto
  then show ?thesis
    unfolding c' conn_inv_def using inv m(2) by (simp add: writer_ok_def messages_ok_def distinct_map_delete) blast
qed

lemma conn_inv_supervise:
  assumes "conn_inv c" "conn_exec (CSupervise hook panicked) c = Some (r, c')"
  shows "conn_inv c'"
proof -
  have inv: "flags_ok c" "writer_ok c" "messages_ok c" using assms(1) by (simp_all add: conn_inv_def)
  obtain m rs n where w: "writer c = WriterDone" "reader_done c" "heartbeat_done c" "\<not> finalized c"
    and c': "c' = c\<lparr>readCtx_done := True, sendCtx_done := True, forceCtx_done := True, transport_closed := True,
       conn_metrics := m, reports := rs, close_hooks := n, conn_state := connectionClosed, finalized := True\<rparr>"
    using HOL.refl assms(2) by (rule supervise_cases)
  have "\<not> acceptingSends c" using inv w by (auto simp: flags_ok_def writer_ok_def)
  then have "flags_ok c'" using inv(1) unfolding c' flags_ok_def by simp
  moreover have "writer_ok c'" using inv(2) w unfolding c' writer_ok_def by simp
  moreover have "messages_ok c'" using inv(3) unfolding c' by simp
  ultimately show ?thesis by (simp add: conn_inv_def)
qed

lemma conn_inv_quiesce:
  assumes "conn_inv c" "conn_exec (CQuiesce e) c = Some (r, c')"
  shows "conn_inv c'"
proof -
  have inv: "flags_ok c" "writer_ok c" "messages_ok c" using assms(1) by (simp_all add: conn_inv_def)
  let ?d = "c\<lparr>conn_state := (if conn_state c = connectionOpen then connectionDraining else conn_state c)\<rparr>"
  have c': "c' = (if quiesce_fired c then ?d else ?d\<lparr>quiesce_fired := True, readCtx_done := True, quiesceErr := e\<rparr>)"
    using assms(2) by (auto simp: quiesceReads_def Let_def)
  have "flags_ok ?d" using inv(1) by (cases "conn_state c") (auto simp: flags_ok_def)
  then show ?thesis unfolding c' conn_inv_def using inv(2,3) by (simp add: flags_ok_def)
qed

lemma conn_inv_stopSends:
  assumes "conn_inv c" "conn_exec CStopSends c = Some (r, c')"
  shows "conn_inv c'"
proof -
  have inv: "flags_ok c" "writer_ok c" "messages_ok c" using assms(1) by (simp_all add: conn_inv_def)
  let ?d = "c\<lparr>conn_state := (if conn_state c = connectionOpen then connectionDraining else conn_state c),
      sendStop_fired := True, acceptingSends := False, sendCtx_done := True\<rparr>"
  have c': "c' = (if sendStop_fired c then c else ?d)" using assms(2) by (auto simp: stopSends_def)
  have "flags_ok ?d" using inv(1) by (cases "conn_state c") (simp_all add: flags_ok_def)
  moreover have "writer_ok ?d" using inv(2) by (simp add: writer_ok_def)
  ultimately show ?thesis unfolding c' conn_inv_def using inv by simp
qed

lemma conn_exec_inv:
  assumes "conn_inv c" "conn_exec ev c = Some (r, c')"
  shows "conn_inv c'"
proof -
  have inv: "flags_ok c" "writer_ok c" "messages_ok c" using assms(1) by (simp_all add: conn_inv_def)
  show ?thesis
  proof (cases ev)
    case (CSend k event body)
    then show ?thesis using assms Send_inv by (auto split: if_splits outcome.splits)
  next
    case (CWriter ev)
    then show ?thesis using assms runWriter_inv by (auto split: if_splits)
  next
    case (CClose opn err onlyOpen)
    then have "c' = snd (requestCloseMatching opn err onlyOpen c)" using assms(2) by (simp add: map_prod_def case_prod_beta)
    then show ?thesis using requestCloseMatching_inv [OF assms(1)] by simp
  next
    case (COpenHook panicked)
    show ?thesis by (rule conn_inv_openHook [OF assms(1) assms(2) [unfolded COpenHook]])
  next
    case (CTick now timeout)
    then have "c' = c \<or> c' = snd (requestCloseMatching OperationHeartbeat DeadlineExceeded True c)"
      using assms(2) by (auto simp: heartbeat_tick_def checkHeartbeat_def requestCloseIfOpen_def split: if_splits)
    then show ?thesis using assms(1) requestCloseMatching_inv by auto
  next
    case (CEnqueue k)
    show ?thesis by (rule conn_inv_enqueue [OF assms(1) assms(2) [unfolded CEnqueue]])
  next
    case (CCancel k ctx_err)
    then have "c' = c\<lparr>inflight := map_delete k (inflight c)\<rparr>"
      using assms(2) by (auto simp: Send_cancel_def split: option.splits bool.splits)
    then show ?thesis
      unfolding conn_inv_def using inv by (simp add: writer_ok_def messages_ok_def map_delete_empty distinct_map_delete)
  next
    case (CSupervise hook panicked)
    show ?thesis by (rule conn_inv_supervise [OF assms(1) assms(2) [unfolded CSupervise]])
  next
    case (CQuiesce e)
    show ?thesis by (rule conn_inv_quiesce [OF assms(1) assms(2) [unfolded CQuiesce]])
  next
    case CStopSends
    show ?thesis by (rule conn_inv_stopSends [OF assms(1) assms(2) [unfolded CStopSends]])
  next
    case CReaderExit
    then show ?thesis using assms inv by (auto simp: conn_inv_def writer_ok_def split: if_splits)
  next
    case CHeartbeatExit
    then have "c' = c\<lparr>heartbeat_done := True\<rparr>" using assms(2) by (auto simp: heartbeat_exit_def split: if_splits)
    then show ?thesis using inv by (simp add: conn_inv_def writer_ok_def)
  next
    case CDrainGoroutine
    then have "c' = c\<lparr>drainWriter_closed := True\<rparr>" "sendStop_fired c" "inflight c = []"
      using assms(2) by (auto simp: drain_goroutine_def split: if_splits)
    then show ?thesis using inv by (simp add: conn_inv_def writer_ok_def) blast
  next
    case CStart
    then show ?thesis using assms by (auto simp: start_conn_def conn_inv_def)
  next
    case (CReport opn err)
    then show ?thesis using assms by auto
  next
    case (CRefresh now)
    then show ?thesis using assms by (auto simp: refreshActivity_def conn_inv_def)
  next
    case (CReceived body)
    then show ?thesis using assms by (auto simp: countReceived_def conn_inv_def)
  qed
qed

lemma conn_reachable_inv: "conn_reachable c \<Longrightarrow> conn_inv c"
  unfolding conn_reachable_def using run_ops_invariant [of conn_inv] conn_exec_inv conn_inv_new by metis

lemmas conn_op_defs = start_conn_def openHook_return_def requestClose_def tryRequestClose_def requestCloseMatching_def
  closeTransport_def reportConnectionError_def Send_begin_def Send_enqueue_def Send_cancel_def quiesceReads_def
  stopSends_def drain_goroutine_def refreshActivity_def countReceived_def heartbeat_tick_def checkHeartbeat_def
  requestCloseIfOpen_def heartbeat_exit_def

text \<open>The reader's own step apart, no step touches the flag of the reader.\<close>

lemma conn_exec_reader_done:
  assumes "ev \<noteq> CReaderExit" "conn_exec ev c = Some (r, c')"
  shows "reader_done c' = reader_done c"
proof (cases ev)
  case (CWriter ev')
  then show ?thesis
    using assms by (cases ev') (auto simp: writeOutgoing_def closeAndReport_frame split: if_splits list.splits writer_pc.splits option.splits)
next
  case (CSupervise hook panicked)
  show ?thesis by (rule supervise_cases [OF CSupervise assms(2)]) simp
qed (use assms in \<open>auto simp: conn_op_defs obind_iffs Let_def split: if_splits option.splits outcome.splits bool.splits prod.splits\<close>)

text \<open>
  A connection whose writer has ended in an orderly way: everything was written, and nothing
  more is accepted. It stays so.
\<close>

definition quiet :: "netConnection \<Rightarrow> bool" where
  "quiet c \<longleftrightarrow> writer c = WriterDone \<and> inflight c = [] \<and> \<not> acceptingSends c \<and> written c = queued c"

lemma writer_done_quiet:
  assumes "conn_inv c" "writer c = WriterDone" "\<not> forceCtx_done c"
  shows "quiet c"
proof -
  have inv: "flags_ok c" "writer_ok c" "messages_ok c" using assms(1) by (simp_all add: conn_inv_def)
  have "drainWriter_closed c \<and> outgoing c = [] \<and> lost c = [] \<and> inflight c = [] \<and> \<not> acceptingSends c"
    using inv(1,2) assms(2,3) unfolding flags_ok_def writer_ok_def by blast
  then show ?thesis using inv(3) assms(2) by (auto simp: messages_ok_def quiet_def)
qed

lemma quiet_exec:
  assumes "quiet c" "conn_exec ev c = Some (r, c')"
  shows "quiet c'"
proof -
  have q: "writer c = WriterDone" "inflight c = []" "\<not> acceptingSends c" "written c = queued c"
    using assms(1) by (simp_all add: quiet_def)
  show ?thesis
  proof (cases ev)
    case (CWriter ev')
    then show ?thesis using assms(2) q(1) by (cases ev') (auto split: if_splits list.splits)
  next
    case (CSupervise hook panicked)
    show ?thesis by (rule supervise_cases [OF CSupervise assms(2)]) (use q in \<open>simp add: quiet_def\<close>)
  next
    case (CSend k event body)
    then show ?thesis using assms by (auto simp: Send_begin_def obind_iffs q(3) split: if_splits outcome.splits)
  qed (use assms(2) q in \<open>auto simp: quiet_def conn_op_defs Let_def map_delete_def
      split: if_splits option.splits prod.splits\<close>)
qed

lemma writer_done_exec:
  assumes "writer c = WriterDone" "conn_exec ev c = Some (r, c')"
  shows "writer c' = WriterDone"
proof (cases ev)
  case (CWriter ev')
  then show ?thesis using assms by (cases ev') (auto split: if_splits list.splits)
next
  case (CSupervise hook panicked)
  show ?thesis by (rule supervise_cases [OF CSupervise assms(2)]) (use assms(1) in simp)
next
  case (CSend k event body)
  then show ?thesis using assms by (auto simp: Send_begin_def obind_iffs split: if_splits outcome.splits)
qed (use assms in \<open>auto simp: conn_op_defs Let_def
    split: if_splits option.splits bool.splits prod.splits\<close>)

section \<open>Progress of the life cycle\<close>

text \<open>No step goes back: the state, the contexts, the reason of the close, the messages written.\<close>

definition later :: "netConnection \<Rightarrow> netConnection \<Rightarrow> bool" where
  "later c c' \<longleftrightarrow> state_rank (conn_state c) \<le> state_rank (conn_state c') \<and>
     (closeReason c \<noteq> None \<longrightarrow> closeReason c' = closeReason c) \<and>
     (acceptingSends c' \<longrightarrow> acceptingSends c) \<and> (forceCtx_done c \<longrightarrow> forceCtx_done c') \<and>
     prefix (written c) (written c') \<and> prefix (queued c) (queued c')"

lemma later_refl [simp]: "later c c"
  by (simp add: later_def)

lemma later_trans: "later c d \<Longrightarrow> later d e \<Longrightarrow> later c e"
  unfolding later_def by (metis order.trans prefix_order.trans)

lemma requestCloseMatching_later:
  assumes "conn_inv c"
  shows "later c (snd (requestCloseMatching opn err onlyOpen c))"
proof (cases "fst (requestCloseMatching opn err onlyOpen c)")
  case True
  then have "\<not> 2 \<le> state_rank (conn_state c)" by (auto simp: requestCloseMatching_def closed_iff split: if_splits)
  moreover from this have "closeReason c = None" using assms unfolding conn_inv_def flags_ok_def by blast
  ultimately show ?thesis
    by (auto simp: requestCloseMatching_def closeTransport_def later_def)
next
  case False
  then show ?thesis by (auto simp: requestCloseMatching_def split: if_splits)
qed

lemma later_updates [simp]:
  "later c (c'\<lparr>writer := w\<rparr>) = later c c'" "later c (c'\<lparr>lost := ms\<rparr>) = later c c'"
  "later c (c'\<lparr>openHook_done := b1\<rparr>) = later c c'" "later c (c'\<lparr>outgoing := ms2\<rparr>) = later c c'"
  "later c (c'\<lparr>inflight := ks\<rparr>) = later c c'" "later c (reportConnectionError opn err c') = later c c'"
  by (simp_all add: later_def reportConnectionError_def)

lemma conn_exec_later:
  assumes inv: "conn_inv c" and ex: "conn_exec ev c = Some (r, c')"
  shows "later c c'"
proof (cases ev)
  case (CWriter ev')
  have "later c (closeAndReport OperationWrite err c)" for err
    using requestCloseMatching_later [OF inv, of OperationWrite err False]
    by (simp add: closeAndReport_def tryRequestClose_def case_prod_beta)
  moreover have "later c (writeOutgoing m c)" for m
    by (simp add: writeOutgoing_def later_def)
  ultimately show ?thesis
    using ex CWriter by (cases ev') (auto split: if_splits list.splits writer_pc.splits option.splits)
next
  case (CClose opn err onlyOpen)
  then show ?thesis
    using ex requestCloseMatching_later [OF inv, of opn err onlyOpen] by (auto simp: map_prod_def split: prod.splits)
next
  case (CTick now timeout)
  then show ?thesis
    using ex requestCloseMatching_later [OF inv, of OperationHeartbeat DeadlineExceeded True]
    by (auto simp: heartbeat_tick_def checkHeartbeat_def requestCloseIfOpen_def split: if_splits)
next
  case (COpenHook panicked)
  let ?d = "\<lambda>err. reportConnectionError OperationOpenHook err c"
  have "later c (requestClose OperationOpenHook err (?d err))" for err
    using later_trans [of c "?d err"] requestCloseMatching_later [of "?d err" OperationOpenHook err False] inv
    by (simp add: requestClose_def tryRequestClose_def)
  then show ?thesis using ex COpenHook by (auto simp: openHook_return_def split: if_splits option.splits)
next
  case (CSupervise hook panicked)
  show ?thesis
    by (rule supervise_cases [OF CSupervise ex]) (cases "conn_state c"; simp add: later_def)
next
  case (CQuiesce e)
  then show ?thesis using ex by (cases "conn_state c") (auto simp: quiesceReads_def later_def Let_def split: if_splits)
next
  case CStopSends
  then show ?thesis using ex by (cases "conn_state c") (auto simp: stopSends_def later_def split: if_splits)
next
  case (CSend k event body)
  then show ?thesis using ex by (auto simp: Send_begin_def obind_iffs split: if_splits outcome.splits)
qed (use ex in \<open>auto simp: start_conn_def refreshActivity_def countReceived_def drain_goroutine_def heartbeat_exit_def Send_enqueue_def
    Send_cancel_def reportConnectionError_def later_def split: if_splits option.splits bool.splits\<close>)

lemma run_later:
  "run_ops conn_exec evs c = Some (rs, c') \<Longrightarrow> conn_inv c \<Longrightarrow> later c c'"
proof (induction evs arbitrary: c rs)
  case (Cons ev evs)
  then obtain r c1 rs' where "conn_exec ev c = Some (r, c1)" "run_ops conn_exec evs c1 = Some (rs', c')"
    unfolding run_ops_Cons_Some by blast
  with Cons show ?case using conn_exec_later conn_exec_inv later_trans by blast
qed simp

section \<open>Ending\<close>

text \<open>
  The steps that a connection makes by itself once it may neither read nor send: what its
  goroutines do, and the returns of the calls they are in (the write, the hook, the reader).
\<close>

fun winds_down :: "conn_event \<Rightarrow> bool" where
  "winds_down (COpenHook p) = True"
| "winds_down (CEnqueue k) = True"
| "winds_down (CCancel k e) = True"
| "winds_down (CWriter ev) = True"
| "winds_down CDrainGoroutine = True"
| "winds_down CHeartbeatExit = True"
| "winds_down CReaderExit = True"
| "winds_down (CSupervise h p) = True"
| "winds_down _ = False"

fun writer_left :: "writer_pc \<Rightarrow> nat" where
  "writer_left WriterDone = 0"
| "writer_left AtDrain = 1"
| "writer_left AtSelect = 2"
| "writer_left AtCheck = 3"
| "writer_left (Writing d m) = (if d then 2 else 4)"

definition conn_left :: "netConnection \<Rightarrow> nat" where
  "conn_left c = 8 * length (inflight c) + 4 * length (outgoing c) + writer_left (writer c) +
     (if drainWriter_closed c then 0 else 1) + (if openHook_done c then 0 else 1) +
     (if heartbeat_done c then 0 else 1) + (if reader_done c then 0 else 1) + (if finalized c then 0 else 1)"

lemma map_delete_shorter: "map_of m k = Some v \<Longrightarrow> length (map_delete k m) < length m"
  unfolding map_delete_def by (rule length_filter_less) (auto dest: map_of_SomeD)

lemma conn_left_close [simp]:
  "conn_left (requestClose opn err c) = conn_left c" "conn_left (reportConnectionError opn err c) = conn_left c"
  "conn_left (closeAndReport opn err c) = conn_left c" "openHook_done (requestClose opn err c) = openHook_done c"
  "openHook_done (reportConnectionError opn err c) = openHook_done c"
  by (simp_all add: requestClose_def tryRequestClose_def requestCloseMatching_def reportConnectionError_def
      closeTransport_def closeAndReport_def conn_left_def)

lemma conn_left_writer:
  "writer_left w < writer_left (writer c) \<Longrightarrow> conn_left (c\<lparr>writer := w\<rparr>) < conn_left c"
  "conn_left (c\<lparr>lost := ms\<rparr>) = conn_left c" "conn_left (writeOutgoing m c) = conn_left c"
  "\<not> openHook_done c \<Longrightarrow> conn_left (c\<lparr>openHook_done := True\<rparr>) < conn_left c"
  "\<not> heartbeat_done c \<Longrightarrow> conn_left (c\<lparr>heartbeat_done := True\<rparr>) < conn_left c"
  "\<not> reader_done c \<Longrightarrow> conn_left (c\<lparr>reader_done := True\<rparr>) < conn_left c"
  "\<not> drainWriter_closed c \<Longrightarrow> conn_left (c\<lparr>drainWriter_closed := True\<rparr>) < conn_left c"
  by (simp_all add: conn_left_def writeOutgoing_def)

lemma runWriter_decreases:
  assumes "runWriter ev c = Some c'"
  shows "conn_left c' < conn_left c"
  using assms
proof (cases rule: runWriter_cases)
  case (wrote d m)
  then show ?thesis
    using conn_left_writer(1) [of "if d then AtDrain else AtCheck" "writeOutgoing m c"]
    by (simp add: conn_left_writer(3)) (simp add: writeOutgoing_def split: if_splits)
next
  case (failed d m err)
  then show ?thesis
    using conn_left_writer(1) [of WriterDone "closeAndReport OperationWrite err c"]
    by (simp add: conn_left_writer(2) closeAndReport_frame split: if_splits)
next
  case (message m ms)
  then show ?thesis by (simp add: conn_left_def)
next
  case (draining m ms)
  then show ?thesis by (simp add: conn_left_def)
qed (simp_all add: conn_left_writer(1))

lemma winds_down_decreases:
  assumes "winds_down ev" "conn_exec ev c = Some (r, c')"
  shows "conn_left c' < conn_left c"
proof (cases ev)
  case (COpenHook p)
  then show ?thesis
    using assms conn_left_writer(4) [of "requestClose OperationOpenHook err (reportConnectionError OperationOpenHook err c)" for err]
    by (auto simp: openHook_return_def conn_left_writer(4) split: if_splits option.splits)
next
  case (CEnqueue k)
  then obtain m where m: "map_of (inflight c) k = Some m"
    and c': "c' = c\<lparr>outgoing := outgoing c @ [m], queued := queued c @ [m], inflight := map_delete k (inflight c)\<rparr>"
    using assms(2) by (auto simp: Send_enqueue_def split: option.splits if_splits)
  show ?thesis using map_delete_shorter [OF m] by (simp add: c' conn_left_def)
next
  case (CCancel k e)
  then obtain m where m: "map_of (inflight c) k = Some m" and c': "c' = c\<lparr>inflight := map_delete k (inflight c)\<rparr>"
    using assms(2) by (auto simp: Send_cancel_def split: option.splits bool.splits)
  show ?thesis using map_delete_shorter [OF m] by (simp add: c' conn_left_def)
next
  case (CWriter ev')
  then have "runWriter ev' c = Some c'" using assms(2) by (auto split: if_splits)
  then show ?thesis by (rule runWriter_decreases)
next
  case (CSupervise h p)
  show ?thesis
    by (rule supervise_cases [OF CSupervise assms(2)]) (simp add: conn_left_def)
qed (use assms in \<open>auto simp: drain_goroutine_def heartbeat_exit_def conn_left_writer split: if_splits\<close>)

lemma winds_down_enabled:
  assumes inv: "conn_inv c" and st: "conn_started c" "readCtx_done c" "sendCtx_done c" "\<not> finalized c"
  shows "\<exists>ev r c'. winds_down ev \<and> conn_exec ev c = Some (r, c')"
proof -
  have flags: "sendStop_fired c \<or> forceCtx_done c" using inv st by (auto simp: conn_inv_def flags_ok_def)
  consider (cancel) k m where "map_of (inflight c) k = Some m" | (idle) "inflight c = []"
    by (cases "inflight c") (auto, metis)
  then show ?thesis
  proof cases
    case cancel
    then show ?thesis using st by (intro exI [of _ "CCancel k None"]) (simp add: Send_cancel_def)
  next
    case idle
    show ?thesis
    proof (cases "writer c")
      case AtCheck
      then show ?thesis using st by (intro exI [of _ "CWriter Check"]) simp
    next
      case AtSelect
      show ?thesis
      proof (cases "forceCtx_done c")
        case True
        then show ?thesis using st AtSelect by (intro exI [of _ "CWriter PickForce"]) simp
      next
        case False
        then show ?thesis
          using st AtSelect idle flags
          by (cases "drainWriter_closed c")
            (intro exI [of _ "CWriter PickDrain"], simp, intro exI [of _ CDrainGoroutine], simp add: drain_goroutine_def)
      qed
    next
      case AtDrain
      then show ?thesis using st by (intro exI [of _ "CWriter DrainNext"]) (simp split: list.split)
    next
      case (Writing d m)
      then show ?thesis using st by (intro exI [of _ "CWriter (Write None)"]) simp
    next
      case WriterDone
      then show ?thesis
        using st
        by (cases "openHook_done c"; cases "reader_done c"; cases "heartbeat_done c")
          ((intro exI [of _ "CSupervise False None"], simp add: supervise_def Let_def; fail) |
           (intro exI [of _ "COpenHook None"], simp add: openHook_return_def; fail) |
           (intro exI [of _ CReaderExit], simp; fail) |
           (intro exI [of _ CHeartbeatExit], simp add: heartbeat_exit_def; fail))+
    qed
  qed
qed

text \<open>A closing connection stays one, so it is a machine that comes to an end.\<close>

definition closing :: "netConnection \<Rightarrow> bool" where
  "closing c \<longleftrightarrow> conn_inv c \<and> conn_started c \<and> readCtx_done c \<and> sendCtx_done c"

lemma conn_exec_flags:
  assumes "conn_exec ev c = Some (r, c')"
  shows "(conn_started c \<longrightarrow> conn_started c') \<and> (readCtx_done c \<longrightarrow> readCtx_done c') \<and> (sendCtx_done c \<longrightarrow> sendCtx_done c')"
proof (cases ev)
  case (CWriter ev')
  then show ?thesis
    using assms by (cases ev') (auto simp: writeOutgoing_def closeAndReport_def tryRequestClose_def requestCloseMatching_def
        closeTransport_def reportConnectionError_def split: if_splits list.splits writer_pc.splits option.splits)
next
  case (CSupervise hook panicked)
  show ?thesis by (rule supervise_cases [OF CSupervise assms]) simp
next
  case (CSend k event body)
  then show ?thesis using assms by (auto simp: Send_begin_def obind_iffs split: if_splits outcome.splits)
qed (use assms in \<open>auto simp: conn_op_defs Let_def split: if_splits option.splits bool.splits prod.splits\<close>)

interpretation cw: terminating conn_exec winds_down closing finalized conn_left
proof unfold_locales
  show step: "closing c'" if "closing c" "winds_down ev" "conn_exec ev c = Some (r, c')" for c ev r c'
    using that conn_exec_inv conn_exec_flags [OF that(3)] by (auto simp: closing_def)
  show "\<exists>ev r c'. winds_down ev \<and> conn_exec ev c = Some (r, c') \<and> conn_left c' < conn_left c" if "closing c" "\<not> finalized c" for c
    using that winds_down_enabled winds_down_decreases unfolding closing_def by blast
  show "conn_left c' < conn_left c" if "closing c" "winds_down ev" "conn_exec ev c = Some (r, c')" for c ev r c'
    using that winds_down_decreases by blast
qed

text \<open>Concrete connections: one that was closed, and one that has drained after a send.\<close>

definition fresh_conn :: netConnection where
  "fresh_conn = newNetConnection TransportTCP 4 0 zeroServerMetrics"

lemma reachableI: "run_ops conn_exec evs fresh_conn = Some (rs, c) \<Longrightarrow> conn_reachable c"
  unfolding conn_reachable_def fresh_conn_def by blast

definition closed_conn :: netConnection where
  "closed_conn = snd (requestCloseMatching OperationRead EOF False (start_conn fresh_conn))"

lemma closed_conn_reachable: "conn_reachable closed_conn"
  by (rule reachableI [of "[CStart, CClose OperationRead EOF False]"])
    (simp add: closed_conn_def map_prod_def case_prod_beta)

lemma closed_conn_flags:
  "conn_started closed_conn" "readCtx_done closed_conn" "sendCtx_done closed_conn" "\<not> finalized closed_conn"
  by (simp_all add: closed_conn_def fresh_conn_def newNetConnection_def start_conn_def requestCloseMatching_def closeTransport_def)

definition drain_events :: "conn_event list" where
  "drain_events = [CStart, CSend 0 7 [1], CEnqueue 0, CStopSends, CDrainGoroutine, CWriter Check, CWriter PickDrain,
     CWriter DrainNext, CWriter (Write None), CWriter DrainNext]"

definition drained_conn :: netConnection where
  "drained_conn = snd (the (run_ops conn_exec drain_events fresh_conn))"

lemma encode_sample: "Encoder_Encode \<lparr>Event = 7, Body = [1], BodySize = 1\<rparr> = Ok [7, 0, 0, 0, 1, 0, 0, 0, 1]"
  by (simp add: Encoder_Encode_eq le_PutUint32_def)

lemma drained_conn_run:
  "run_ops conn_exec drain_events fresh_conn \<noteq> None \<and> writer drained_conn = WriterDone \<and>
   \<not> forceCtx_done drained_conn \<and> queued drained_conn = [[7, 0, 0, 0, 1, 0, 0, 0, 1]]"
  by (simp add: drained_conn_def drain_events_def fresh_conn_def newNetConnection_def start_conn_def Send_begin_def
      encode_sample Send_enqueue_def map_delete_def stopSends_def drain_goroutine_def writeOutgoing_def)

lemma drained_conn_reachable: "conn_reachable drained_conn"
  using drained_conn_run
  by (intro reachableI [of drain_events "fst (the (run_ops conn_exec drain_events fresh_conn))"]) (auto simp: drained_conn_def)

section \<open>Properties\<close>



text \<open>
  C7. No message is lost in a graceful drain, and none is reordered or repeated. In every
  reachable connection the messages whose \<open>Send\<close> succeeded are those written, then the one
  whose write failed, then the one being written, then those in the queue, in that order; and
  when the writer has ended without the connection being forced to close, all of them have been
  written and no \<open>Send\<close> is under way.\<close>

theorem graceful_drain_lossless:
  assumes "conn_reachable c"
  shows "queued c = written c @ lost c @ in_write (writer c) @ outgoing c \<and>
    (writer c = WriterDone \<and> \<not> forceCtx_done c \<longrightarrow> written c = queued c \<and> inflight c = [] \<and> \<not> acceptingSends c)"
proof -
  have inv: "conn_inv c" by (rule conn_reachable_inv [OF assms])
  then show ?thesis using writer_done_quiet [OF inv] by (simp add: conn_inv_def messages_ok_def quiet_def)
qed

theorem graceful_drain_lossless_witness:
  "written drained_conn = [[7, 0, 0, 0, 1, 0, 0, 0, 1]] \<and> inflight drained_conn = []"
  using conjunct2 [OF graceful_drain_lossless [OF drained_conn_reachable]] drained_conn_run by auto



end
