(* ===== verification/Transports.thy ===== *)
theory Transports
  imports Wire Connection Handlers
begin

text \<open>
  The two transports, \<open>src/tcp_connection.go\<close> and \<open>src/ws_connection.go\<close>: how bytes and
  messages that arrive become requests, what is reported and closed when they do not, and the
  full write of \<open>src/tcp_connection.go\<close>. A reader runs as one of the goroutines of its
  connection; the other ones are those of the theory \<open>Connection\<close>.

  The body of the readers' loop, from one return of \<open>Read\<close> or \<open>ReadMessage\<close> to the next call,
  is a function. What the server does with a request, \<open>handleRequest\<close>, is an argument that acts
  on a state of its own.
\<close>

section \<open>State\<close>

text \<open>
  A connection with its reader: the embedded \<open>netConnection\<close>, its frame decoder and the
  server. \<open>received\<close> and \<open>handled\<close> are history: the bytes that were read, and the messages
  given to \<open>handleRequest\<close>.
\<close>

record 's transportConnection =
  base :: netConnection
  frameDecoder :: FrameDecoder
  server :: 's
  rx :: "byte list"
  handled :: "Message list"

type_synonym 's requestHandler = "Request \<Rightarrow> 's \<Rightarrow> go_error option \<times> 's"

definition on_base :: "(netConnection \<Rightarrow> netConnection) \<Rightarrow> 's transportConnection \<Rightarrow> 's transportConnection" where
  "on_base f c = c\<lparr>base := f (base c)\<rparr>"

text \<open>\<open>newNetConnection\<close> with the frame decoder that it configures.\<close>

definition newConnection ::
  "Transport \<Rightarrow> uint64 \<Rightarrow> uint32 \<Rightarrow> int \<Rightarrow> serverMetrics \<Rightarrow> 's \<Rightarrow> (go_error, 's transportConnection) outcome" where
  "newConnection transport maxFrameLength writeBufferSize now m s =
     obind (serverFrameDecoder maxFrameLength) (\<lambda>d.
       Ok \<lparr>base = newNetConnection transport writeBufferSize now m, frameDecoder = d, server = s,
           rx = [], handled = []\<rparr>)"

definition frameDecoderHasPending :: "'s transportConnection \<Rightarrow> bool" where
  "frameDecoderHasPending c \<longleftrightarrow> decoder_bytes (frameDecoder c) \<noteq> []"

text \<open>A decoded message is counted and given to the server.\<close>

definition dispatch :: "'s requestHandler \<Rightarrow> Message \<Rightarrow> 's transportConnection \<Rightarrow> go_error option \<times> 's transportConnection" where
  "dispatch handleRequest message c =
     (let c1 = on_base (countReceived (Body message)) c;
          (err, s) = handleRequest (newRequest message) (server c1)
      in (err, c1\<lparr>server := s, handled := handled c1 @ [message]\<rparr>))"

section \<open>TCP\<close>

text \<open>The cases \<open>ErrWorkerQueueFull\<close> and \<open>default\<close> of the switch have the same body.\<close>

fun process_frames ::
  "'s requestHandler \<Rightarrow> byte list list \<Rightarrow> 's transportConnection \<Rightarrow> (go_error, unit) outcome \<times> 's transportConnection" where
  "process_frames handleRequest [] c = (Ok (), c)"
| "process_frames handleRequest (frame # frames) c =
     (case Decoder_Decode frame of
        Panic \<Rightarrow> (Panic, c)
      | Err err \<Rightarrow> (Err err, c)
      | Ok message \<Rightarrow>
          (case dispatch handleRequest message c of
             (None, c1) \<Rightarrow> process_frames handleRequest frames c1
           | (Some err, c1) \<Rightarrow>
               if is_ErrServerStopping err then (Err ErrServerStopping, c1)
               else (Ok (), on_base (requestClose OperationTask err) (on_base (reportConnectionError OperationTask err) c1))))"

definition processInput ::
  "'s requestHandler \<Rightarrow> byte list \<Rightarrow> 's transportConnection \<Rightarrow> ((go_error, unit) outcome \<times> 's transportConnection) option" where
  "processInput handleRequest input c =
     map_option (\<lambda>(frames, d).
         case frames of
           Ok fs \<Rightarrow> process_frames handleRequest fs (c\<lparr>frameDecoder := d\<rparr>)
         | Err err \<Rightarrow> (Err err, c\<lparr>frameDecoder := d\<rparr>)
         | Panic \<Rightarrow> (Panic, c\<lparr>frameDecoder := d\<rparr>))
       (FrameDecoder_Decode (frameDecoder c) input)"

text \<open>How a round of a reader ends: it reads again, returns, or panics.\<close>

datatype round = Again | Exit | Crash

text \<open>\<open>reportConnectionError\<close> followed by \<open>requestClose\<close>.\<close>

definition report_and_close :: "ConnectionOperation \<Rightarrow> go_error \<Rightarrow> 's transportConnection \<Rightarrow> 's transportConnection" where
  "report_and_close opn err c = on_base (requestClose opn err) (on_base (reportConnectionError opn err) c)"

text \<open>The part of a round after the input has been processed.\<close>

definition after_input :: "go_error option \<Rightarrow> 's transportConnection \<Rightarrow> round \<times> 's transportConnection" where
  "after_input readErr c =
     (case readErr of
        None \<Rightarrow> (Again, c)
      | Some err \<Rightarrow>
          if readCtx_done (base c) \<or> forceCtx_done (base c) then (Exit, c)
          else if \<not> is_EOF err \<and> \<not> is_NetErrClosed err then (Exit, report_and_close OperationRead err c)
          else if frameDecoderHasPending c
          then (Exit, report_and_close OperationProtocol (ErrInvalidFrame ConnectionEndedPartial) c)
          else (Exit, on_base (requestClose OperationRead err) c))"

definition tcp_reader ::
  "'s requestHandler \<Rightarrow> int \<Rightarrow> byte list \<Rightarrow> go_error option \<Rightarrow> 's transportConnection \<Rightarrow>
   (round \<times> 's transportConnection) option" where
  "tcp_reader handleRequest now input readErr c =
     (let c0 = c\<lparr>rx := rx c @ input\<rparr> in
      if input = [] then Some (after_input readErr c0)
      else map_option (\<lambda>(result, c1).
             case result of
               Panic \<Rightarrow> (Crash, c1)
             | Err err \<Rightarrow>
                 if is_ErrServerStopping err then (Exit, c1) else (Exit, report_and_close OperationProtocol err c1)
             | Ok _ \<Rightarrow>
                 if state_rank (conn_state (base c1)) \<ge> state_rank connectionClosing then (Exit, c1)
                 else after_input readErr c1)
           (processInput handleRequest input (on_base (refreshActivity now) c0)))"

section \<open>WebSocket\<close>

definition BinaryMessage :: int where "BinaryMessage = 2"
definition CloseNormalClosure :: nat where "CloseNormalClosure = 1000"
definition CloseGoingAway :: nat where "CloseGoingAway = 1001"

fun IsCloseError :: "go_error \<Rightarrow> nat list \<Rightarrow> bool" where
  "IsCloseError (CloseError code) codes = (code \<in> set codes)"
| "IsCloseError _ codes = False"

definition ws_fail :: "ConnectionOperation \<Rightarrow> go_error \<Rightarrow> 's transportConnection \<Rightarrow> 's transportConnection" where
  "ws_fail opn err c = on_base (closeAndReport opn err) c"

text \<open>The handlers for ping and pong frames; \<open>write_err\<close> is what \<open>WriteControl\<close> returns.\<close>

definition pingHandler :: "int \<Rightarrow> go_error option \<Rightarrow> 's transportConnection \<Rightarrow> go_error option \<times> 's transportConnection" where
  "pingHandler now write_err c =
     (let c1 = on_base (refreshActivity now) c
      in (write_err, case write_err of None \<Rightarrow> c1 | Some err \<Rightarrow> on_base (closeAndReport OperationWrite err) c1))"

definition pongHandler :: "int \<Rightarrow> 's transportConnection \<Rightarrow> 's transportConnection" where
  "pongHandler now c = on_base (refreshActivity now) c"

fun ws_frames ::
  "'s requestHandler \<Rightarrow> byte list list \<Rightarrow> 's transportConnection \<Rightarrow> round \<times> 's transportConnection" where
  "ws_frames handleRequest [] c = (Again, c)"
| "ws_frames handleRequest (frame # frames) c =
     (case Decoder_Decode frame of
        Panic \<Rightarrow> (Crash, c)
      | Err err \<Rightarrow> (Exit, ws_fail OperationProtocol err c)
      | Ok message \<Rightarrow>
          (case dispatch handleRequest message c of
             (None, c1) \<Rightarrow> ws_frames handleRequest frames c1
           | (Some err, c1) \<Rightarrow>
               (Exit, if is_ErrServerStopping err then c1 else ws_fail OperationTask err c1)))"

text \<open>What \<open>ReadMessage\<close> returns: an error, or a message with its type.\<close>

definition ws_reader ::
  "'s requestHandler \<Rightarrow> int \<Rightarrow> go_error + (int \<times> byte list) \<Rightarrow> 's transportConnection \<Rightarrow>
   (round \<times> 's transportConnection) option" where
  "ws_reader handleRequest now result c =
     (case result of
        Inl err \<Rightarrow>
          Some (Exit,
            if readCtx_done (base c) \<or> forceCtx_done (base c) then c
            else if is_NetErrClosed err \<or> IsCloseError err [CloseNormalClosure, CloseGoingAway]
            then on_base (requestClose OperationRead err) c
            else on_base (closeAndReport OperationRead err) c)
      | Inr (messageType, buffer) \<Rightarrow>
          if messageType \<noteq> BinaryMessage
          then Some (Exit, ws_fail OperationProtocol (ErrInvalidFrame MessageNotBinary) c)
          else if buffer = [] then Some (Exit, ws_fail OperationProtocol (ErrInvalidFrame MessageEmpty) c)
          else
            let c0 = on_base (refreshActivity now) (c\<lparr>rx := rx c @ buffer\<rparr>) in
            map_option (\<lambda>(frames, d).
                let c1 = c0\<lparr>frameDecoder := d\<rparr> in
                case frames of
                  Panic \<Rightarrow> (Crash, c1)
                | Err err \<Rightarrow> (Exit, ws_fail OperationProtocol err c1)
                | Ok fs \<Rightarrow>
                    if frameDecoderHasPending c1
                    then (Exit, ws_fail OperationProtocol (ErrInvalidFrame MessageEndedPartial) c1)
                    else ws_frames handleRequest fs c1)
              (FrameDecoder_Decode (frameDecoder c0) buffer))"

section \<open>Writing\<close>

text \<open>
  \<open>socketWrite\<close> is the method \<open>Write\<close> of the socket: the count and the error that it returns, and
  the socket afterwards.
\<close>

function writeFull ::
  "('w \<Rightarrow> byte list \<Rightarrow> (int \<times> go_error option) \<times> 'w) \<Rightarrow> 'w \<Rightarrow> byte list \<Rightarrow> go_error option \<times> 'w" where
  "writeFull socketWrite w data =
     (if length data > 0 then
        let ((n, err), w') = socketWrite w data in
        if n < 0 \<or> n > int (length data) then (Some ErrShortWrite, w')
        else if err \<noteq> None then (err, w')
        else if n = 0 then (Some ErrNoProgress, w')
        else writeFull socketWrite w' (drop (nat n) data)
      else (None, w))"
  by pat_completeness auto
termination
  by (relation "measure (\<lambda>(socketWrite, w, data). length data)") auto

declare writeFull.simps [simp del]

section \<open>Runs\<close>

text \<open>
  A connection at work: rounds of its reader and steps of its other goroutines in any order.
  \<open>'i\<close> is what one read returns, with the time; when a round is the last one the goroutine
  ends. The control handlers run inside \<open>ReadMessage\<close>; their effect is one of the steps of the
  embedded connection.
\<close>

datatype 'i transport_event = TRound int 'i | TBase conn_event

fun transport_exec ::
  "(int \<Rightarrow> 'i \<Rightarrow> 's transportConnection \<Rightarrow> (round \<times> 's transportConnection) option) \<Rightarrow>
   'i transport_event \<Rightarrow> 's transportConnection \<Rightarrow> (round option \<times> 's transportConnection) option" where
  "transport_exec reader (TRound now i) c =
     (if conn_started (base c) \<and> \<not> reader_done (base c)
      then map_option (\<lambda>(r, c'). (Some r, if r = Again then c' else on_base (reader_done_update (\<lambda>_. True)) c'))
             (reader now i c)
      else None)"
| "transport_exec reader (TBase ev) c =
     (if ev = CReaderExit then None
      else map_option (\<lambda>(r, b). (None, c\<lparr>base := b\<rparr>)) (conn_exec ev (base c)))"

abbreviation tcp_exec ::
  "'s requestHandler \<Rightarrow> (byte list \<times> go_error option) transport_event \<Rightarrow> 's transportConnection \<Rightarrow>
   (round option \<times> 's transportConnection) option" where
  "tcp_exec handleRequest \<equiv> transport_exec (\<lambda>now (input, readErr). tcp_reader handleRequest now input readErr)"

abbreviation ws_exec ::
  "'s requestHandler \<Rightarrow> (go_error + int \<times> byte list) transport_event \<Rightarrow> 's transportConnection \<Rightarrow>
   (round option \<times> 's transportConnection) option" where
  "ws_exec handleRequest \<equiv> transport_exec (ws_reader handleRequest)"

text \<open>A connection that has run from its creation.\<close>

definition transport_reachable ::
  "(int \<Rightarrow> 'i \<Rightarrow> 's transportConnection \<Rightarrow> (round \<times> 's transportConnection) option) \<Rightarrow> uint64 \<Rightarrow>
   's transportConnection \<Rightarrow> bool" where
  "transport_reachable reader maxFrameLength c \<longleftrightarrow> (\<exists>transport bufsize now m s c0 evs rs.
     newConnection transport maxFrameLength bufsize now m s = Ok c0 \<and>
     run_ops (transport_exec reader) evs c0 = Some (rs, c))"

section \<open>What a reader does to its connection\<close>

text \<open>
  A reader changes the embedded connection only by the steps of the theory \<open>Connection\<close> that
  any goroutine may make: it refreshes the activity, counts a message, reports, and closes.
\<close>

fun reader_event :: "conn_event \<Rightarrow> bool" where
  "reader_event (CRefresh now) = True"
| "reader_event (CReceived body) = True"
| "reader_event (CReport opn err) = True"
| "reader_event (CClose opn err onlyOpen) = True"
| "reader_event _ = False"

definition reader_step :: "netConnection \<Rightarrow> netConnection \<Rightarrow> bool" where
  "reader_step b b' \<longleftrightarrow> (\<exists>ev r. reader_event ev \<and> conn_exec ev b = Some (r, b'))"

lemma reader_step_ops:
  "reader_step b (refreshActivity now b)" "reader_step b (countReceived body b)"
  "reader_step b (reportConnectionError opn err b)" "reader_step b (requestClose opn err b)"
proof -
  show "reader_step b (refreshActivity now b)"
    unfolding reader_step_def by (rule exI [of _ "CRefresh now"]) simp
  show "reader_step b (countReceived body b)"
    unfolding reader_step_def by (rule exI [of _ "CReceived body"]) simp
  show "reader_step b (reportConnectionError opn err b)"
    unfolding reader_step_def by (rule exI [of _ "CReport opn err"]) simp
  show "reader_step b (requestClose opn err b)"
    unfolding reader_step_def requestClose_def tryRequestClose_def
    by (rule exI [of _ "CClose opn err False"]) (simp add: map_prod_def case_prod_beta)
qed

lemma reader_steps_closeAndReport: "reader_step\<^sup>*\<^sup>* b (closeAndReport opn err b)"
proof -
  have "closeAndReport opn err b = requestClose opn err b \<or>
      closeAndReport opn err b = reportConnectionError opn err (requestClose opn err b)"
    by (simp add: closeAndReport_def requestClose_def case_prod_beta)
  then show ?thesis
    using reader_step_ops(3,4) by (metis converse_rtranclp_into_rtranclp r_into_rtranclp)
qed

text \<open>So are the control handlers of a WebSocket connection.\<close>

lemma control_handlers_steps:
  "reader_step\<^sup>*\<^sup>* (base c) (base (snd (pingHandler now write_err c)))" "reader_step (base c) (base (pongHandler now c))"
proof -
  have "reader_step\<^sup>*\<^sup>* (base c) (closeAndReport OperationWrite err (refreshActivity now (base c)))" for err
    by (rule converse_rtranclp_into_rtranclp [of reader_step, OF reader_step_ops(1) reader_steps_closeAndReport])
  then show "reader_step\<^sup>*\<^sup>* (base c) (base (snd (pingHandler now write_err c)))"
    using r_into_rtranclp [of reader_step, OF reader_step_ops(1)]
    by (simp add: pingHandler_def on_base_def Let_def split: option.split)
  show "reader_step (base c) (base (pongHandler now c))" by (simp add: pongHandler_def on_base_def reader_step_ops)
qed

lemma reader_step_frame:
  "reader_step b b' \<Longrightarrow> reader_done b' = reader_done b \<and> conn_started b' = conn_started b"
  by (auto simp: reader_step_def refreshActivity_def countReceived_def reportConnectionError_def
      requestCloseMatching_def closeTransport_def elim!: reader_event.elims split: if_splits)

lemma reader_steps_frame:
  assumes "reader_step\<^sup>*\<^sup>* b b'"
  shows "reader_done b' = reader_done b \<and> conn_started b' = conn_started b"
  using assms by (induction rule: rtranclp_induct) (auto dest: reader_step_frame)

lemma reader_steps_reachable: "reader_step\<^sup>*\<^sup>* b b' \<Longrightarrow> conn_reachable b \<Longrightarrow> conn_reachable b'"
  by (induction rule: rtranclp_induct) (auto simp: reader_step_def intro: conn_reachable_step)

lemma requestClose_closing: "2 \<le> state_rank (conn_state (requestClose opn err b))"
  by (simp add: requestClose_def tryRequestClose_def requestCloseMatching_def closeTransport_def)

section \<open>The interface of a reader\<close>

text \<open>
  \<open>carries ms ds\<close>: the byte strings \<open>ds\<close> are the encodings of the messages \<open>ms\<close>.
  \<open>round_ok\<close> is what a round promises: it never panics; what it adds to the history is a list
  of messages whose encodings are, in order, the first bytes of the buffer followed by what was
  read; and if the reader goes on, the bytes behind them are what the frame decoder still holds.
\<close>

definition carries :: "Message list \<Rightarrow> byte list list \<Rightarrow> bool" where
  "carries ms ds \<longleftrightarrow> list_all2 (\<lambda>m bs. message_ok m \<and> Encoder_Encode m = Ok bs) ms ds"

definition decoding :: "uint64 \<Rightarrow> 's transportConnection \<Rightarrow> bool" where
  "decoding maxFrameLength c \<longleftrightarrow> is_server_decoder (frameDecoder c) \<and> drained (frameDecoder c) \<and>
     FD_MaxFrameLength (frameDecoder c) = maxFrameLength"

definition round_ok ::
  "('s transportConnection \<Rightarrow> bool) \<Rightarrow> 's transportConnection \<Rightarrow> round \<Rightarrow> 's transportConnection \<Rightarrow> bool" where
  "round_ok reading c r c' \<longleftrightarrow> r \<noteq> Crash \<and> reader_step\<^sup>*\<^sup>* (base c) (base c') \<and>
     (\<exists>ms ds input rest. handled c' = handled c @ ms \<and> carries ms ds \<and> rx c' = rx c @ input \<and>
        decoder_bytes (frameDecoder c) @ input = concat ds @ rest \<and>
        (r = Again \<longrightarrow> reading c' \<and> rest = decoder_bytes (frameDecoder c')))"

locale request_reader =
  fixes reader :: "int \<Rightarrow> 'i \<Rightarrow> 's transportConnection \<Rightarrow> (round \<times> 's transportConnection) option"
    and reading :: "uint64 \<Rightarrow> 's transportConnection \<Rightarrow> bool"
  assumes reading_base: "reading maxlen (c\<lparr>base := b\<rparr>) = reading maxlen c"
    and reading_new: "8 \<le> maxlen \<Longrightarrow> newConnection transport maxlen bufsize now m s = Ok c \<Longrightarrow> reading maxlen c"
    and reading_round: "reading maxlen c \<Longrightarrow> \<exists>r c'. reader now i c = Some (r, c') \<and> round_ok (reading maxlen) c r c'"
begin

text \<open>The history of a connection, over all interleavings of its goroutines.\<close>

definition delivered :: "uint64 \<Rightarrow> 's transportConnection \<Rightarrow> bool" where
  "delivered maxlen c \<longleftrightarrow> conn_reachable (base c) \<and>
     (\<exists>ds rest. carries (handled c) ds \<and> rx c = concat ds @ rest \<and>
        (\<not> reader_done (base c) \<longrightarrow> reading maxlen c \<and> rest = decoder_bytes (frameDecoder c)))"

lemma delivered_new:
  assumes "8 \<le> maxlen" "newConnection transport maxlen bufsize now m s = Ok c"
  shows "delivered maxlen c"
proof -
  have "base c = newNetConnection transport bufsize now m" "rx c = []" "handled c = []"
    and "serverFrameDecoder maxlen = Ok (frameDecoder c)"
    using assms(2) by (auto simp: newConnection_def obind_Ok_iff)
  moreover from this(4) have "decoder_bytes (frameDecoder c) = []"
    using assms(1) by (simp add: serverFrameDecoder_Ok) (metis outcome.inject(1) server_decoder_empty)
  moreover have "conn_reachable (newNetConnection transport bufsize now m)"
    unfolding conn_reachable_def by (metis run_ops.simps(1))
  ultimately show ?thesis
    using reading_new [OF assms] by (auto simp: delivered_def carries_def)
qed

lemma delivered_round:
  assumes "delivered maxlen c" "\<not> reader_done (base c)" "conn_started (base c)"
  shows "\<exists>r c'. transport_exec reader (TRound now i) c = Some (Some r, c') \<and> r \<noteq> Crash \<and> delivered maxlen c'"
proof -
  from assms(1,2) obtain ds where c: "reading maxlen c" "carries (handled c) ds"
    "rx c = concat ds @ decoder_bytes (frameDecoder c)" and reach: "conn_reachable (base c)"
    unfolding delivered_def by blast
  from reading_round [OF c(1)] obtain r c' where rd: "reader now i c = Some (r, c')" "round_ok (reading maxlen) c r c'"
    by blast
  then obtain ms ds' input rest where r: "r \<noteq> Crash" "reader_step\<^sup>*\<^sup>* (base c) (base c')"
    "handled c' = handled c @ ms" "carries ms ds'" "rx c' = rx c @ input"
    "decoder_bytes (frameDecoder c) @ input = concat ds' @ rest"
    "r = Again \<longrightarrow> reading maxlen c' \<and> rest = decoder_bytes (frameDecoder c')"
    unfolding round_ok_def by blast
  let ?c = "if r = Again then c' else on_base (reader_done_update (\<lambda>_. True)) c'"
  have base': "conn_reachable (base c')" using reader_steps_reachable [OF r(2) reach] .
  moreover have exit: "conn_exec CReaderExit (base c') = Some (RNone, (base c')\<lparr>reader_done := True\<rparr>)"
    using reader_steps_frame [OF r(2)] assms(2,3) by simp
  ultimately have "conn_reachable (base ?c)"
    using conn_reachable_step [OF base' exit] by (simp add: on_base_def)
  moreover have "carries (handled ?c) (ds @ ds')" "rx ?c = concat (ds @ ds') @ rest"
    using c(2,3) r(3-6) by (auto simp: carries_def on_base_def list_all2_appendI)
  moreover have "\<not> reader_done (base ?c) \<longrightarrow> reading maxlen ?c \<and> rest = decoder_bytes (frameDecoder ?c)"
    using r(7) by (simp add: on_base_def)
  ultimately have "delivered maxlen ?c" unfolding delivered_def by blast
  then show ?thesis using rd(1) r(1) assms(2,3) by simp
qed

lemma delivered_exec:
  assumes "delivered maxlen c" "transport_exec reader ev c = Some (r, c')"
  shows "delivered maxlen c'"
proof (cases ev)
  case (TRound now i)
  with assms(2) have "conn_started (base c)" "\<not> reader_done (base c)" by (simp_all split: if_splits)
  with delivered_round [OF assms(1), of now i] assms(2) TRound show ?thesis by auto
next
  case (TBase ev')
  with assms(2) obtain r' where ev: "ev' \<noteq> CReaderExit" "conn_exec ev' (base c) = Some (r', base c')"
    and c': "c' = c\<lparr>base := base c'\<rparr>"
    by (auto split: if_splits)
  have "reader_done (base c') = reader_done (base c)" by (rule conn_exec_reader_done [OF ev])
  moreover have "conn_reachable (base c')"
    using assms(1) ev(2) conn_reachable_step unfolding delivered_def by blast
  moreover have "handled c' = handled c" "rx c' = rx c" "frameDecoder c' = frameDecoder c" "reading maxlen c' = reading maxlen c"
    using reading_base [where c = c and b = "base c'"] by (subst c', simp)+
  ultimately show ?thesis using assms(1) unfolding delivered_def by simp
qed

lemma reachable_delivered:
  assumes "8 \<le> maxlen" "transport_reachable reader maxlen c"
  shows "delivered maxlen c"
  using assms delivered_new delivered_exec run_ops_invariant [of "delivered maxlen"]
  unfolding transport_reachable_def by metis

end

section \<open>Frames of a connection\<close>

text \<open>
  What the frame decoder of a connection does with the next bytes: it gives the encodings of
  messages, or the one error that can occur with the server's configuration.
\<close>

lemma server_decodeOne_error:
  assumes "is_server_decoder d" "decodeOne d buf = Err e"
  shows "e = ErrFrameTooLarge"
proof -
  have "headerSize \<le> length buf"
    using assms is_server_decoder_fields(6) [OF assms(1)] by (auto simp: decodeOne_def headerSize_def split: if_splits)
  then obtain ev sz ys where "buf = le_PutUint32 ev @ le_PutUint32 sz @ ys" by (rule header_split)
  with assms server_decodeOne_header [OF assms(1)] show ?thesis by (auto split: if_splits)
qed

lemma server_Decode:
  assumes d: "decoding maxlen c"
  obtains (frames) ms ds d' where "FrameDecoder_Decode (frameDecoder c) input = Some (Ok ds, d')"
      "carries ms ds" "decoder_bytes (frameDecoder c) @ input = concat ds @ decoder_bytes d'"
      "decoding maxlen (c\<lparr>frameDecoder := d'\<rparr>)"
  | (error) d' where "FrameDecoder_Decode (frameDecoder c) input = Some (Err ErrFrameTooLarge, d')"
      "decoder_bytes d' = []"
proof -
  let ?d = "frameDecoder c"
  have srv: "is_server_decoder ?d" and v: "valid_decoder ?d"
    using d is_server_decoder_fields(7) by (auto simp: decoding_def)
  consider e where "FrameDecoder_Decode ?d input = Some (Err e, ?d\<lparr>decoder_bytes := []\<rparr>)"
    | ds rest where "FrameDecoder_Decode ?d input = Some (Ok ds, ?d\<lparr>decoder_bytes := rest\<rparr>)"
    using FrameDecoder_Decode_result [OF v, of input] by blast
  then show thesis
  proof cases
    case (1 e)
    then have "decode_loop ?d (decoder_bytes ?d @ input) [] = Some (Err e, [])"
      by (auto simp: FrameDecoder_Decode_def dest!: arg_cong [where f = decoder_bytes])
    from fd.loop_error_source [OF v this] have "e = ErrFrameTooLarge" using server_decodeOne_error [OF srv] by blast
    with 1 show thesis by (intro error [of "?d\<lparr>decoder_bytes := []\<rparr>"]) simp_all
  next
    case (2 ds rest)
    then have "decode_loop ?d (decoder_bytes ?d @ input) [] = Some (Ok ds, rest)"
      by (auto simp: FrameDecoder_Decode_def dest!: arg_cong [where f = decoder_bytes])
    from fc.loop_decoded [OF srv this] obtain ms where
      ms: "list_all2 (\<lambda>m bs. message_ok m \<and> fits_frame ?d m \<and> Encoder_Encode m = Ok bs) ms ds"
        "decoder_bytes ?d @ input = concat ds @ rest" by auto
    have "carries ms ds" unfolding carries_def by (rule list_all2_mono [OF ms(1)]) simp
    moreover have "decoding maxlen (c\<lparr>frameDecoder := ?d\<lparr>decoder_bytes := rest\<rparr>\<rparr>)"
      using d Decode_drained [OF v 2] is_server_decoder_bytes [OF srv] by (simp add: decoding_def)
    ultimately show thesis using 2 ms(2) by (intro frames) simp_all
  qed
qed

lemma carries_decode: "carries ms ds \<Longrightarrow> list_all2 (\<lambda>m bs. Decoder_Decode bs = Ok m \<and> message_ok m \<and> Encoder_Encode m = Ok bs) ms ds"
  unfolding carries_def by (erule list_all2_mono) (simp add: mc.dec_enc)

lemma carries_simps [simp]:
  "carries [] ds = (ds = [])"
  "carries (m # ms) (d # ds) = (message_ok m \<and> Encoder_Encode m = Ok d \<and> carries ms ds)"
  by (simp_all add: carries_def)

lemma carries_split: "carries (ms @ ns) ds \<Longrightarrow> \<exists>ds1 ds2. ds = ds1 @ ds2 \<and> carries ms ds1 \<and> carries ns ds2"
  unfolding carries_def list_all2_append1 by auto

lemma carries_maps: "carries ms ds \<Longrightarrow> list_all message_ok ms \<and> map Encoder_Encode ms = map Ok ds"
  unfolding carries_def by (induction rule: list_all2_induct) auto

lemma dispatch_frame:
  assumes "dispatch h m c = (e, c')"
  shows "handled c' = handled c @ [m]" "rx c' = rx c" "frameDecoder c' = frameDecoder c"
    "base c' = countReceived (Body m) (base c)"
  using assms by (auto simp: dispatch_def on_base_def Let_def split: prod.splits)

lemma on_base_frame [simp]:
  "handled (on_base f c) = handled c" "rx (on_base f c) = rx c" "frameDecoder (on_base f c) = frameDecoder c"
  "base (on_base f c) = f (base c)" "server (on_base f c) = server c"
  by (simp_all add: on_base_def)

lemma report_and_close_frame [simp]:
  "handled (report_and_close opn err c) = handled c" "rx (report_and_close opn err c) = rx c"
  "frameDecoder (report_and_close opn err c) = frameDecoder c"
  "base (report_and_close opn err c) = requestClose opn err (reportConnectionError opn err (base c))"
  by (simp_all add: report_and_close_def)

lemma ws_fail_frame [simp]:
  "handled (ws_fail opn err c) = handled c" "rx (ws_fail opn err c) = rx c"
  "frameDecoder (ws_fail opn err c) = frameDecoder c" "base (ws_fail opn err c) = closeAndReport opn err (base c)"
  by (simp_all add: ws_fail_def)

lemma decoding_cong: "frameDecoder c' = frameDecoder c \<Longrightarrow> decoding maxlen c' = decoding maxlen c"
  by (simp add: decoding_def)

lemma reader_steps_report_close: "reader_step\<^sup>*\<^sup>* b (requestClose opn err (reportConnectionError opn err b))"
  by (meson converse_rtranclp_into_rtranclp r_into_rtranclp reader_step_ops)

text \<open>
  The loops over the frames of one read: they take up messages from the front, and all of them
  unless the server stops, or a request is refused and the connection closed for it.
\<close>

lemma process_frames_result:
  assumes "carries ms ds" "process_frames h ds c = (res, c')"
  shows "\<exists>taken left. ms = taken @ left \<and> handled c' = handled c @ taken \<and> rx c' = rx c \<and>
    frameDecoder c' = frameDecoder c \<and> reader_step\<^sup>*\<^sup>* (base c) (base c') \<and>
    (res = Ok () \<and> (left = [] \<or> 2 \<le> state_rank (conn_state (base c'))) \<or> res = Err ErrServerStopping)"
  using carries_decode [OF assms(1)] assms(2)
proof (induction arbitrary: c rule: list_all2_induct)
  case Nil
  then show ?case by auto
next
  case (Cons m ms d ds)
  obtain e c1 where dis: "dispatch h m c = (e, c1)" by (cases "dispatch h m c")
  note f = dispatch_frame [OF dis]
  have b: "reader_step (base c) (base c1)" unfolding f(4) by (rule reader_step_ops)
  show ?case
  proof (cases e)
    case None
    with Cons dis have "process_frames h ds c1 = (res, c')" by simp
    from Cons.IH [OF this] obtain taken left where IH: "ms = taken @ left" "handled c' = handled c1 @ taken"
      "rx c' = rx c1" "frameDecoder c' = frameDecoder c1" "reader_step\<^sup>*\<^sup>* (base c1) (base c')"
      "res = Ok () \<and> (left = [] \<or> 2 \<le> state_rank (conn_state (base c'))) \<or> res = Err ErrServerStopping"
      by blast
    then show ?thesis
      using f converse_rtranclp_into_rtranclp [of reader_step, OF b IH(5)] by (intro exI [of _ "m # taken"] exI [of _ left]) simp
  next
    case (Some err)
    show ?thesis
    proof (cases "is_ErrServerStopping err")
      case True
      with Some Cons dis have "res = Err ErrServerStopping" "c' = c1" by auto
      then show ?thesis using f b by (intro exI [of _ "[m]"] exI [of _ ms]) auto
    next
      case False
      with Some Cons dis have "res = Ok ()"
        and c': "c' = on_base (requestClose OperationTask err) (on_base (reportConnectionError OperationTask err) c1)" by auto
      have "reader_step\<^sup>*\<^sup>* (base c) (base c')"
        unfolding c' by (simp add: converse_rtranclp_into_rtranclp [of reader_step, OF b reader_steps_report_close])
      with \<open>res = Ok ()\<close> f requestClose_closing show ?thesis
        by (intro exI [of _ "[m]"] exI [of _ ms]) (simp add: c')
    qed
  qed
qed

lemma ws_frames_result:
  assumes "carries ms ds" "ws_frames h ds c = (r, c')"
  shows "\<exists>taken left. ms = taken @ left \<and> handled c' = handled c @ taken \<and> rx c' = rx c \<and>
    frameDecoder c' = frameDecoder c \<and> reader_step\<^sup>*\<^sup>* (base c) (base c') \<and>
    (r = Again \<and> left = [] \<or> r = Exit)"
  using carries_decode [OF assms(1)] assms(2)
proof (induction arbitrary: c rule: list_all2_induct)
  case Nil
  then show ?case by auto
next
  case (Cons m ms d ds)
  obtain e c1 where dis: "dispatch h m c = (e, c1)" by (cases "dispatch h m c")
  note f = dispatch_frame [OF dis]
  have b: "reader_step (base c) (base c1)" unfolding f(4) by (rule reader_step_ops)
  show ?case
  proof (cases e)
    case None
    with Cons dis have "ws_frames h ds c1 = (r, c')" by simp
    from Cons.IH [OF this] obtain taken left where IH: "ms = taken @ left" "handled c' = handled c1 @ taken"
      "rx c' = rx c1" "frameDecoder c' = frameDecoder c1" "reader_step\<^sup>*\<^sup>* (base c1) (base c')"
      "r = Again \<and> left = [] \<or> r = Exit"
      by blast
    then show ?thesis
      using f converse_rtranclp_into_rtranclp [of reader_step, OF b IH(5)] by (intro exI [of _ "m # taken"] exI [of _ left]) simp
  next
    case (Some err)
    with Cons dis have "r = Exit" and c': "c' = (if is_ErrServerStopping err then c1 else ws_fail OperationTask err c1)" by auto
    have "reader_step\<^sup>*\<^sup>* (base c) (base c')"
      using r_into_rtranclp [of reader_step, OF b]
        converse_rtranclp_into_rtranclp [of reader_step, OF b reader_steps_closeAndReport] by (simp add: c')
    with \<open>r = Exit\<close> f show ?thesis by (intro exI [of _ "[m]"] exI [of _ ms]) (simp add: c')
  qed
qed

section \<open>The two readers meet the interface\<close>

lemma after_input_ok:
  assumes "after_input readErr c = (r, c')"
  shows "r \<noteq> Crash" "handled c' = handled c" "rx c' = rx c" "frameDecoder c' = frameDecoder c"
    "reader_step\<^sup>*\<^sup>* (base c) (base c')"
  using assms reader_steps_report_close [of "base c"] r_into_rtranclp [of reader_step, OF reader_step_ops(4)]
  by (auto simp: after_input_def split: option.splits if_splits)

lemma decoding_new:
  assumes "8 \<le> maxlen" "newConnection transport maxlen bufsize now m s = Ok c"
  shows "decoding maxlen c \<and> decoder_bytes (frameDecoder c) = []"
proof -
  have "frameDecoder c = server_decoder maxlen"
    using assms by (auto simp: newConnection_def serverFrameDecoder_Ok)
  then show ?thesis
    using server_decoder_drained [OF assms(1)] is_server_decoder_new [OF assms(1)]
    by (simp add: decoding_def) (simp add: server_decoder_def)
qed

text \<open>A round that handles no message.\<close>

lemma round_ok_exit:
  assumes "reader_step\<^sup>*\<^sup>* (base c) (base c')" "handled c' = handled c" "rx c' = rx c @ input"
  shows "round_ok reading c Exit c'"
  unfolding round_ok_def using assms
  by (intro conjI exI [of _ "[]"] exI [of _ input] exI [of _ "decoder_bytes (frameDecoder c) @ input"]) simp_all

lemma round_ok_idle:
  assumes "reader_step\<^sup>*\<^sup>* (base c) (base c')" "handled c' = handled c" "rx c' = rx c" "frameDecoder c' = frameDecoder c"
    "reading c'" "r \<noteq> Crash"
  shows "round_ok reading c r c'"
  unfolding round_ok_def using assms
  by (intro conjI exI [of _ "[]"] exI [of _ "decoder_bytes (frameDecoder c)"]) simp_all

text \<open>A round that handles the first of the messages that were decoded, and all of them if the reader goes on.\<close>

lemma round_ok_frames:
  assumes "carries (taken @ left) ds" "decoder_bytes (frameDecoder c) @ input = concat ds @ decoder_bytes d"
    and "handled c' = handled c @ taken" "rx c' = rx c @ input" "reader_step\<^sup>*\<^sup>* (base c) (base c')" "r \<noteq> Crash"
    and "r = Again \<Longrightarrow> left = [] \<and> reading c' \<and> frameDecoder c' = d"
  shows "round_ok reading c r c'"
proof -
  obtain ds1 ds2 where ds: "ds = ds1 @ ds2" "carries taken ds1" "carries left ds2"
    using carries_split [OF assms(1)] by blast
  then have "decoder_bytes (frameDecoder c) @ input = concat ds1 @ concat ds2 @ decoder_bytes d" using assms(2) by simp
  moreover have "r = Again \<Longrightarrow> ds2 = []" using assms(7) ds(3) by auto
  ultimately show ?thesis
    unfolding round_ok_def using assms(3-7) ds(2)
    by (intro conjI exI [of _ taken] exI [of _ ds1] exI [of _ input] exI [of _ "concat ds2 @ decoder_bytes d"]) auto
qed

lemma tcp_round_frames:
  assumes "input \<noteq> []" "c0 = on_base (refreshActivity now) (c\<lparr>rx := rx c @ input\<rparr>)"
    and dec: "FrameDecoder_Decode (frameDecoder c) input = Some (Ok ds, d)" "carries ms ds"
      "decoder_bytes (frameDecoder c) @ input = concat ds @ decoder_bytes d" "decoding maxlen (c0\<lparr>frameDecoder := d\<rparr>)"
  shows "\<exists>r c'. tcp_reader h now input readErr c = Some (r, c') \<and> round_ok (decoding maxlen) c r c'"
proof -
  obtain res c1 where pf: "process_frames h ds (c0\<lparr>frameDecoder := d\<rparr>) = (res, c1)"
    by (cases "process_frames h ds (c0\<lparr>frameDecoder := d\<rparr>)")
  from process_frames_result [OF dec(2) pf] assms(2) obtain taken left where
    p: "ms = taken @ left" "handled c1 = handled c @ taken" "rx c1 = rx c @ input" "frameDecoder c1 = d"
      "reader_step\<^sup>*\<^sup>* (base c0) (base c1)"
      "res = Ok () \<and> (left = [] \<or> 2 \<le> state_rank (conn_state (base c1))) \<or> res = Err ErrServerStopping"
    by auto
  have "reader_step (base c) (base c0)" using assms(2) by (simp add: reader_step_ops)
  then have b1: "reader_step\<^sup>*\<^sup>* (base c) (base c1)" using p(5) by (rule converse_rtranclp_into_rtranclp)
  note carried = dec(2) [unfolded p(1)]
  have tcp: "tcp_reader h now input readErr c = Some
      (case res of Err err \<Rightarrow> if is_ErrServerStopping err then (Exit, c1) else (Exit, report_and_close OperationProtocol err c1)
       | Ok _ \<Rightarrow> if state_rank (conn_state (base c1)) \<ge> state_rank connectionClosing then (Exit, c1) else after_input readErr c1
       | Panic \<Rightarrow> (Crash, c1))"
    using assms(1,2) dec(1) pf by (simp add: tcp_reader_def processInput_def split: outcome.split)
  show ?thesis
  proof (cases "res = Ok () \<and> \<not> 2 \<le> state_rank (conn_state (base c1))")
    case True
    obtain r c' where a: "after_input readErr c1 = (r, c')" by (cases "after_input readErr c1")
    note a' = after_input_ok [OF a]
    have "round_ok (decoding maxlen) c r c'"
      by (rule round_ok_frames [OF carried dec(3)]) (use a' p True dec(4) rtranclp_trans [OF b1 a'(5)] in \<open>simp_all add: decoding_def\<close>)
    then show ?thesis using tcp a True by simp
  next
    case False
    then have "tcp_reader h now input readErr c = Some (Exit, c1)" using tcp p(6) by auto
    moreover have "round_ok (decoding maxlen) c Exit c1"
      by (rule round_ok_frames [OF carried dec(3)]) (use p b1 in simp_all)
    ultimately show ?thesis by blast
  qed
qed

lemma tcp_round:
  assumes c: "decoding maxlen c"
  shows "\<exists>r c'. tcp_reader h now input readErr c = Some (r, c') \<and> round_ok (decoding maxlen) c r c'"
proof (cases "input = []")
  case True
  obtain r c' where a: "after_input readErr c = (r, c')" by (cases "after_input readErr c")
  note a' = after_input_ok [OF a]
  have "decoding maxlen c'" using c decoding_cong [OF a'(4)] by simp
  with a' have "round_ok (decoding maxlen) c r c'" by (intro round_ok_idle)
  then show ?thesis using a True by (simp add: tcp_reader_def)
next
  case False
  let ?c = "on_base (refreshActivity now) (c\<lparr>rx := rx c @ input\<rparr>)"
  have "decoding maxlen ?c" using c by (simp add: decoding_def)
  then show ?thesis
  proof (cases rule: server_Decode [where input = input])
    case (error d)
    let ?c' = "report_and_close OperationProtocol ErrFrameTooLarge (?c\<lparr>frameDecoder := d\<rparr>)"
    have b: "reader_step (base c) (base ?c)" by (simp add: reader_step_ops)
    have "reader_step\<^sup>*\<^sup>* (base c) (base ?c')"
      using converse_rtranclp_into_rtranclp [of reader_step, OF b reader_steps_report_close] by simp
    then have "round_ok (decoding maxlen) c Exit ?c'"
      by (intro round_ok_exit [where input = input]) simp_all
    moreover have "tcp_reader h now input readErr c = Some (Exit, ?c')"
      using False error(1) by (simp add: tcp_reader_def processInput_def)
    ultimately show ?thesis by blast
  next
    case (frames ms ds d)
    then show ?thesis using tcp_round_frames [OF False HOL.refl] by simp
  qed
qed

interpretation tcp: request_reader "\<lambda>now (input, readErr). tcp_reader h now input readErr" decoding
proof unfold_locales
  show "decoding maxlen (c\<lparr>base := b\<rparr>) = decoding maxlen c" for maxlen and c :: "'a transportConnection" and b
    by (simp add: decoding_def)
  show "decoding maxlen c" if "8 \<le> maxlen" "newConnection transport maxlen bufsize now m s = Ok c"
    for maxlen transport bufsize now m s and c :: "'a transportConnection"
    using decoding_new [OF that] by simp
  show "\<exists>r c'. (case i of (input, readErr) \<Rightarrow> tcp_reader h now input readErr) c = Some (r, c') \<and> round_ok (decoding maxlen) c r c'"
    if "decoding maxlen c" for maxlen now i and c :: "'a transportConnection"
    using tcp_round [OF that] by (cases i) simp
qed

text \<open>A WebSocket message holds whole frames, so the frame decoder is empty between two of them.\<close>

definition ws_reading :: "uint64 \<Rightarrow> 's transportConnection \<Rightarrow> bool" where
  "ws_reading maxlen c \<longleftrightarrow> decoding maxlen c \<and> \<not> frameDecoderHasPending c"

lemma ws_round:
  assumes c: "ws_reading maxlen c"
  shows "\<exists>r c'. ws_reader h now result c = Some (r, c') \<and> round_ok (ws_reading maxlen) c r c'"
proof (cases result)
  case (Inl err)
  then show ?thesis
    using round_ok_exit [of c _ "[]"] reader_steps_closeAndReport r_into_rtranclp [of reader_step, OF reader_step_ops(4)]
    by (simp add: ws_reader_def)
next
  case (Inr mb)
  then obtain messageType buffer where result: "result = Inr (messageType, buffer)" by (cases mb) simp
  let ?c = "on_base (refreshActivity now) (c\<lparr>rx := rx c @ buffer\<rparr>)"
  have b: "reader_step (base c) (base ?c)" by (simp add: reader_step_ops)
  have fail: "reader_step\<^sup>*\<^sup>* (base c) (base (ws_fail opn err (?c\<lparr>frameDecoder := d'\<rparr>)))" for opn err d'
    using converse_rtranclp_into_rtranclp [of reader_step, OF b reader_steps_closeAndReport] by simp
  show ?thesis
  proof (cases "messageType \<noteq> BinaryMessage \<or> buffer = []")
    case True
    then show ?thesis
      using round_ok_exit [of c _ "[]"] reader_steps_closeAndReport by (auto simp: ws_reader_def result)
  next
    case False
    have "decoding maxlen ?c" using c by (simp add: decoding_def ws_reading_def)
    then show ?thesis
    proof (cases rule: server_Decode [where input = buffer])
      case (error d')
      then show ?thesis
        using False round_ok_exit [OF fail] by (simp add: ws_reader_def result Let_def)
    next
      case (frames ms ds d')
      let ?c1 = "?c\<lparr>frameDecoder := d'\<rparr>"
      show ?thesis
      proof (cases "frameDecoderHasPending ?c1")
        case True
        then show ?thesis
          using False frames(1) round_ok_exit [OF fail] by (simp add: ws_reader_def result Let_def)
      next
        case nopend: False
        obtain r c' where wf: "ws_frames h ds ?c1 = (r, c')" by (cases "ws_frames h ds ?c1")
        from ws_frames_result [OF frames(2) wf] obtain taken left where
          p: "ms = taken @ left" "handled c' = handled c @ taken" "rx c' = rx c @ buffer" "frameDecoder c' = d'"
            "reader_step\<^sup>*\<^sup>* (base ?c) (base c')" "r = Again \<and> left = [] \<or> r = Exit"
          by auto
        have bytes: "decoder_bytes (frameDecoder c) @ buffer = concat ds @ decoder_bytes d'" using frames(3) by simp
        have "ws_reading maxlen c'"
          using frames(4) nopend p(4) by (simp add: ws_reading_def decoding_def frameDecoderHasPending_def)
        then have "round_ok (ws_reading maxlen) c r c'"
          by (intro round_ok_frames [OF frames(2) [unfolded p(1)] bytes])
            (use p converse_rtranclp_into_rtranclp [OF b p(5)] in auto)
        moreover have "ws_reader h now result c = Some (r, c')"
          using False frames(1) nopend wf by (simp add: ws_reader_def result Let_def)
        ultimately show ?thesis by blast
      qed
    qed
  qed
qed

interpretation ws: request_reader "ws_reader h" ws_reading
proof unfold_locales
  show "ws_reading maxlen (c\<lparr>base := b\<rparr>) = ws_reading maxlen c" for maxlen and c :: "'a transportConnection" and b
    by (simp add: ws_reading_def decoding_def frameDecoderHasPending_def)
  show "ws_reading maxlen c" if "8 \<le> maxlen" "newConnection transport maxlen bufsize now m s = Ok c"
    for maxlen transport bufsize now m s and c :: "'a transportConnection"
    using decoding_new [OF that] by (simp add: ws_reading_def frameDecoderHasPending_def)
qed (rule ws_round)

section \<open>How a round of the TCP reader ends\<close>

text \<open>\<open>same_life b b'\<close>: nothing was reported and nothing closed.\<close>

definition same_life :: "netConnection \<Rightarrow> netConnection \<Rightarrow> bool" where
  "same_life b b' \<longleftrightarrow> conn_state b' = conn_state b \<and> reports b' = reports b \<and> closeReason b' = closeReason b \<and>
     readCtx_done b' = readCtx_done b \<and> forceCtx_done b' = forceCtx_done b"

definition closed_with :: "ConnectionOperation \<Rightarrow> go_error \<Rightarrow> netConnection \<Rightarrow> bool" where
  "closed_with opn err b \<longleftrightarrow> conn_state b = connectionClosing \<and> closeReason b = Some (opn, err)"

lemma same_life_ops [simp]:
  "same_life b b" "same_life b (refreshActivity now b)" "same_life b (countReceived body b)"
  by (simp_all add: same_life_def refreshActivity_def countReceived_def)

lemma same_life_trans: "same_life a b \<Longrightarrow> same_life b c \<Longrightarrow> same_life a c"
  by (simp add: same_life_def)

text \<open>Closing a connection that is open.\<close>

lemma close_open:
  assumes "same_life b b'" "conn_state b = connectionOpen"
  shows "closed_with opn err (requestClose opn err b')" "reports (requestClose opn err b') = reports b"
    and "closed_with opn err (requestClose opn err (reportConnectionError opn err b'))"
      "reports (requestClose opn err (reportConnectionError opn err b')) = reports b @ [(opn, err)]"
  using assms by (simp_all add: same_life_def closed_with_def requestClose_def tryRequestClose_def requestCloseMatching_def
      closeTransport_def reportConnectionError_def)

text \<open>The loop over the frames of one read, on an open connection.\<close>

lemma process_frames_open:
  assumes "carries ms ds" "process_frames h ds c = (res, c')" "conn_state (base c) = connectionOpen"
  shows "res = Ok () \<and> handled c' = handled c @ ms \<and> same_life (base c) (base c') \<or>
    res = Err ErrServerStopping \<and> same_life (base c) (base c') \<and> (\<exists>request s. fst (h request s) = Some ErrServerStopping) \<or>
    (\<exists>err. res = Ok () \<and> closed_with OperationTask err (base c') \<and>
       reports (base c') = reports (base c) @ [(OperationTask, err)] \<and> (\<exists>request s. fst (h request s) = Some err))"
  using carries_decode [OF assms(1)] assms(2,3)
proof (induction arbitrary: c rule: list_all2_induct)
  case (Cons m ms d ds)
  obtain e c1 where dis: "dispatch h m c = (e, c1)" by (cases "dispatch h m c")
  note f = dispatch_frame [OF dis]
  have life: "same_life (base c) (base c1)" by (simp add: f(4))
  then have open1: "conn_state (base c1) = connectionOpen" and rep: "reports (base c1) = reports (base c)"
    using Cons.prems(2) by (simp_all add: same_life_def)
  have asked: "\<exists>request s. fst (h request s) = e"
    using dis by (auto simp: dispatch_def Let_def split: prod.splits) (metis fst_conv)
  show ?case
  proof (cases e)
    case None
    with Cons dis have "process_frames h ds c1 = (res, c')" by simp
    from Cons.IH [OF this open1] show ?thesis using f(1) rep same_life_trans [OF life] by auto
  next
    case (Some err)
    show ?thesis
    proof (cases "is_ErrServerStopping err")
      case True
      with Some Cons dis have "res = Err ErrServerStopping" "c' = c1" by auto
      moreover have "err = ErrServerStopping" using True by (cases err) simp_all
      ultimately show ?thesis using life asked Some by simp
    next
      case False
      with Some Cons dis have "res = Ok ()"
        and c': "c' = on_base (requestClose OperationTask err) (on_base (reportConnectionError OperationTask err) c1)" by auto
      with close_open(3,4) [OF life Cons.prems(2), of OperationTask err] asked Some show ?thesis by auto
    qed
  qed
qed auto

text \<open>The four ways in which the processing of an input ends on an open connection \<open>b\<close>.\<close>

inductive input_outcome ::
  "'s requestHandler \<Rightarrow> netConnection \<Rightarrow> (go_error, unit) outcome \<Rightarrow> netConnection \<Rightarrow> bool" for h b where
  all: "same_life b b' \<Longrightarrow> input_outcome h b (Ok ()) b'"
| too_large: "same_life b b' \<Longrightarrow> input_outcome h b (Err ErrFrameTooLarge) b'"
| stopping: "same_life b b' \<Longrightarrow> fst (h request s) = Some ErrServerStopping \<Longrightarrow> input_outcome h b (Err ErrServerStopping) b'"
| task: "closed_with OperationTask err b' \<Longrightarrow> reports b' = reports b @ [(OperationTask, err)] \<Longrightarrow>
    fst (h request s) = Some err \<Longrightarrow> input_outcome h b (Ok ()) b'"

lemma processInput_open:
  assumes c: "decoding maxlen c" and life: "same_life b (base c)" and op: "conn_state b = connectionOpen"
  shows "\<exists>res c1. processInput h input c = Some (res, c1) \<and> input_outcome h b res (base c1)"
  using c
proof (cases rule: server_Decode [where input = input])
  case (error d')
  then show ?thesis using input_outcome.too_large [of b "base c" h] life by (simp add: processInput_def)
next
  case (frames ms ds d')
  let ?c = "c\<lparr>frameDecoder := d'\<rparr>"
  obtain res c1 where pf: "process_frames h ds ?c = (res, c1)" by (cases "process_frames h ds ?c")
  have c1: "conn_state (base ?c) = connectionOpen" "reports (base ?c) = reports b" "same_life b (base ?c)"
    using op life by (simp_all add: same_life_def)
  have "input_outcome h b res (base c1)"
    using process_frames_open [OF frames(2) pf c1(1)] same_life_trans [OF c1(3)] input_outcome.intros [where b = b and h = h]
    unfolding c1(2) by blast
  then show ?thesis using frames(1) pf by (simp add: processInput_def)
qed

text \<open>The part of a round after the input.\<close>

lemma after_input_open:
  assumes "after_input readErr c1 = (r, c')" "same_life b (base c1)" "conn_state b = connectionOpen"
    "\<not> readCtx_done b" "\<not> forceCtx_done b"
  shows "r = Again \<and> readErr = None \<and> same_life b (base c') \<or>
    (\<exists>err. r = Exit \<and> readErr = Some err \<and> err \<in> {EOF, NetErrClosed} \<and> \<not> frameDecoderHasPending c' \<and>
       closed_with OperationRead err (base c') \<and> reports (base c') = reports b) \<or>
    (\<exists>opn err. r = Exit \<and> closed_with opn err (base c') \<and> reports (base c') = reports b @ [(opn, err)] \<and>
       (opn = OperationRead \<and> readErr = Some err \<and> err \<notin> {EOF, NetErrClosed} \<or>
        opn = OperationProtocol \<and> err = ErrInvalidFrame ConnectionEndedPartial \<and> frameDecoderHasPending c'))"
proof (cases readErr)
  case None
  then show ?thesis using assms by (simp add: after_input_def)
next
  case (Some err)
  have flags: "\<not> readCtx_done (base c1)" "\<not> forceCtx_done (base c1)" using assms(2,4,5) by (simp_all add: same_life_def)
  have err: "is_EOF err \<longleftrightarrow> err = EOF" "is_NetErrClosed err \<longleftrightarrow> err = NetErrClosed" by (cases err; simp)+
  note close = close_open [OF assms(2,3)]
  show ?thesis
    using assms(1) flags close by (auto simp: after_input_def Some err frameDecoderHasPending_def split: if_splits)
qed

section \<open>A connection that has received a message\<close>

text \<open>
  A server that accepts every request; nine bytes of a message and one byte of the next one
  arrive in one read.
\<close>

definition accept_all :: "unit requestHandler" where
  "accept_all request s = (None, s)"

definition opened_conn :: "unit transportConnection" where
  "opened_conn = \<lparr>base = start_conn (newNetConnection TransportTCP 4 0 zeroServerMetrics),
     frameDecoder = server_decoder 64, server = (), rx = [], handled = []\<rparr>"

definition reading_conn :: "unit transportConnection" where
  "reading_conn = opened_conn\<lparr>base := countReceived [7] (refreshActivity 5 (base opened_conn)),
     frameDecoder := (server_decoder 64)\<lparr>decoder_bytes := [9]\<rparr>,
     rx := [1, 0, 0, 0, 1, 0, 0, 0, 7, 9], handled := [\<lparr>Event = 1, Body = [7], BodySize = 1\<rparr>]\<rparr>"

lemma sample_message: "Decoder_Decode [1, 0, 0, 0, 1, 0, 0, 0, 7] = Ok \<lparr>Event = 1, Body = [7], BodySize = 1\<rparr>"
  by (rule mc.dec_enc) (simp_all add: message_ok_def Encoder_Encode_eq le_PutUint32_def)

lemma opened_conn_reachable: "transport_reachable reader 64 opened_conn"
proof -
  let ?c = "\<lparr>base = newNetConnection TransportTCP 4 0 zeroServerMetrics, frameDecoder = server_decoder 64,
    server = (), rx = [], handled = []\<rparr>"
  have "newConnection TransportTCP 64 4 0 zeroServerMetrics () = Ok ?c"
    by (simp add: newConnection_def serverFrameDecoder_Ok)
  moreover have "run_ops (transport_exec reader) [TBase CStart] ?c = Some ([None], opened_conn)"
    by (simp add: opened_conn_def)
  ultimately show ?thesis unfolding transport_reachable_def by blast
qed

lemma transport_reachable_step:
  "transport_reachable reader maxlen c \<Longrightarrow> transport_exec reader ev c = Some (r, c') \<Longrightarrow> transport_reachable reader maxlen c'"
  unfolding transport_reachable_def by (meson run_ops_snoc)

lemma opened_conn_simps [simp]:
  "conn_started (base opened_conn)" "\<not> reader_done (base opened_conn)" "conn_state (base opened_conn) = connectionOpen"
  "frameDecoder opened_conn = server_decoder 64" "rx opened_conn = []" "handled opened_conn = []"
  "reports (base opened_conn) = []"
  by (simp_all add: opened_conn_def start_conn_def newNetConnection_def)

lemma reading_conn_round: "tcp_reader accept_all 5 [1, 0, 0, 0, 1, 0, 0, 0, 7, 9] None opened_conn = Some (Again, reading_conn)"
  by (simp add: tcp_reader_def processInput_def server_decode_example sample_message dispatch_def accept_all_def after_input_def)
    (simp add: reading_conn_def on_base_def after_input_def opened_conn_def start_conn_def newNetConnection_def refreshActivity_def countReceived_def)

lemma reading_conn_reachable:
  "transport_reachable (\<lambda>now (input, readErr). tcp_reader accept_all now input readErr) 64 reading_conn"
  by (rule transport_reachable_step [OF opened_conn_reachable, of _ "TRound 5 ([1, 0, 0, 0, 1, 0, 0, 0, 7, 9], None)"])
    (simp add: reading_conn_round)

lemma reading_conn_fields: "\<not> reader_done (base reading_conn)" "decoder_bytes (frameDecoder reading_conn) = [9]"
  by (simp_all add: reading_conn_def opened_conn_def countReceived_def refreshActivity_def start_conn_def newNetConnection_def)

text \<open>A socket that takes at most two bytes at a time.\<close>

definition slow_write :: "byte list \<Rightarrow> byte list \<Rightarrow> (int \<times> go_error option) \<times> byte list" where
  "slow_write w bs = ((int (length (take 2 bs)), None), w @ take 2 bs)"

lemma slow_write_honest:
  "slow_write w bs = ((n, err), w') \<Longrightarrow> 0 \<le> n \<and> n \<le> int (length bs) \<and> w' = w @ take (nat n) bs"
  by (auto simp: slow_write_def min_def)

section \<open>Properties\<close>

text \<open>
  C8. Delivery over TCP. However the bytes of a peer are cut into reads, and however the
  reader's rounds interleave with the other goroutines of the connection: the messages given to
  \<open>handleRequest\<close> are well formed, and their encodings, in order and without gap or repetition,
  are the beginning of the bytes received. As long as the reader runs, what follows them is
  exactly what the frame decoder holds, and that is not a complete frame: no message that has
  arrived waits. The connection itself behaves as one of the theory \<open>Connection\<close>.\<close>

theorem tcp_reader_delivers:
  assumes "8 \<le> maxFrameLength"
    and "transport_reachable (\<lambda>now (input, readErr). tcp_reader handleRequest now input readErr) maxFrameLength c"
  shows "conn_reachable (base c) \<and>
    (\<exists>frames rest. list_all message_ok (handled c) \<and> map Encoder_Encode (handled c) = map Ok frames \<and>
       rx c = concat frames @ rest \<and>
       (\<not> reader_done (base c) \<longrightarrow> rest = decoder_bytes (frameDecoder c) \<and>
          (\<exists>f n. decodeOne (frameDecoder c) rest = Ok (f, n, False))))"
proof -
  from tcp.reachable_delivered [OF assms] obtain frames rest where
    d: "conn_reachable (base c)" "carries (handled c) frames" "rx c = concat frames @ rest"
      "\<not> reader_done (base c) \<longrightarrow> decoding maxFrameLength c \<and> rest = decoder_bytes (frameDecoder c)"
    unfolding tcp.delivered_def by blast
  then show ?thesis
    using carries_maps [OF d(2)] by (auto simp: decoding_def drained_def)
qed

theorem tcp_reader_delivers_witness:
  "\<exists>frames rest. map Encoder_Encode (handled reading_conn) = map Ok frames \<and> rx reading_conn = concat frames @ rest \<and> rest = [9]"
  using tcp_reader_delivers [OF _ reading_conn_reachable] reading_conn_fields by fastforce

text \<open>
  Delivery over WebSocket. A message of the peer holds whole frames: as long as the reader
  runs, every byte received belongs to a message that was given to \<open>handleRequest\<close>, in order,
  and the frame decoder is empty.\<close>

lemma ws_reader_delivers:
  assumes "8 \<le> maxFrameLength" and "transport_reachable (ws_reader handleRequest) maxFrameLength c"
  shows "conn_reachable (base c) \<and>
    (\<exists>frames rest. list_all message_ok (handled c) \<and> map Encoder_Encode (handled c) = map Ok frames \<and>
       rx c = concat frames @ rest \<and> (\<not> reader_done (base c) \<longrightarrow> rest = [] \<and> \<not> frameDecoderHasPending c))"
proof -
  from ws.reachable_delivered [OF assms] obtain frames rest where
    d: "conn_reachable (base c)" "carries (handled c) frames" "rx c = concat frames @ rest"
      "\<not> reader_done (base c) \<longrightarrow> ws_reading maxFrameLength c \<and> rest = decoder_bytes (frameDecoder c)"
    unfolding ws.delivered_def by blast
  then show ?thesis
    using carries_maps [OF d(2)] by (auto simp: ws_reading_def frameDecoderHasPending_def)
qed



text \<open>
  C33. Full writes. For a socket whose \<open>Write\<close> reports how many bytes it took from the front of
  its argument, \<open>writeFull\<close> ends; it has then written a beginning of the data, all of it if it
  returns nil; and it returns nil if every call makes progress without an error.\<close>

theorem write_full_exact:
  assumes "\<And>w bs n err w'. socketWrite w bs = ((n, err), w') \<Longrightarrow>
      0 \<le> n \<and> n \<le> int (length bs) \<and> sink w' = sink w @ take (nat n) bs"
  shows "(\<exists>k. sink (snd (writeFull socketWrite w data)) = sink w @ take k data) \<and>
    (fst (writeFull socketWrite w data) = None \<longrightarrow> sink (snd (writeFull socketWrite w data)) = sink w @ data) \<and>
    ((\<forall>w bs. bs \<noteq> [] \<longrightarrow> snd (fst (socketWrite w bs)) = None \<and> 0 < fst (fst (socketWrite w bs))) \<longrightarrow>
       fst (writeFull socketWrite w data) = None)"
proof (induction data arbitrary: w rule: length_induct)
  case (1 data)
  show ?case
  proof (cases "data = []")
    case False
    obtain n err w' where call: "socketWrite w data = ((n, err), w')" by (metis surj_pair)
    note step = assms [OF call]
    show ?thesis
    proof (cases "err \<noteq> None \<or> n = 0")
      case True
      with call False step have "snd (writeFull socketWrite w data) = w'" "fst (writeFull socketWrite w data) \<noteq> None"
        by (auto simp: writeFull.simps [of socketWrite w data])
      then show ?thesis using step call False True by (metis fst_conv snd_conv less_irrefl)
    next
      case rec: False
      with call False step have "writeFull socketWrite w data = writeFull socketWrite w' (drop (nat n) data)"
        by (simp add: writeFull.simps [of socketWrite w data])
      moreover have "length (drop (nat n) data) < length data" using False rec step by (cases data) auto
      moreover have "take (nat n) data @ take k (drop (nat n) data) = take (nat n + k) data" for k by (simp add: take_add)
      ultimately show ?thesis using 1 [rule_format, of "drop (nat n) data" w'] step by (metis append.assoc append_take_drop_id)
    qed
  qed (simp add: writeFull.simps)
qed

theorem write_full_exact_witness:
  "fst (writeFull slow_write [] [1, 2, 3, 4, 5]) = None \<and> snd (writeFull slow_write [] [1, 2, 3, 4, 5]) = [1, 2, 3, 4, 5]"
  using write_full_exact [of slow_write id "[]" "[1, 2, 3, 4, 5]"] slow_write_honest by (simp add: slow_write_def)

end
