(* ===== verification/Server.thy ===== *)
theory Server
  imports Options Worker_Pool Manager Transports
begin

text \<open>
  The server, \<open>src/server.go\<close>, as far as it is sequential: its construction, the callbacks, the
  preparation of a run, the look-up and submission of a request, and the admission of
  connections. The concurrent life cycle is in the theory \<open>Lifecycle\<close>.
\<close>

section \<open>State and construction\<close>

text \<open>
  Callbacks are represented by numbers. The connections of the manager are represented by
  their IDs. The codec has no state; the listen functions appear as the results of their calls.
  The life-cycle state is an argument of the operations that check it.
\<close>

record ('v, 'w) Server =
  options :: ServerOptions
  srv_routing :: "'v prog routing"
  workerPool :: "('v, 'w) workerPool"
  connectionManager :: "uint64 connectionManager"
  srv_connectionOpen :: "nat option"
  srv_connectionClose :: "nat option"
  srv_connectionError :: "nat option"
  runtimeOpen :: "nat option"
  runtimeClose :: "nat option"
  runtimeError :: "nat option"
  currentConnectionID :: uint64

text \<open>The two checks of the configuration that \<open>NewServer\<close> and \<open>Run\<close> make.\<close>

definition checkConfiguration :: "ServerOptions \<Rightarrow> go_error option" where
  "checkConfiguration opts =
     (case validateServerOptions opts of
        Some err \<Rightarrow> Some err
      | None \<Rightarrow> (case serverFrameDecoder (MaxFrameLength opts) of Err err \<Rightarrow> Some err | _ \<Rightarrow> None))"

text \<open>A negative count of groups would make \<open>make\<close> panic.\<close>

definition makeConnectionManager :: "goint \<Rightarrow> ('e, 'c connectionManager) outcome" where
  "makeConnectionManager n = (if sint n < 0 then Panic else Ok (newConnectionManager (nat (sint n))))"

definition NewServer :: "goint \<Rightarrow> ServerOption list \<Rightarrow> (go_error, ('v, 'w) Server) outcome" where
  "NewServer gomaxprocs serverOptions =
     (let opts = fold (\<lambda>option. option) serverOptions (defaultServerOptions gomaxprocs) in
      case checkConfiguration opts of
        Some err \<Rightarrow> Err err
      | None \<Rightarrow>
          obind (makeConnectionManager (ConnectionGroupsCount opts)) (\<lambda>manager.
          obind (newWorkerPool (WorkerCount opts) (WorkerQueueCapacity opts)) (\<lambda>pool.
            Ok \<lparr>options = opts, srv_routing = serverRouting, workerPool = pool,
                connectionManager = manager, srv_connectionOpen = None, srv_connectionClose = None, srv_connectionError = None,
                runtimeOpen = None, runtimeClose = None, runtimeError = None, currentConnectionID = 0\<rparr>)))"

section \<open>Callbacks\<close>

definition setCallback ::
  "serverState \<Rightarrow> (('v, 'w) Server \<Rightarrow> ('v, 'w) Server) \<Rightarrow> ('v, 'w) Server \<Rightarrow> go_error option \<times> ('v, 'w) Server" where
  "setCallback st upd s =
     (case mutationErrorLocked st of Some err \<Rightarrow> (Some err, s) | None \<Rightarrow> (None, upd s))"

definition OnConnectionOpen :: "serverState \<Rightarrow> nat option \<Rightarrow> ('v, 'w) Server \<Rightarrow> go_error option \<times> ('v, 'w) Server" where
  "OnConnectionOpen st callback = setCallback st (srv_connectionOpen_update (\<lambda>_. callback))"

definition OnConnectionClose :: "serverState \<Rightarrow> nat option \<Rightarrow> ('v, 'w) Server \<Rightarrow> go_error option \<times> ('v, 'w) Server" where
  "OnConnectionClose st callback = setCallback st (srv_connectionClose_update (\<lambda>_. callback))"

definition OnConnectionError :: "serverState \<Rightarrow> nat option \<Rightarrow> ('v, 'w) Server \<Rightarrow> go_error option \<times> ('v, 'w) Server" where
  "OnConnectionError st callback = setCallback st (srv_connectionError_update (\<lambda>_. callback))"

text \<open>Which callback is called, if any: the one of the run, or the configured one.\<close>

definition openCallback :: "('v, 'w) Server \<Rightarrow> nat option" where
  "openCallback s = (case runtimeOpen s of Some callback \<Rightarrow> Some callback | None \<Rightarrow> srv_connectionOpen s)"

definition closeCallback :: "('v, 'w) Server \<Rightarrow> nat option" where
  "closeCallback s = (case runtimeClose s of Some callback \<Rightarrow> Some callback | None \<Rightarrow> srv_connectionClose s)"

definition errorCallback :: "('v, 'w) Server \<Rightarrow> nat option" where
  "errorCallback s = (case runtimeError s of Some callback \<Rightarrow> Some callback | None \<Rightarrow> srv_connectionError s)"

section \<open>Preparing a run\<close>

text \<open>
  \<open>mux.HandleFunc\<close> panics for a pattern that it cannot parse. For a path that passed the
  validation (it begins with a slash and has no braces) that is a pattern with a space or a
  tab, which separates a method from the path.
\<close>

definition HandleFunc_panics :: "string \<Rightarrow> bool" where
  "HandleFunc_panics pattern \<longleftrightarrow> list_ex (\<lambda>c. c = CHR '' '' \<or> c = CHR 0x09) pattern"

definition prepareWebSocketServer :: "ServerOptions \<Rightarrow> go_error option" where
  "prepareWebSocketServer opts =
     (if \<not> HasTransport opts TransportWebSocket then None
      else if HandleFunc_panics (WebSocketPath opts) then Some (ErrInvalidConfiguration WebSocketPathInvalid)
      else None)"

text \<open>\<open>Run\<close> between \<open>claimRun\<close> and the first check for cancellation.\<close>

definition prepareRun :: "(nat \<Rightarrow> nat) \<Rightarrow> ('v, 'w) Server \<Rightarrow> (go_error, unit) outcome \<times> ('v, 'w) Server" where
  "prepareRun grow s =
     (case checkConfiguration (options s) of
        Some err \<Rightarrow> (Err err, s)
      | None \<Rightarrow>
          let s1 = s\<lparr>srv_routing := freeze grow (srv_routing s), runtimeOpen := srv_connectionOpen s,
                     runtimeClose := srv_connectionClose s, runtimeError := srv_connectionError s\<rparr>
          in case obind (makeConnectionManager (ConnectionGroupsCount (options s1))) (\<lambda>manager.
                  obind (newWorkerPool (WorkerCount (options s1)) (WorkerQueueCapacity (options s1))) (\<lambda>pool.
                    Ok (s1\<lparr>connectionManager := manager, workerPool := pool\<rparr>))) of
               Ok s2 \<Rightarrow> (case prepareWebSocketServer (options s2) of Some err \<Rightarrow> (Err err, s2) | None \<Rightarrow> (Ok (), s2))
             | Err err \<Rightarrow> (Err err, s1)
             | Panic \<Rightarrow> (Panic, s1))"

section \<open>Requests\<close>

text \<open>
  \<open>handleRequest\<close>. The parent of the request's context is the connection's \<open>forceCtx\<close>, whose
  error is \<open>parent_err\<close>. The sending on a closed channel would panic.
\<close>

definition requestContext ::
  "('v, 'w) Server \<Rightarrow> uint64 \<Rightarrow> Transport \<Rightarrow> go_error option \<Rightarrow> 'w \<Rightarrow> Request \<Rightarrow> ('v, 'w) Context" where
  "requestContext s cid transport parent_err w request =
     (let c = (newContext parent_err (Some cid) request w)\<lparr>has_metrics := True, metricTransport := transport\<rparr> in
      case route_handlers (srv_routing s) (Event (Request_Message (ctx_Request c))) of
        Some hs \<Rightarrow> c\<lparr>handlers := handlers c @ hs\<rparr>
      | None \<Rightarrow> c\<lparr>handlers := handlers c @ [Some notFoundHandler]\<rparr>)"

definition handleRequest ::
  "uint64 \<Rightarrow> Transport \<Rightarrow> go_error option \<Rightarrow> 'w \<Rightarrow> Request \<Rightarrow> ('v, 'w) Server \<Rightarrow>
   (go_error, go_error option) outcome \<times> ('v, 'w) Server" where
  "handleRequest cid transport parent_err w request s =
     (let c = requestContext s cid transport parent_err w request;
          p = workerPool s;
          t = length (contexts p);
          (r, p') = submit t (p\<lparr>contexts := contexts p @ [c]\<rparr>)
      in case r of
           Submitted \<Rightarrow> (Ok None, s\<lparr>workerPool := p'\<rparr>)
         | Rejected err \<Rightarrow> (Ok (Some err), s\<lparr>workerPool := set_context t (finish (ctx p' t)) p'\<rparr>)
         | SendOnClosed \<Rightarrow> (Panic, s\<lparr>workerPool := p'\<rparr>))"

section \<open>Connections\<close>

definition nextConnectionID :: "('v, 'w) Server \<Rightarrow> uint64 \<times> ('v, 'w) Server" where
  "nextConnectionID s = (let n = currentConnectionID s + 1 in (n, s\<lparr>currentConnectionID := n\<rparr>))"

fun expectedServingError :: "go_error option \<Rightarrow> bool" where
  "expectedServingError None = True"
| "expectedServingError (Some err) = (is_NetErrClosed err \<or> is_HttpErrServerClosed err)"

section \<open>Well-formed servers\<close>

definition server_wf :: "('v, 'w) Server \<Rightarrow> bool" where
  "server_wf s \<longleftrightarrow> options_ok (options s) \<and> 8 \<le> MaxFrameLength (options s) \<and> routing_inv (srv_routing s) \<and>
     manager_inv id (connectionManager s) \<and>
     length (connectionGroups (connectionManager s)) = nat (sint (ConnectionGroupsCount (options s))) \<and>
     inv_life (workerPool s) \<and> length (workers (workerPool s)) = unat (WorkerCount (options s)) \<and>
     capacity (workerPool s) = unat (WorkerQueueCapacity (options s))"

lemma checkConfiguration_None:
  "checkConfiguration opts = None \<longleftrightarrow> options_ok opts \<and> 8 \<le> MaxFrameLength opts"
  unfolding validateServerOptions_None [symmetric]
  by (auto simp: checkConfiguration_def serverFrameDecoder_eq not_less split: option.splits)

lemma options_ok_sizes:
  "options_ok opts \<Longrightarrow> 0 < nat (sint (ConnectionGroupsCount opts)) \<and> WorkerCount opts \<noteq> 0 \<and> WorkerQueueCapacity opts \<noteq> 0"
  by (auto simp: options_ok_def)

lemma make_components:
  assumes "options_ok opts"
  shows "\<exists>m p. makeConnectionManager (ConnectionGroupsCount opts) = Ok m \<and>
    newWorkerPool (WorkerCount opts) (WorkerQueueCapacity opts) = Ok p \<and>
    manager_inv id (m :: uint64 connectionManager) \<and>
    length (connectionGroups m) = nat (sint (ConnectionGroupsCount opts)) \<and> inv_life (p :: ('v, 'w) workerPool) \<and>
    length (workers p) = unat (WorkerCount opts) \<and> capacity p = unat (WorkerQueueCapacity opts)"
  using options_ok_sizes [OF assms] newConnectionManager_refines(1) [of "nat (sint (ConnectionGroupsCount opts))" "id :: uint64 \<Rightarrow> uint64"]
  by (auto simp: makeConnectionManager_def newWorkerPool_def newConnectionManager_def inv_life_def worker_life_simps newWorker_def)

lemma workers_pos: "server_wf s \<Longrightarrow> 0 < length (workers (workerPool s))"
  by (auto simp: server_wf_def options_ok_def word_less_nat_alt)

lemma setCallback_wf: "server_wf s \<Longrightarrow> server_wf (upd s) \<Longrightarrow> server_wf (snd (setCallback st upd s))"
  by (auto simp: setCallback_def split: option.split)

lemma callbacks_wf:
  assumes "server_wf s"
  shows "server_wf (snd (OnConnectionOpen st callback s))" "server_wf (snd (OnConnectionClose st callback s))"
    "server_wf (snd (OnConnectionError st callback s))"
  unfolding OnConnectionOpen_def OnConnectionClose_def OnConnectionError_def
  by (rule setCallback_wf [OF assms], use assms in \<open>simp add: server_wf_def\<close>)+

lemma prepareRun_result:
  assumes "server_wf s"
  shows "fst (prepareRun grow s) = (case prepareWebSocketServer (options s) of Some err \<Rightarrow> Err err | None \<Rightarrow> Ok ())"
    and "server_wf (snd (prepareRun grow s))" and "runtimeRoutes (srv_routing (snd (prepareRun grow s))) \<noteq> None"
    and "workerPool (snd (prepareRun grow s)) = p \<Longrightarrow> newWorkerPool (WorkerCount (options s)) (WorkerQueueCapacity (options s)) = (Ok p :: (go_error, _) outcome)"
proof -
  have opts: "options_ok (options s)" "8 \<le> MaxFrameLength (options s)" using assms by (simp_all add: server_wf_def)
  obtain m p' where mp: "makeConnectionManager (ConnectionGroupsCount (options s)) = (Ok m :: (go_error, _) outcome)"
    "newWorkerPool (WorkerCount (options s)) (WorkerQueueCapacity (options s)) = (Ok p' :: (go_error, ('a, 'b) workerPool) outcome)"
    "manager_inv id m" "length (connectionGroups m) = nat (sint (ConnectionGroupsCount (options s)))" "inv_life p'"
    "length (workers p') = unat (WorkerCount (options s))" "capacity p' = unat (WorkerQueueCapacity (options s))"
    using make_components [OF opts(1)] by metis
  let ?s = "s\<lparr>srv_routing := freeze grow (srv_routing s), runtimeOpen := srv_connectionOpen s,
     runtimeClose := srv_connectionClose s, runtimeError := srv_connectionError s, connectionManager := m, workerPool := p'\<rparr>"
  have eq: "prepareRun grow s = (case prepareWebSocketServer (options s) of Some err \<Rightarrow> (Err err, ?s) | None \<Rightarrow> (Ok (), ?s))"
    using opts mp(1,2) by (simp add: prepareRun_def checkConfiguration_None [THEN iffD2] Let_def split: option.split)
  then show "fst (prepareRun grow s) = (case prepareWebSocketServer (options s) of Some err \<Rightarrow> Err err | None \<Rightarrow> Ok ())"
    by (simp split: option.split)
  have s: "snd (prepareRun grow s) = ?s" using eq by (simp split: option.split)
  show "server_wf (snd (prepareRun grow s))"
    using assms mp(3-7) freeze_refines(1) [of "srv_routing s" grow] unfolding s by (simp add: server_wf_def)
  show "runtimeRoutes (srv_routing (snd (prepareRun grow s))) \<noteq> None"
    unfolding s by (simp add: freeze_def case_prod_beta)
  show "newWorkerPool (WorkerCount (options s)) (WorkerQueueCapacity (options s)) = (Ok p :: (go_error, _) outcome)"
    if "workerPool (snd (prepareRun grow s)) = p"
    using that mp(2) unfolding s by simp
qed

text \<open>A request, with the pool it is submitted to.\<close>

lemma requestContext_fields:
  "ctx_Connection (requestContext s cid transport parent_err w request) = Some cid"
  "ctx_Request (requestContext s cid transport parent_err w request) = request"
  "handlers (requestContext s cid transport parent_err w request) =
     (case route_handlers (srv_routing s) (Event (Request_Message request)) of Some hs \<Rightarrow> hs | None \<Rightarrow> [Some notFoundHandler])"
  "step (requestContext s cid transport parent_err w request) = -1"
  "ctx_err (requestContext s cid transport parent_err w request) = parent_err"
  "has_cancel (requestContext s cid transport parent_err w request)"
  "\<not> finished (requestContext s cid transport parent_err w request)"
  by (simp_all add: requestContext_def newContext_def Let_def split: option.split)

lemma finish_unfinished: "\<not> finished c \<Longrightarrow> has_cancel c \<Longrightarrow> finished (finish c) \<and> ctx_err (finish c) \<noteq> None"
  by (simp add: finish_def cancelTask_def)

abbreviation connection_queue :: "uint64 \<Rightarrow> ('v, 'w) workerPool \<Rightarrow> nat list" where
  "connection_queue cid p \<equiv> queue (workers p ! (unat cid mod length (workers p)))"

lemma handleRequest_cases:
  assumes wf: "server_wf s" and hr: "handleRequest cid transport parent_err w request s = (r, s')"
    and c: "c = requestContext s cid transport parent_err w request" and t: "t = length (contexts (workerPool s))"
  obtains (stopping) "\<not> accepting (workerPool s)" "r = Ok (Some ErrServerStopping)"
      "s' = s\<lparr>workerPool := (workerPool s)\<lparr>contexts := contexts (workerPool s) @ [finish c]\<rparr>\<rparr>"
  | (submitted) p' where "accepting (workerPool s)" "r = Ok None" "s' = s\<lparr>workerPool := p'\<rparr>"
      "length (connection_queue cid (workerPool s)) < capacity (workerPool s)"
      "p' = (workerPool s)\<lparr>contexts := contexts (workerPool s) @ [c], tasks := insert t (tasks (workerPool s)),
         metrics := taskQueued c (metrics (workerPool s)), accepted := accepted (workerPool s) @ [t],
         workers := (workers (workerPool s))[unat cid mod length (workers (workerPool s)) :=
           queue_update (\<lambda>q. q @ [t]) (workers (workerPool s) ! (unat cid mod length (workers (workerPool s))))]\<rparr>"
  | (full) p' where "accepting (workerPool s)" "r = Ok (Some ErrWorkerQueueFull)" "s' = s\<lparr>workerPool := p'\<rparr>"
      "capacity (workerPool s) \<le> length (connection_queue cid (workerPool s))"
      "p' = (workerPool s)\<lparr>contexts := contexts (workerPool s) @ [finish c],
         tasks := insert t (tasks (workerPool s)) - {t},
         metrics := taskRejected c (taskDequeued c (taskQueued c (metrics (workerPool s))))\<rparr>"
proof -
  let ?p = "(workerPool s)\<lparr>contexts := contexts (workerPool s) @ [c]\<rparr>"
  obtain sr p1 where sub: "submit t ?p = (sr, p1)" by (cases "submit t ?p")
  have life: "inv_life ?p" using wf by (simp add: server_wf_def inv_life_def)
  have idx: "unat cid mod length (workers (workerPool s)) = workerIndex (length (workers ?p)) (ctx ?p t)"
    by (simp add: t workerIndex_def c requestContext_fields)
  have eq: "(r, s') = (case sr of Submitted \<Rightarrow> (Ok None, s\<lparr>workerPool := p1\<rparr>)
       | Rejected err \<Rightarrow> (Ok (Some err), s\<lparr>workerPool := set_context t (finish (ctx p1 t)) p1\<rparr>)
       | SendOnClosed \<Rightarrow> (Panic, s\<lparr>workerPool := p1\<rparr>))"
    using sub unfolding hr [symmetric] by (simp add: handleRequest_def Let_def c t split: submit_result.split)
  have pos: "0 < length (workers ?p)" using workers_pos [OF wf] by simp
  from sub life pos idx show thesis
  proof (cases rule: submit_cases)
    case 1
    with eq t show thesis by (intro stopping) (simp_all add: set_context_def)
  next
    case 2
    with eq t show thesis by (intro submitted) simp_all
  next
    case 3
    with eq t show thesis by (intro full) (simp_all add: set_context_def)
  qed
qed

lemma handleRequest_wf:
  assumes "server_wf s" "handleRequest cid transport parent_err w request s = (r, s')"
  shows "server_wf s'" "r \<noteq> Panic"
proof -
  let ?i = "unat cid mod length (workers (workerPool s))"
  have pos: "?i < length (workers (workerPool s))" using workers_pos [OF assms(1)] by simp
  have life: "inv_life (workerPool s)" using assms(1) by (simp add: server_wf_def)
  from assms HOL.refl HOL.refl have "server_wf s' \<and> r \<noteq> Panic"
  proof (cases rule: handleRequest_cases)
    case stopping
    then show ?thesis using assms(1) by (simp add: server_wf_def inv_life_def)
  next
    case (submitted p')
    have "pool_state (workerPool s) = workerPoolStateStarted" using life submitted(1) by (simp add: inv_life_def)
    moreover from this have "worker_life workerPoolStateStarted (workers (workerPool s) ! ?i)"
      using inv_life_worker [OF life pos] by simp
    ultimately have "inv_life p'"
      using life unfolding submitted(5) by (auto simp: inv_life_def worker_life_simps dest!: set_update_subset_insert [THEN subsetD])
    then show ?thesis using assms(1) submitted by (simp add: server_wf_def)
  next
    case (full p')
    have "inv_life p'" by (rule inv_life_frame [OF life]) (simp_all add: full(5))
    then show ?thesis using assms(1) full by (simp add: server_wf_def)
  qed
  then show "server_wf s'" "r \<noteq> Panic" by simp_all
qed

text \<open>A well-formed server with a started pool.\<close>

definition started_server :: "(unit, unit) Server" where
  "started_server =
     \<lparr>options = defaultServerOptions 4, srv_routing = serverRouting,
      workerPool = \<lparr>contexts = [], workers = replicate 4 (newWorker\<lparr>loop_started := True\<rparr>), capacity = 1024, accepting = True,
        pool_state = workerPoolStateStarted, tasks = {}, drain_fired = False, draining = False, pool_done = False,
        metrics = zeroServerMetrics, crashed = False, accepted = [], received = []\<rparr>,
      connectionManager = newConnectionManager 10, srv_connectionOpen = None, srv_connectionClose = None,
      srv_connectionError = None, runtimeOpen = None, runtimeClose = None, runtimeError = None, currentConnectionID = 0\<rparr>"

lemma default_options_ok: "options_ok (defaultServerOptions 4)"
  using default_options_valid [of 4] by (simp add: validateServerOptions_None)

lemma started_server_wf: "server_wf started_server"
  using default_options_ok serverRouting_init(1) newConnectionManager_refines(1) [of 10 "id :: uint64 \<Rightarrow> uint64"]
  by (simp add: started_server_def server_wf_def inv_life_def worker_life_simps newWorker_def newConnectionManager_def)
    (simp add: defaultServerOptions_def)

section \<open>Properties\<close>



text \<open>
  C35. A request reaches the right worker with the right handlers. On a well-formed server
  \<open>handleRequest\<close> does not panic and keeps the server well formed. The request is accepted
  exactly if the pool accepts tasks and the queue of the connection's worker has room: then its
  context, with the connection, the request and the handlers of the route (or the one that
  answers 404), is new and last in that queue, and nothing else is queued. Otherwise the result
  is \<open>ErrServerStopping\<close> or \<open>ErrWorkerQueueFull\<close>, no queue has changed, and the context is
  finished and cancelled.\<close>

theorem handle_request_exact:
  assumes "server_wf s" and "handleRequest cid transport parent_err w request s = (r, s')"
    and "p = workerPool s" and "p' = workerPool s'" and "i = unat cid mod length (workers p)"
    and "c = ctx p' (length (contexts p))"
  shows "server_wf s' \<and>
    r = Ok (if \<not> accepting p then Some ErrServerStopping
            else if capacity p \<le> length (queue (workers p ! i)) then Some ErrWorkerQueueFull else None) \<and>
    ctx_Connection c = Some cid \<and> ctx_Request c = request \<and>
    handlers c = (case route_handlers (srv_routing s) (Event (Request_Message request)) of
                    Some hs \<Rightarrow> hs | None \<Rightarrow> [Some notFoundHandler]) \<and>
    map queue (workers p') = (if r = Ok None then (map queue (workers p))[i := queue (workers p ! i) @ [length (contexts p)]]
                              else map queue (workers p)) \<and>
    (r \<noteq> Ok None \<longrightarrow> finished c \<and> ctx_err c \<noteq> None)"
proof -
  let ?c = "requestContext s cid transport parent_err w request"
  have fin: "ctx_Connection (finish ?c) = Some cid" "ctx_Request (finish ?c) = request" "handlers (finish ?c) = handlers ?c"
    "finished (finish ?c)" "ctx_err (finish ?c) \<noteq> None"
    by (simp_all add: finish_def cancelTask_def requestContext_fields)
  have wf: "server_wf s'" using handleRequest_wf [OF assms(1,2)] by simp
  from assms(1,2) HOL.refl HOL.refl show ?thesis
  proof (cases rule: handleRequest_cases)
    case stopping
    then show ?thesis using wf fin requestContext_fields [of s cid transport parent_err w request]
      unfolding assms(3-6) by (simp add: nth_append)
  next
    case (submitted q)
    then show ?thesis using wf requestContext_fields [of s cid transport parent_err w request]
      unfolding assms(3-6) by (simp add: map_update)
  next
    case (full q)
    then show ?thesis using wf fin requestContext_fields [of s cid transport parent_err w request]
      unfolding assms(3-6) by (simp add: nth_append)
  qed
qed

theorem handle_request_exact_witness:
  "\<exists>s'. handleRequest 5 TransportTCP None () (newRequest \<lparr>Event = 7, Body = [], BodySize = 0\<rparr>) started_server = (Ok None, s') \<and>
     handlers (ctx (workerPool s') 0) = [Some notFoundHandler]"
proof -
  obtain r s' where hr: "handleRequest 5 TransportTCP None () (newRequest \<lparr>Event = 7, Body = [], BodySize = 0\<rparr>) started_server = (r, s')"
    by (metis surj_pair)
  have "route_handlers (srv_routing started_server) 7 = None"
    by (simp add: started_server_def serverRouting_def newGroup_def newRouter_def route_handlers_def)
  with handle_request_exact [OF started_server_wf hr HOL.refl HOL.refl HOL.refl HOL.refl] hr show ?thesis
    by (simp add: started_server_def newWorker_def newRequest_def)
qed

end
