(* ===== verification/Lifecycle.thy ===== *)
theory Lifecycle
  imports Server
begin

text \<open>
  The life cycle of a server, \<open>src/server.go\<close>, \<open>src/tcp_server.go\<close> and
  \<open>src/websocket_server.go\<close>: \<open>Run\<close>, \<open>Shutdown\<close>, the goroutine that carries out a shutdown, the
  services that accept connections, and what they do to the worker pool, the connection manager
  and the connections.

  Each goroutine is a program counter in the state. Between two critical sections, waits or
  calls into another component it makes one step, and a run of the system is any interleaving.
\<close>

section \<open>State\<close>

datatype chan = NoChan | OpenChan | ClosedChan

text \<open>What \<open>Run\<close> returns: an error or nil, or a runtime failure joined with a shutdown error.\<close>

datatype run_result = RunError "go_error option" | RuntimeFailure go_error "go_error option"

text \<open>Where the call of \<open>Run\<close> is that claimed the server.\<close>

datatype run_pc =
    RunNone
  | RunPrepare
  | RunCheck                      \<comment> \<open>before the first \<open>startupCanceled\<close>\<close>
  | RunBind "Transport list"      \<comment> \<open>in \<open>bindTransports\<close>, with the transports left\<close>
  | RunTLS
  | RunRecheck
  | RunCommit                     \<comment> \<open>before the section that publishes \<open>stateRunning\<close>\<close>
  | RunServing                    \<comment> \<open>at the \<open>select\<close>\<close>
  | RunStopping "go_error option" \<comment> \<open>waits for \<open>shutdownDone\<close>, with the runtime error received\<close>
  | RunRollback "go_error option" \<comment> \<open>in \<open>rollbackStartup\<close>, with the error to return\<close>
  | RunReturned run_result

text \<open>Where the goroutine \<open>shutdownOwner\<close> is.\<close>

datatype owner_pc =
    OwnerNone
  | OwnerPool | OwnerSetups | OwnerListeners | OwnerAwaitSetups
  | OwnerQuiesce | OwnerDrain | OwnerAwaitDrain | OwnerSnapshot
  | OwnerConns "uint64 list" | OwnerAwaitConn uint64 "uint64 list"
  | OwnerForceClose | OwnerWaitAll waiter | OwnerAwaitServices
  | OwnerForce | OwnerFinish | OwnerDone

text \<open>
  A connection set-up between \<open>beginConnectionSetup\<close> and \<open>finishConnectionSetup\<close>: an upgrade
  before the check of the connection limit, one that has passed it, and one whose connection is
  open and whose open hook runs.
\<close>

datatype setup_pc = SetupBegun | SetupAdmitted | SetupOpened uint64

text \<open>
  The \<open>_once\<close> fields are the \<open>sync.Once\<close> objects. \<open>setups\<close> are the calls counted by \<open>setupWG\<close>,
  \<open>services\<close> the number counted by \<open>serviceWG\<close>. A listener is represented by its address. \<open>lc_panic\<close> says that a nil or closed channel
  was closed.
\<close>

record lifecycle =
  lc_state :: serverState
  startupDone :: chan
  shutdownDone :: chan
  serveGate :: chan
  startupClose_once :: bool
  shutdownClose_once :: bool
  serveGate_once :: bool
  shutdownStart_once :: bool
  stopRequested :: bool
  shutdownErr :: "go_error option"
  runtimeErr :: "go_error list"
  runtimeErr_cap :: nat
  listeners :: "(Transport \<times> string) list"
  addresses :: "(Transport \<times> string) list"
  listeners_closed :: bool
  acceptingSetups :: bool
  setups :: "setup_pc list"
  services :: nat
  run_at :: run_pc
  owner_at :: owner_pc
  timedOut :: bool
  lc_panic :: bool

definition newLifecycle :: lifecycle where
  "newLifecycle = \<lparr>lc_state = stateNew, startupDone = NoChan, shutdownDone = NoChan, serveGate = NoChan,
     startupClose_once = False, shutdownClose_once = False, serveGate_once = False, shutdownStart_once = False,
     stopRequested = False, shutdownErr = None, runtimeErr = [], runtimeErr_cap = 0, listeners = [],
     addresses = [], listeners_closed = False, acceptingSetups = False, setups = [], services = 0, run_at = RunNone,
     owner_at = OwnerNone, timedOut = False, lc_panic = False\<rparr>"

section \<open>Channels\<close>

text \<open>\<open>closeOnce\<close>, as the state of the once, of the channel, and whether closing it panicked.\<close>

definition closeOnce :: "bool \<Rightarrow> chan \<Rightarrow> bool \<times> chan \<times> bool" where
  "closeOnce fired channel =
     (if fired then (True, channel, False)
      else (True, ClosedChan, channel \<noteq> OpenChan))"

definition closeStartup :: "lifecycle \<Rightarrow> lifecycle" where
  "closeStartup lc = (let (f, c, p) = closeOnce (startupClose_once lc) (startupDone lc)
     in lc\<lparr>startupClose_once := f, startupDone := c, lc_panic := lc_panic lc \<or> p\<rparr>)"

definition closeShutdown :: "lifecycle \<Rightarrow> lifecycle" where
  "closeShutdown lc = (let (f, c, p) = closeOnce (shutdownClose_once lc) (shutdownDone lc)
     in lc\<lparr>shutdownClose_once := f, shutdownDone := c, lc_panic := lc_panic lc \<or> p\<rparr>)"

definition closeGate :: "lifecycle \<Rightarrow> lifecycle" where
  "closeGate lc = (let (f, c, p) = closeOnce (serveGate_once lc) (serveGate lc)
     in lc\<lparr>serveGate_once := f, serveGate := c, lc_panic := lc_panic lc \<or> p\<rparr>)"

section \<open>Run\<close>

definition claimRun :: "ServerOptions \<Rightarrow> lifecycle \<Rightarrow> go_error option \<times> lifecycle" where
  "claimRun opts lc =
     (case lc_state lc of
        stateNew \<Rightarrow>
          (None, lc\<lparr>lc_state := stateStarting, startupDone := OpenChan, shutdownDone := OpenChan,
                    serveGate := OpenChan, runtimeErr := [], runtimeErr_cap := length (Transports opts),
                    listeners := [], addresses := [], run_at := RunPrepare\<rparr>)
      | stateStopped \<Rightarrow> (Some ErrServerStopped, lc)
      | _ \<Rightarrow> (Some ErrServerRunning, lc))"

definition startupCanceled :: "go_error option \<Rightarrow> lifecycle \<Rightarrow> bool" where
  "startupCanceled ctxErr lc \<longleftrightarrow> stopRequested lc \<or> ctxErr \<noteq> None"

definition closeServingResources :: "lifecycle \<Rightarrow> lifecycle" where
  "closeServingResources lc = lc\<lparr>listeners_closed := True\<rparr>"

definition rollbackStartup :: "lifecycle \<Rightarrow> lifecycle" where
  "rollbackStartup lc =
     (let lc1 = closeServingResources (closeGate lc)
      in closeShutdown (closeStartup (lc1\<lparr>lc_state := stateStopped, shutdownErr := None\<rparr>)))"

definition launchServices :: "lifecycle \<Rightarrow> lifecycle" where
  "launchServices lc = lc\<lparr>services := services lc + length (listeners lc)\<rparr>"

text \<open>\<open>shutdownStartOnce\<close> with the goroutine it starts.\<close>

definition startOwner :: "lifecycle \<Rightarrow> lifecycle" where
  "startOwner lc = (if shutdownStart_once lc then lc
                    else lc\<lparr>shutdownStart_once := True, owner_at := OwnerPool\<rparr>)"

definition startShutdown :: "lifecycle \<Rightarrow> lifecycle" where
  "startShutdown lc = startOwner (if lc_state lc = stateRunning then lc\<lparr>lc_state := stateStopping\<rparr> else lc)"

text \<open>
  The steps of \<open>Run\<close>. An event carries what the code around it returned: the error of the
  context, of the preparation, of \<open>listen\<close> (or the address of the listener) and of the loading of the certificate.
\<close>

datatype run_event =
    Prepared "go_error option"
  | Checked "go_error option"
  | Bound "go_error option" "go_error + string"
  | LoadedKeys "go_error option"
  | Committed "go_error option"
  | SelectCtx | SelectErr | SelectDone
  | Finished
  | RolledBack

definition abort :: "go_error option \<Rightarrow> lifecycle \<Rightarrow> lifecycle" where
  "abort err lc = lc\<lparr>run_at := RunRollback err\<rparr>"

definition applyTLS :: "ServerOptions \<Rightarrow> go_error option \<Rightarrow> go_error option" where
  "applyTLS opts load_err = (if CertFile opts = [] then None else load_err)"

text \<open>One round of \<open>bindTransports\<close> and what \<open>Run\<close> does with its error.\<close>

definition bindTransport :: "go_error option \<Rightarrow> go_error + string \<Rightarrow> Transport \<Rightarrow> Transport list \<Rightarrow> lifecycle \<Rightarrow> lifecycle" where
  "bindTransport ctxErr listen transport rest lc =
     (if startupCanceled ctxErr lc then abort None lc
      else case listen of
             Inl err \<Rightarrow> abort (if is_Canceled err then None else Some err) lc
           | Inr addr \<Rightarrow> lc\<lparr>listeners := map_put transport addr (listeners lc),
                           addresses := map_put transport addr (addresses lc), run_at := RunBind rest\<rparr>)"

definition Address :: "Transport \<Rightarrow> lifecycle \<Rightarrow> string option" where
  "Address transport lc = map_of (addresses lc) transport"

definition commit :: "lifecycle \<Rightarrow> lifecycle" where
  "commit lc = closeStartup (closeGate ((launchServices (lc\<lparr>acceptingSetups := True\<rparr>))
     \<lparr>lc_state := stateRunning, run_at := RunServing\<rparr>))"

text \<open>The result of \<open>Run\<close> when \<open>shutdownDone\<close> is closed.\<close>

definition run_return :: "go_error option \<Rightarrow> lifecycle \<Rightarrow> run_result" where
  "run_return cause lc =
     (let runtimeCause = (case cause of Some err \<Rightarrow> Some err
                          | None \<Rightarrow> (case runtimeErr lc of [] \<Rightarrow> None | err # _ \<Rightarrow> Some err))
      in case runtimeCause of
           Some err \<Rightarrow> RuntimeFailure err (shutdownErr lc)
         | None \<Rightarrow> RunError (shutdownErr lc))"

fun Run_step :: "ServerOptions \<Rightarrow> run_event \<Rightarrow> lifecycle \<Rightarrow> lifecycle option" where
  "Run_step opts (Prepared err) lc =
     (if run_at lc = RunPrepare then Some (case err of None \<Rightarrow> lc\<lparr>run_at := RunCheck\<rparr> | Some e \<Rightarrow> abort (Some e) lc) else None)"
| "Run_step opts (Checked ctxErr) lc =
     (if run_at lc = RunCheck
      then Some (if startupCanceled ctxErr lc then abort None lc else lc\<lparr>run_at := RunBind (Transports opts)\<rparr>)
      else if run_at lc = RunRecheck
      then Some (if startupCanceled ctxErr lc then abort None lc else lc\<lparr>run_at := RunCommit\<rparr>) else None)"
| "Run_step opts (Bound ctxErr listen) lc =
     (case run_at lc of
        RunBind [] \<Rightarrow> Some (lc\<lparr>run_at := RunTLS\<rparr>)
      | RunBind (t # ts) \<Rightarrow> Some (bindTransport ctxErr listen t ts lc)
      | _ \<Rightarrow> None)"
| "Run_step opts (LoadedKeys load_err) lc =
     (if run_at lc = RunTLS
      then Some (case applyTLS opts load_err of None \<Rightarrow> lc\<lparr>run_at := RunRecheck\<rparr> | Some e \<Rightarrow> abort (Some e) lc) else None)"
| "Run_step opts (Committed ctxErr) lc =
     (if run_at lc = RunCommit
      then Some (if stopRequested lc \<or> ctxErr \<noteq> None then abort None lc else commit lc) else None)"
| "Run_step opts SelectCtx lc =
     (if run_at lc = RunServing then Some ((startShutdown lc)\<lparr>run_at := RunStopping None\<rparr>) else None)"
| "Run_step opts SelectErr lc =
     (case runtimeErr lc of
        [] \<Rightarrow> None
      | err # errs \<Rightarrow>
          if run_at lc = RunServing
          then Some ((startShutdown (lc\<lparr>runtimeErr := errs\<rparr>))\<lparr>run_at := RunStopping (Some err)\<rparr>) else None)"
| "Run_step opts SelectDone lc =
     (if run_at lc = RunServing \<and> shutdownDone lc = ClosedChan then Some (lc\<lparr>run_at := RunStopping None\<rparr>) else None)"
| "Run_step opts Finished lc =
     (case run_at lc of
        RunStopping cause \<Rightarrow>
          if shutdownDone lc = ClosedChan
          then Some (lc\<lparr>run_at := RunReturned (run_return cause lc),
                        runtimeErr := (if cause = None then tl (runtimeErr lc) else runtimeErr lc)\<rparr>) else None
      | _ \<Rightarrow> None)"
| "Run_step opts RolledBack lc =
     (case run_at lc of
        RunRollback err \<Rightarrow>
          if services lc = 0 then Some ((rollbackStartup lc)\<lparr>run_at := RunReturned (RunError err)\<rparr>) else None
      | _ \<Rightarrow> None)"

section \<open>Shutdown\<close>

text \<open>
  \<open>Shutdown\<close> up to its wait, and the result of the wait: \<open>terminalShutdownError\<close> once the channel
  is closed, or the error of the caller's context. \<open>None\<close>: it still waits.
\<close>

datatype shutdown_call = Answered "go_error option" | AwaitStartup | AwaitShutdown

definition Shutdown_begin :: "lifecycle \<Rightarrow> shutdown_call \<times> lifecycle" where
  "Shutdown_begin lc =
     (case lc_state lc of
        stateNew \<Rightarrow> (Answered None, lc)
      | stateStarting \<Rightarrow> (AwaitStartup, lc\<lparr>stopRequested := True\<rparr>)
      | stateRunning \<Rightarrow> (AwaitShutdown, startOwner (lc\<lparr>lc_state := stateStopping\<rparr>))
      | stateStopping \<Rightarrow> (AwaitShutdown, lc)
      | stateStopped \<Rightarrow> (Answered (shutdownErr lc), lc))"

definition terminalShutdownError :: "lifecycle \<Rightarrow> go_error option" where
  "terminalShutdownError lc = shutdownErr lc"

fun Shutdown_result :: "bool \<Rightarrow> go_error option \<Rightarrow> shutdown_call \<Rightarrow> lifecycle \<Rightarrow> go_error option option" where
  "Shutdown_result prefer_ctx ctxErr (Answered err) lc = Some err"
| "Shutdown_result prefer_ctx ctxErr AwaitStartup lc =
     (if startupDone lc = ClosedChan \<and> (\<not> prefer_ctx \<or> ctxErr = None) then Some (terminalShutdownError lc)
      else map_option Some ctxErr)"
| "Shutdown_result prefer_ctx ctxErr AwaitShutdown lc =
     (if shutdownDone lc = ClosedChan \<and> (\<not> prefer_ctx \<or> ctxErr = None) then Some (terminalShutdownError lc)
      else map_option Some ctxErr)"

section \<open>Services and set-ups\<close>

text \<open>
  What \<open>serveWebSocket\<close> returns, and \<open>serveTCP\<close> at the end of its loop, when \<open>Serve\<close> or \<open>Accept\<close> returns
  an error; and the end of a serving goroutine.
\<close>

definition serveWebSocket :: "go_error option \<Rightarrow> go_error option" where
  "serveWebSocket err = (if expectedServingError err then None else err)"

definition service_exit :: "go_error option \<Rightarrow> lifecycle \<Rightarrow> lifecycle option" where
  "service_exit err lc =
     (if 0 < services lc \<and> serveGate lc = ClosedChan then
        let lc1 = lc\<lparr>services := services lc - 1\<rparr> in
        Some (case serveWebSocket err of
                None \<Rightarrow> lc1
              | Some e \<Rightarrow> if length (runtimeErr lc1) < runtimeErr_cap lc1 then lc1\<lparr>runtimeErr := runtimeErr lc1 @ [e]\<rparr> else lc1)
      else None)"

definition beginConnectionSetup :: "setup_pc \<Rightarrow> lifecycle \<Rightarrow> bool \<times> lifecycle" where
  "beginConnectionSetup pc lc =
     (if \<not> acceptingSetups lc then (False, lc) else (True, lc\<lparr>setups := setups lc @ [pc]\<rparr>))"

definition finishConnectionSetup :: "nat \<Rightarrow> lifecycle \<Rightarrow> lifecycle" where
  "finishConnectionSetup i lc = lc\<lparr>setups := take i (setups lc) @ drop (Suc i) (setups lc)\<rparr>"

definition stopConnectionSetups :: "lifecycle \<Rightarrow> lifecycle" where
  "stopConnectionSetups lc = lc\<lparr>acceptingSetups := False\<rparr>"

section \<open>The system\<close>

text \<open>
  The server with its connections. \<open>phases\<close> is how far the finalization of each connection has
  come, as in the theory \<open>Manager\<close>, and \<open>conns\<close> the connections by ID.
\<close>

record ('v, 'w) system =
  lc :: lifecycle
  srv :: "('v, 'w) Server"
  phases :: "uint64 \<Rightarrow> phase"
  conns :: "uint64 \<Rightarrow> netConnection"

abbreviation pool :: "('v, 'w) system \<Rightarrow> ('v, 'w) workerPool" where
  "pool s \<equiv> workerPool (srv s)"

abbreviation manager :: "('v, 'w) system \<Rightarrow> uint64 connectionManager" where
  "manager s \<equiv> connectionManager (srv s)"

abbreviation set_pool :: "('v, 'w) workerPool \<Rightarrow> ('v, 'w) system \<Rightarrow> ('v, 'w) system" where
  "set_pool p s \<equiv> s\<lparr>srv := (srv s)\<lparr>workerPool := p\<rparr>\<rparr>"

abbreviation set_manager :: "uint64 connectionManager \<Rightarrow> ('v, 'w) system \<Rightarrow> ('v, 'w) system" where
  "set_manager m s \<equiv> s\<lparr>srv := (srv s)\<lparr>connectionManager := m\<rparr>\<rparr>"

text \<open>The admission of a connection: the loop of \<open>serveTCP\<close> and \<open>handleWebSocketUpgrade\<close>.\<close>

definition limitReached :: "('v, 'w) system \<Rightarrow> bool" where
  "limitReached s \<longleftrightarrow> int (connectionsCount (manager s)) \<ge> sint (MaxConnectionsCount (options (srv s)))"

definition accept_tcp :: "('v, 'w) system \<Rightarrow> ('v, 'w) system" where
  "accept_tcp s = (if limitReached s then s else s\<lparr>lc := snd (beginConnectionSetup SetupAdmitted (lc s))\<rparr>)"

definition upgrade_begin :: "('v, 'w) system \<Rightarrow> ('v, 'w) system" where
  "upgrade_begin s = s\<lparr>lc := snd (beginConnectionSetup SetupBegun (lc s))\<rparr>"

definition upgrade_check :: "nat \<Rightarrow> ('v, 'w) system \<Rightarrow> ('v, 'w) system option" where
  "upgrade_check i s =
     (if i < length (setups (lc s)) \<and> setups (lc s) ! i = SetupBegun
      then Some (if limitReached s then s\<lparr>lc := finishConnectionSetup i (lc s)\<rparr>
                 else s\<lparr>lc := (lc s)\<lparr>setups := (setups (lc s))[i := SetupAdmitted]\<rparr>\<rparr>)
      else None)"

text \<open>The upgrade fails, or the new connection cannot be made.\<close>

definition setup_fail :: "nat \<Rightarrow> ('v, 'w) system \<Rightarrow> ('v, 'w) system option" where
  "setup_fail i s =
     (if i < length (setups (lc s)) \<and> setups (lc s) ! i = SetupAdmitted
      then Some (s\<lparr>lc := finishConnectionSetup i (lc s)\<rparr>) else None)"

text \<open>
  \<open>openTCPConnection\<close> and \<open>openWebSocketConnection\<close>: a new ID, the connection, its registration
  and its start. The counter of IDs has 64 bits; the step requires that it has not come round
  to an ID in use.
\<close>

definition open_connection :: "nat \<Rightarrow> Transport \<Rightarrow> int \<Rightarrow> ('v, 'w) system \<Rightarrow> ('v, 'w) system option" where
  "open_connection i transport now s =
     (let (cid, srv1) = nextConnectionID (srv s) in
      if i < length (setups (lc s)) \<and> setups (lc s) ! i = SetupAdmitted \<and> phases s cid = Absent
      then Some (s\<lparr>srv := srv1\<lparr>connectionManager := addConnection id cid (connectionManager srv1)\<rparr>,
                   phases := (phases s)(cid := Open),
                   conns := (conns s)(cid := start_conn (newNetConnection transport
                     (ConnectionWriteBufferSize (options srv1)) now (metrics (workerPool srv1)))),
                   lc := (lc s)\<lparr>setups := (setups (lc s))[i := SetupOpened cid]\<rparr>\<rparr>)
      else None)"

definition setup_finish :: "nat \<Rightarrow> ('v, 'w) system \<Rightarrow> ('v, 'w) system option" where
  "setup_finish i s =
     (if i < length (setups (lc s)) then
        case setups (lc s) ! i of
          SetupOpened cid \<Rightarrow> if openHook_done (conns s cid) then Some (s\<lparr>lc := finishConnectionSetup i (lc s)\<rparr>) else None
        | _ \<Rightarrow> None
      else None)"

text \<open>
  A connection at work. Its last steps are those of its supervisor, with the manager's part
  between them (its cancellation of the contexts is taken together with the close hook and the
  final state); the reason \<open>ErrServerStopping\<close> is given by the shutdown only.
\<close>

fun own_event :: "conn_event \<Rightarrow> bool" where
  "own_event (CSupervise hook panicked) = False"
| "own_event (CClose opn err onlyOpen) = (err \<noteq> ErrServerStopping)"
| "own_event (COpenHook (Some err)) = (err \<noteq> ErrServerStopping)"
| "own_event (CWriter (Write (Some err))) = (err \<noteq> ErrServerStopping)"
| "own_event _ = True"

definition conn_work :: "uint64 \<Rightarrow> conn_event \<Rightarrow> ('v, 'w) system \<Rightarrow> ('v, 'w) system option" where
  "conn_work cid ev s =
     (if phases s cid \<noteq> Absent \<and> own_event ev
      then map_option (\<lambda>(r, c). s\<lparr>conns := (conns s)(cid := c)\<rparr>) (conn_exec ev (conns s cid)) else None)"

definition children_done :: "netConnection \<Rightarrow> bool" where
  "children_done c \<longleftrightarrow> openHook_done c \<and> writer c = WriterDone \<and> reader_done c \<and> heartbeat_done c"

definition conn_finalize :: "uint64 \<Rightarrow> bool \<Rightarrow> go_error option \<Rightarrow> ('v, 'w) system \<Rightarrow> ('v, 'w) system option" where
  "conn_finalize cid hook panicked s =
     (case phases s cid of
        Open \<Rightarrow> if children_done (conns s cid)
                then Some ((set_manager (remove_begin id cid (manager s)) s)\<lparr>phases := (phases s)(cid := Entered)\<rparr>) else None
      | Entered \<Rightarrow> Some ((set_manager (remove_end id cid (manager s)) s)\<lparr>phases := (phases s)(cid := Removed)\<rparr>)
      | Removed \<Rightarrow> map_option (\<lambda>c. s\<lparr>conns := (conns s)(cid := c), phases := (phases s)(cid := Done)\<rparr>)
                     (supervise hook panicked (conns s cid))
      | Done \<Rightarrow> Some ((set_manager (markFinalized id cid (manager s)) s)\<lparr>phases := (phases s)(cid := Finalized)\<rparr>)
      | _ \<Rightarrow> None)"

section \<open>The owner of the shutdown\<close>

text \<open>
  The methods of the manager applied to the store of connections. \<open>deadline_err\<close> is what
  \<open>SetReadDeadline\<close> returns for each connection.
\<close>

abbreviation quiesce_all :: "(uint64 \<Rightarrow> go_error option) \<Rightarrow> ('v, 'w) system \<Rightarrow> uint64 \<Rightarrow> netConnection" where
  "quiesce_all deadline_err s \<equiv>
     snd (quiesceAll (\<lambda>cid cs. let (e, c) = quiesceReads (deadline_err cid) (cs cid) in (e, cs(cid := c))) (manager s) (conns s))"

abbreviation force_close_all :: "('v, 'w) system \<Rightarrow> uint64 \<Rightarrow> netConnection" where
  "force_close_all s \<equiv> forceCloseAll (\<lambda>cid opn err cs. cs(cid := requestClose opn err (cs cid))) (manager s) (conns s)"

abbreviation owner_to :: "owner_pc \<Rightarrow> ('v, 'w) system \<Rightarrow> ('v, 'w) system" where
  "owner_to pc s \<equiv> s\<lparr>lc := (lc s)\<lparr>owner_at := pc\<rparr>\<rparr>"

abbreviation owner_late :: "owner_pc \<Rightarrow> ('v, 'w) system \<Rightarrow> ('v, 'w) system" where
  "owner_late pc s \<equiv> s\<lparr>lc := (lc s)\<lparr>owner_at := pc, timedOut := True\<rparr>\<rparr>"

text \<open>The last section of \<open>shutdownOwner\<close>.\<close>

definition owner_publish :: "lifecycle \<Rightarrow> lifecycle" where
  "owner_publish l = closeShutdown (l\<lparr>shutdownErr := (if timedOut l then Some ErrShutdownTimeout else shutdownErr l),
     lc_state := stateStopped, owner_at := OwnerDone\<rparr>)"

text \<open>\<open>Late\<close> is the case of a wait in which the deadline of the shutdown has passed.\<close>

datatype owner_event = Go | Late | Deadlines "uint64 \<Rightarrow> go_error option" | Wait waiter

fun shutdownOwner :: "owner_event \<Rightarrow> ('v, 'w) system \<Rightarrow> ('v, 'w) system option" where
  "shutdownOwner Go s =
     (case owner_at (lc s) of
        OwnerPool \<Rightarrow> Some (owner_to OwnerSetups (set_pool (stopAccepting (pool s)) s))
      | OwnerSetups \<Rightarrow> Some (owner_to OwnerListeners (s\<lparr>lc := stopConnectionSetups (lc s)\<rparr>))
      | OwnerListeners \<Rightarrow> Some (owner_to OwnerAwaitSetups (s\<lparr>lc := closeServingResources (lc s)\<rparr>))
      | OwnerAwaitSetups \<Rightarrow> if setups (lc s) = [] then Some (owner_to OwnerQuiesce s) else None
      | OwnerDrain \<Rightarrow> Some (owner_to OwnerAwaitDrain (set_pool (drain_begin (pool s)) s))
      | OwnerAwaitDrain \<Rightarrow> (case drain_wait False None (pool s) of
                               Some (None, p) \<Rightarrow> Some (owner_to OwnerSnapshot (set_pool p s)) | _ \<Rightarrow> None)
      | OwnerSnapshot \<Rightarrow> Some (owner_to (OwnerConns (snapshot (manager s))) s)
      | OwnerConns [] \<Rightarrow> Some (owner_to OwnerForceClose s)
      | OwnerConns (cid # cids) \<Rightarrow>
          Some (owner_to (OwnerAwaitConn cid cids) (s\<lparr>conns := (conns s)(cid := stopSends (conns s cid))\<rparr>))
      | OwnerAwaitConn cid cids \<Rightarrow>
          if drain_result False None (conns s cid) = Some None then Some (owner_to (OwnerConns cids) s) else None
      | OwnerForceClose \<Rightarrow> Some (owner_to (OwnerWaitAll (WGroups 0 [])) (s\<lparr>conns := force_close_all s\<rparr>))
      | OwnerWaitAll (WReturned None) \<Rightarrow> Some (owner_to OwnerAwaitServices s)
      | OwnerWaitAll (WReturned (Some err)) \<Rightarrow> Some (owner_late OwnerAwaitServices s)
      | OwnerAwaitServices \<Rightarrow> if services (lc s) = 0 then Some (owner_to OwnerForce s) else None
      | OwnerForce \<Rightarrow>
          Some (if timedOut (lc s)
                then owner_to OwnerFinish ((set_pool (forceCancel (pool s)) s)\<lparr>conns := force_close_all s\<rparr>)
                else owner_to OwnerFinish s)
      | OwnerFinish \<Rightarrow> Some (s\<lparr>lc := owner_publish (lc s)\<rparr>)
      | _ \<Rightarrow> None)"
| "shutdownOwner Late s =
     (case owner_at (lc s) of
        OwnerAwaitSetups \<Rightarrow> Some (owner_late OwnerQuiesce s)
      | OwnerAwaitDrain \<Rightarrow> (case drain_wait True (Some DeadlineExceeded) (pool s) of
                               Some (Some err, p) \<Rightarrow> Some (owner_late OwnerSnapshot (set_pool p s)) | _ \<Rightarrow> None)
      | OwnerAwaitConn cid cids \<Rightarrow> Some (owner_late OwnerForceClose s)
      | OwnerAwaitServices \<Rightarrow> Some (owner_late OwnerForce s)
      | _ \<Rightarrow> None)"
| "shutdownOwner (Deadlines deadline_err) s =
     (if owner_at (lc s) = OwnerQuiesce
      then Some (owner_to OwnerDrain (s\<lparr>conns := quiesce_all deadline_err s\<rparr>)) else None)"
| "shutdownOwner (Wait w') s =
     (case owner_at (lc s) of
        OwnerWaitAll w \<Rightarrow> if waitAll_step (manager s, phases s) w w' then Some (owner_to (OwnerWaitAll w') s) else None
      | _ \<Rightarrow> None)"

section \<open>Runs\<close>

datatype ('v, 'w) sys_event =
    EConfigure ServerOptions       \<comment> \<open>the application sets the exported options\<close>
  | EClaim
  | ERun run_event
  | EShutdown
  | EOwner owner_event
  | EService "go_error option"
  | EAcceptTCP | EUpgrade | ECheckLimit nat | ESetupFail nat
  | EOpen nat Transport int | ESetupFinish nat
  | EConn uint64 conn_event
  | EFinalize uint64 bool "go_error option"
  | EPool "('v, 'w) pool_event"
  | ERoute "'v prog routing_op"    \<comment> \<open>the application sets up a group, a middleware or a route\<close>

text \<open>The events of the pool that are not calls made by the server's life cycle.\<close>

fun pool_work :: "('v, 'w) pool_event \<Rightarrow> bool" where
  "pool_work (PSubmit c) = True"
| "pool_work (PCancel t) = True"
| "pool_work (PFinish t) = True"
| "pool_work (PReceive i) = True"
| "pool_work (PRun d i) = True"
| "pool_work (PExit i) = True"
| "pool_work PDrainFinish = True"
| "pool_work _ = False"

text \<open>The routes are frozen by \<open>Run\<close> only.\<close>

fun application_op :: "'h routing_op \<Rightarrow> bool" where
  "application_op OpFreeze = False"
| "application_op _ = True"

text \<open>Requests come from the readers of connections that have been opened.\<close>

fun from_connection :: "(uint64 \<Rightarrow> phase) \<Rightarrow> ('v, 'w) pool_event \<Rightarrow> bool" where
  "from_connection ph (PSubmit c) = (case ctx_Connection c of None \<Rightarrow> False | Some cid \<Rightarrow> ph cid \<noteq> Absent)"
| "from_connection ph _ = True"

fun sys_exec ::
  "(nat \<Rightarrow> nat) \<Rightarrow> 'w handler_env \<Rightarrow> ('v, 'w) sys_event \<Rightarrow> ('v, 'w) system \<Rightarrow> ('v, 'w) system option" where
  "sys_exec grow env (EConfigure opts) s =
     (if lc_state (lc s) = stateNew then Some (s\<lparr>srv := (srv s)\<lparr>options := opts\<rparr>\<rparr>) else None)"
| "sys_exec grow env EClaim s = Some (s\<lparr>lc := snd (claimRun (options (srv s)) (lc s))\<rparr>)"
| "sys_exec grow env (ERun ev) s =
     (case ev of
        Prepared err \<Rightarrow>
          (let (r, srv1) = prepareRun grow (srv s) in
           if r = (case err of None \<Rightarrow> Ok () | Some e \<Rightarrow> Err e)
           then map_option (\<lambda>l. s\<lparr>lc := l, srv := srv1\<rparr>) (Run_step (options (srv s)) ev (lc s)) else None)
      | Committed ctxErr \<Rightarrow>
          map_option (\<lambda>l. (if lc_state l = stateRunning then set_pool (pool_start (pool s)) s else s)\<lparr>lc := l\<rparr>)
            (Run_step (options (srv s)) ev (lc s))
      | _ \<Rightarrow> map_option (\<lambda>l. s\<lparr>lc := l\<rparr>) (Run_step (options (srv s)) ev (lc s)))"
| "sys_exec grow env EShutdown s = Some (s\<lparr>lc := snd (Shutdown_begin (lc s))\<rparr>)"
| "sys_exec grow env (EOwner ev) s = shutdownOwner ev s"
| "sys_exec grow env (EService err) s = map_option (\<lambda>l. s\<lparr>lc := l\<rparr>) (service_exit err (lc s))"
| "sys_exec grow env EAcceptTCP s = Some (accept_tcp s)"
| "sys_exec grow env EUpgrade s = Some (upgrade_begin s)"
| "sys_exec grow env (ECheckLimit i) s = upgrade_check i s"
| "sys_exec grow env (ESetupFail i) s = setup_fail i s"
| "sys_exec grow env (EOpen i transport now) s = open_connection i transport now s"
| "sys_exec grow env (ESetupFinish i) s = setup_finish i s"
| "sys_exec grow env (EConn cid ev) s = conn_work cid ev s"
| "sys_exec grow env (EFinalize cid hook panicked) s = conn_finalize cid hook panicked s"
| "sys_exec grow env (EPool ev) s =
     (if pool_work ev \<and> from_connection (phases s) ev
      then map_option (\<lambda>(r, p). set_pool p s) (pool_exec env ev (pool s)) else None)"
| "sys_exec grow env (ERoute rop) s =
     (if application_op rop
      then map_option (\<lambda>(err, w). s\<lparr>srv := (srv s)\<lparr>srv_routing := w\<rparr>\<rparr>)
             (routing_step grow (lc_state (lc s), rop) (srv_routing (srv s)))
      else None)"

text \<open>
  Reachable systems: a server made by \<open>NewServer\<close>, without connections, and any events. A
  panic that leaves a worker ends the process.
\<close>

definition newSystem :: "('v, 'w) Server \<Rightarrow> ('v, 'w) system" where
  "newSystem sv = \<lparr>lc = newLifecycle, srv = sv, phases = (\<lambda>_. Absent),
     conns = (\<lambda>_. newNetConnection 0 0 0 zeroServerMetrics)\<rparr>"

inductive sys_reachable :: "(nat \<Rightarrow> nat) \<Rightarrow> 'w handler_env \<Rightarrow> ('v, 'w) system \<Rightarrow> bool" for grow env where
  new: "NewServer gomaxprocs serverOptions = Ok sv \<Longrightarrow> sys_reachable grow env (newSystem sv)"
| event: "sys_reachable grow env s \<Longrightarrow> \<not> crashed (pool s) \<Longrightarrow> sys_exec grow env ev s = Some s' \<Longrightarrow> sys_reachable grow env s'"

section \<open>The life cycle alone\<close>

text \<open>How far the owner of the shutdown has come.\<close>

fun owner_rank :: "owner_pc \<Rightarrow> nat" where
  "owner_rank OwnerNone = 0"
| "owner_rank OwnerPool = 1"
| "owner_rank OwnerSetups = 2"
| "owner_rank OwnerListeners = 3"
| "owner_rank OwnerAwaitSetups = 4"
| "owner_rank OwnerQuiesce = 5"
| "owner_rank OwnerDrain = 6"
| "owner_rank OwnerAwaitDrain = 7"
| "owner_rank OwnerSnapshot = 8"
| "owner_rank (OwnerConns cids) = 9"
| "owner_rank (OwnerAwaitConn cid cids) = 9"
| "owner_rank OwnerForceClose = 10"
| "owner_rank (OwnerWaitAll w) = 11"
| "owner_rank OwnerAwaitServices = 12"
| "owner_rank OwnerForce = 13"
| "owner_rank OwnerFinish = 14"
| "owner_rank OwnerDone = 15"

fun in_startup :: "run_pc \<Rightarrow> bool" where
  "in_startup RunPrepare = True"
| "in_startup RunCheck = True"
| "in_startup (RunBind ts) = True"
| "in_startup RunTLS = True"
| "in_startup RunRecheck = True"
| "in_startup RunCommit = True"
| "in_startup (RunRollback err) = True"
| "in_startup _ = False"

fun serving :: "run_pc \<Rightarrow> bool" where
  "serving RunServing = True"
| "serving (RunStopping cause) = True"
| "serving (RunReturned r) = True"
| "serving _ = False"

fun started :: "serverState \<Rightarrow> bool" where
  "started stateNew = False"
| "started stateStarting = False"
| "started _ = True"

text \<open>The channels follow the state, and each is closed once.\<close>

definition channels_ok :: "lifecycle \<Rightarrow> bool" where
  "channels_ok l \<longleftrightarrow> \<not> lc_panic l \<and>
     startupDone l = (if lc_state l = stateNew then NoChan else if started (lc_state l) then ClosedChan else OpenChan) \<and>
     serveGate l = (if lc_state l = stateNew then NoChan else if started (lc_state l) then ClosedChan else OpenChan) \<and>
     shutdownDone l = (if lc_state l = stateNew then NoChan else if lc_state l = stateStopped then ClosedChan else OpenChan) \<and>
     startupClose_once l = started (lc_state l) \<and> serveGate_once l = started (lc_state l) \<and>
     shutdownClose_once l = (lc_state l = stateStopped)"

text \<open>No set-up and no service, and nothing of a shutdown.\<close>

definition idle :: "lifecycle \<Rightarrow> bool" where
  "idle l \<longleftrightarrow> setups l = [] \<and> \<not> acceptingSetups l \<and> services l = 0 \<and> owner_at l = OwnerNone \<and>
     \<not> shutdownStart_once l \<and> shutdownErr l = None \<and> \<not> timedOut l"

text \<open>What the owner has achieved up to a point of its run.\<close>

definition owner_ok :: "lifecycle \<Rightarrow> bool" where
  "owner_ok l \<longleftrightarrow> shutdownStart_once l \<and> \<not> stopRequested l \<and> owner_at l \<noteq> OwnerNone \<and>
     (3 \<le> owner_rank (owner_at l) \<longrightarrow> \<not> acceptingSetups l) \<and>
     (5 \<le> owner_rank (owner_at l) \<longrightarrow> timedOut l \<or> setups l = []) \<and>
     (13 \<le> owner_rank (owner_at l) \<longrightarrow> timedOut l \<or> services l = 0)"

text \<open>The goroutines and counters in each state.\<close>

fun stage_ok :: "serverState \<Rightarrow> lifecycle \<Rightarrow> bool" where
  "stage_ok stateNew l = (run_at l = RunNone \<and> idle l \<and> \<not> stopRequested l)"
| "stage_ok stateStarting l = (in_startup (run_at l) \<and> idle l)"
| "stage_ok stateRunning l = (run_at l = RunServing \<and> owner_at l = OwnerNone \<and> \<not> shutdownStart_once l \<and>
     \<not> stopRequested l \<and> shutdownErr l = None \<and> \<not> timedOut l)"
| "stage_ok stateStopping l = (serving (run_at l) \<and> owner_ok l \<and> owner_at l \<noteq> OwnerDone \<and> shutdownErr l = None)"
| "stage_ok stateStopped l =
     ((\<exists>err. run_at l = RunReturned (RunError err)) \<and> idle l \<or>
      serving (run_at l) \<and> owner_ok l \<and> owner_at l = OwnerDone \<and>
        shutdownErr l = (if timedOut l then Some ErrShutdownTimeout else None))"

definition life_inv :: "lifecycle \<Rightarrow> bool" where
  "life_inv l \<longleftrightarrow> channels_ok l \<and> stage_ok (lc_state l) l"

lemma owner_rank_0 [simp]: "owner_rank pc = 0 \<longleftrightarrow> pc = OwnerNone"
  by (cases pc) auto

text \<open>The stage of a server, from where its goroutines are.\<close>

lemma startup_not_serving: "in_startup pc \<Longrightarrow> \<not> serving pc"
  by (cases pc) auto

lemma stage_startup: "life_inv l \<Longrightarrow> in_startup (run_at l) \<Longrightarrow> lc_state l = stateStarting"
  by (cases "lc_state l") (auto simp: life_inv_def dest: startup_not_serving)

lemma stage_serving:
  "life_inv l \<Longrightarrow> run_at l = RunServing \<Longrightarrow> lc_state l = stateRunning \<or> owner_ok l"
  by (cases "lc_state l") (auto simp: life_inv_def)

lemma stage_stopping: "life_inv l \<Longrightarrow> run_at l = RunStopping cause \<Longrightarrow> owner_ok l"
  by (cases "lc_state l") (auto simp: life_inv_def)

lemma stage_owner: "life_inv l \<Longrightarrow> owner_at l \<noteq> OwnerNone \<Longrightarrow> owner_at l \<noteq> OwnerDone \<Longrightarrow> lc_state l = stateStopping"
  by (cases "lc_state l") (simp_all add: life_inv_def idle_def)

lemma stage_busy:
  "life_inv l \<Longrightarrow> setups l \<noteq> [] \<or> acceptingSetups l \<or> 0 < services l \<Longrightarrow> started (lc_state l) \<and> \<not> idle l"
  by (cases "lc_state l") (auto simp: life_inv_def idle_def)

lemma life_inv_new: "life_inv newLifecycle"
  by (simp add: life_inv_def channels_ok_def idle_def newLifecycle_def)

lemma life_inv_claim: "life_inv l \<Longrightarrow> life_inv (snd (claimRun opts l))"
  by (cases "lc_state l") (simp_all add: claimRun_def life_inv_def channels_ok_def idle_def)

lemma life_inv_shutdown: "life_inv l \<Longrightarrow> life_inv (snd (Shutdown_begin l))"
  by (cases "lc_state l") (simp_all add: Shutdown_begin_def startOwner_def life_inv_def channels_ok_def idle_def owner_ok_def)

lemma life_inv_startShutdown:
  "life_inv l \<Longrightarrow> run_at l = RunServing \<Longrightarrow> life_inv ((startShutdown l)\<lparr>run_at := RunStopping cause\<rparr>)"
  by (cases "lc_state l") (simp_all add: startShutdown_def startOwner_def life_inv_def channels_ok_def idle_def owner_ok_def)

lemma life_inv_counters:
  assumes "life_inv l" "\<not> idle l" "started (lc_state l)"
    "13 \<le> owner_rank (owner_at l) \<longrightarrow> timedOut l \<or> services l' = 0" "5 \<le> owner_rank (owner_at l) \<longrightarrow> timedOut l \<or> setups l' = []"
    "l' = l\<lparr>services := services l', setups := setups l', runtimeErr := runtimeErr l'\<rparr>"
  shows "life_inv l'"
proof -
  have "life_inv (l\<lparr>services := n, setups := us, runtimeErr := errs\<rparr>)"
    if "13 \<le> owner_rank (owner_at l) \<longrightarrow> timedOut l \<or> n = 0" "5 \<le> owner_rank (owner_at l) \<longrightarrow> timedOut l \<or> us = []" for n us errs
    using assms(1-3) that by (cases "lc_state l") (simp_all add: life_inv_def channels_ok_def owner_ok_def)
  from this [OF assms(4,5), of "runtimeErr l'"] show ?thesis using assms(6) by simp
qed

lemma life_inv_service:
  assumes "life_inv l" "service_exit err l = Some l'"
  shows "life_inv l'"
proof -
  have pos: "0 < services l" using assms(2) by (simp add: service_exit_def split: if_splits)
  from stage_busy [OF assms(1)] pos have "\<not> idle l" "started (lc_state l)" by simp_all
  moreover have "services l' = services l - 1" "setups l' = setups l"
    "l' = l\<lparr>services := services l', setups := setups l', runtimeErr := runtimeErr l'\<rparr>"
    using assms(2) by (auto simp: service_exit_def Let_def split: if_splits option.splits)
  moreover have "13 \<le> owner_rank (owner_at l) \<longrightarrow> timedOut l \<or> services l = 0" "5 \<le> owner_rank (owner_at l) \<longrightarrow> timedOut l \<or> setups l = []"
    using assms(1) calculation(1,2) by (cases "lc_state l"; simp add: life_inv_def owner_ok_def)+
  ultimately show ?thesis using pos by (intro life_inv_counters [OF assms(1)]) auto
qed

lemma starting_inv:
  "lc_state l = stateStarting \<Longrightarrow> life_inv l \<longleftrightarrow> in_startup (run_at l) \<and> idle l \<and> \<not> lc_panic l \<and> startupDone l = OpenChan \<and>
     serveGate l = OpenChan \<and> shutdownDone l = OpenChan \<and> \<not> startupClose_once l \<and> \<not> serveGate_once l \<and> \<not> shutdownClose_once l"
  by (auto simp: life_inv_def channels_ok_def)

lemma life_inv_commit:
  assumes "life_inv l" "run_at l = RunCommit" "\<not> stopRequested l"
  shows "life_inv (commit l)"
proof -
  have st: "lc_state l = stateStarting" using stage_startup [OF assms(1)] assms(2) by simp
  note inv = assms(1) [unfolded starting_inv [OF st] idle_def]
  have "channels_ok (commit l)"
    using inv by (simp add: commit_def launchServices_def closeStartup_def closeGate_def closeOnce_def channels_ok_def)
  moreover have "stage_ok stateRunning (commit l)" "lc_state (commit l) = stateRunning"
    using inv assms(3) by (simp_all add: commit_def launchServices_def closeStartup_def closeGate_def closeOnce_def)
  ultimately show ?thesis by (simp add: life_inv_def)
qed

lemma life_inv_rollback:
  assumes "life_inv l" "run_at l = RunRollback err"
  shows "life_inv ((rollbackStartup l)\<lparr>run_at := RunReturned (RunError err)\<rparr>)" (is "life_inv ?l")
proof -
  have st: "lc_state l = stateStarting" using stage_startup [OF assms(1)] assms(2) by simp
  note inv = assms(1) [unfolded starting_inv [OF st] idle_def]
  note defs = rollbackStartup_def closeServingResources_def closeStartup_def closeShutdown_def closeGate_def closeOnce_def
  have "channels_ok ?l" using inv by (simp add: defs channels_ok_def Let_def)
  moreover have "idle ?l" "run_at ?l = RunReturned (RunError err)" "lc_state ?l = stateStopped"
    using inv by (simp_all add: defs idle_def Let_def)
  ultimately show ?thesis by (simp add: life_inv_def)
qed

lemma life_inv_startup:
  assumes "life_inv l" "in_startup (run_at l)"
  shows "in_startup pc \<Longrightarrow> life_inv (l\<lparr>listeners := ts, addresses := as, run_at := pc\<rparr>)" "in_startup pc \<Longrightarrow> life_inv (l\<lparr>run_at := pc\<rparr>)"
    "life_inv (abort e l)"
proof -
  have st: "lc_state l = stateStarting" using stage_startup [OF assms] .
  note inv = assms(1) [unfolded starting_inv [OF st] idle_def]
  show "in_startup pc \<Longrightarrow> life_inv (l\<lparr>listeners := ts, addresses := as, run_at := pc\<rparr>)" "in_startup pc \<Longrightarrow> life_inv (l\<lparr>run_at := pc\<rparr>)"
    "life_inv (abort e l)"
    using st inv by (simp_all add: starting_inv idle_def abort_def)
qed

lemma life_inv_runtimeErr: "life_inv l \<Longrightarrow> life_inv (l\<lparr>runtimeErr := errs\<rparr>)"
  by (cases "lc_state l") (simp_all add: life_inv_def channels_ok_def idle_def owner_ok_def)

lemma life_inv_stopped:
  "life_inv l \<Longrightarrow> serving (run_at l) \<Longrightarrow> owner_ok l \<Longrightarrow> serving pc \<Longrightarrow> life_inv (l\<lparr>run_at := pc, runtimeErr := errs\<rparr>)"
  by (cases "lc_state l") (auto simp: life_inv_def channels_ok_def idle_def owner_ok_def)

lemma life_inv_run:
  assumes "life_inv l" "Run_step opts ev l = Some l'"
  shows "life_inv l'"
proof (cases ev)
  case (Prepared err)
  then show ?thesis using assms by (auto simp: life_inv_startup split: if_splits option.splits)
next
  case (Checked e)
  then show ?thesis using assms by (auto simp: life_inv_startup split: if_splits)
next
  case (Bound e f)
  then show ?thesis using assms
    by (auto simp: bindTransport_def life_inv_startup split: if_splits sum.splits run_pc.splits list.splits)
next
  case (LoadedKeys e)
  then show ?thesis using assms by (auto simp: life_inv_startup split: if_splits option.splits)
next
  case (Committed e)
  then show ?thesis using assms by (auto simp: life_inv_startup life_inv_commit split: if_splits)
next
  case SelectCtx
  then show ?thesis using assms by (auto simp: life_inv_startShutdown split: if_splits)
next
  case SelectErr
  then show ?thesis using assms by (auto simp: life_inv_runtimeErr life_inv_startShutdown split: if_splits list.splits)
next
  case SelectDone
  then have "run_at l = RunServing" "shutdownDone l = ClosedChan" "l' = l\<lparr>run_at := RunStopping None\<rparr>"
    using assms(2) by (simp_all split: if_splits)
  moreover from this have "lc_state l = stateStopped"
    using assms(1) by (cases "lc_state l") (simp_all add: life_inv_def channels_ok_def)
  ultimately show ?thesis
    using stage_serving [OF assms(1)] life_inv_stopped [OF assms(1), of "RunStopping None" "runtimeErr l"] by simp
next
  case Finished
  then obtain cause where "run_at l = RunStopping cause"
    "l' = l\<lparr>run_at := RunReturned (run_return cause l), runtimeErr := (if cause = None then tl (runtimeErr l) else runtimeErr l)\<rparr>"
    using assms(2) by (auto split: if_splits run_pc.splits)
  then show ?thesis using stage_stopping [OF assms(1)] life_inv_stopped [OF assms(1)] by simp
next
  case RolledBack
  then show ?thesis using assms by (auto simp: life_inv_rollback split: if_splits run_pc.splits)
qed

text \<open>Set-ups: while there is one, or one can begin, the owner has not got past its wait for them.\<close>

lemma life_inv_setups:
  assumes "life_inv l" "setups l \<noteq> [] \<or> acceptingSetups l"
  shows "life_inv (l\<lparr>setups := us\<rparr>)"
proof -
  have busy: "started (lc_state l)" "\<not> idle l" using stage_busy [OF assms(1)] assms(2) by blast+
  have owner: "owner_ok l \<longrightarrow> \<not> (5 \<le> owner_rank (owner_at l) \<and> \<not> timedOut l)"
    using assms(2) by (auto simp: owner_ok_def)
  show ?thesis
    using assms(1) busy owner by (cases "lc_state l") (auto simp: life_inv_def channels_ok_def owner_ok_def)
qed

lemma life_inv_begin: "life_inv l \<Longrightarrow> life_inv (snd (beginConnectionSetup pc l))"
  by (simp add: beginConnectionSetup_def life_inv_setups)

lemma life_inv_finish: "life_inv l \<Longrightarrow> i < length (setups l) \<Longrightarrow> life_inv (finishConnectionSetup i l)"
  unfolding finishConnectionSetup_def by (rule life_inv_setups) auto

text \<open>Steps of the owner.\<close>

lemma stopping_inv:
  "lc_state l = stateStopping \<Longrightarrow> life_inv l \<longleftrightarrow> channels_ok l \<and> serving (run_at l) \<and> owner_ok l \<and>
     owner_at l \<noteq> OwnerDone \<and> shutdownErr l = None"
  by (simp add: life_inv_def)

lemma life_inv_close_setups:
  assumes "life_inv l"
  shows "owner_at l = OwnerSetups \<Longrightarrow> life_inv (l\<lparr>acceptingSetups := False, owner_at := OwnerListeners\<rparr>)"
    and "owner_at l = OwnerListeners \<Longrightarrow> life_inv (l\<lparr>listeners_closed := True, owner_at := OwnerAwaitSetups\<rparr>)"
proof -
  have st: "lc_state l = stateStopping" if "owner_at l \<in> {OwnerSetups, OwnerListeners}"
    using stage_owner [OF assms] that by auto
  show "owner_at l = OwnerSetups \<Longrightarrow> life_inv (l\<lparr>acceptingSetups := False, owner_at := OwnerListeners\<rparr>)"
    "owner_at l = OwnerListeners \<Longrightarrow> life_inv (l\<lparr>listeners_closed := True, owner_at := OwnerAwaitSetups\<rparr>)"
    using assms st by (simp_all add: stopping_inv channels_ok_def owner_ok_def)
qed

lemma life_inv_owner_to:
  assumes "life_inv l" "owner_at l \<noteq> OwnerNone" "owner_at l \<noteq> OwnerDone" "pc \<noteq> OwnerNone" "pc \<noteq> OwnerDone"
    and "3 \<le> owner_rank pc \<Longrightarrow> 3 \<le> owner_rank (owner_at l)"
    and "5 \<le> owner_rank pc \<Longrightarrow> 5 \<le> owner_rank (owner_at l) \<or> setups l = []"
    and "13 \<le> owner_rank pc \<Longrightarrow> 13 \<le> owner_rank (owner_at l) \<or> services l = 0"
  shows "life_inv (l\<lparr>owner_at := pc\<rparr>)"
proof -
  have st: "lc_state l = stateStopping" by (rule stage_owner [OF assms(1-3)])
  note inv = assms(1) [unfolded stopping_inv [OF st]]
  have "owner_ok (l\<lparr>owner_at := pc\<rparr>)" using inv assms(4-) unfolding owner_ok_def by auto
  then show ?thesis using inv st assms(5) by (simp add: stopping_inv channels_ok_def)
qed

lemma life_inv_owner_late:
  assumes "life_inv l" "owner_at l \<noteq> OwnerNone" "owner_at l \<noteq> OwnerDone" "pc \<noteq> OwnerNone" "pc \<noteq> OwnerDone"
    and "3 \<le> owner_rank (owner_at l)"
  shows "life_inv (l\<lparr>owner_at := pc, timedOut := True\<rparr>)"
proof -
  have st: "lc_state l = stateStopping" by (rule stage_owner [OF assms(1-3)])
  note inv = assms(1) [unfolded stopping_inv [OF st]]
  have "owner_ok (l\<lparr>owner_at := pc, timedOut := True\<rparr>)" using inv assms(4-) unfolding owner_ok_def by auto
  then show ?thesis using inv st assms(5) by (simp add: stopping_inv channels_ok_def)
qed

lemma owner_publish_simps [simp]:
  "owner_at (owner_publish l) = OwnerDone" "timedOut (owner_publish l) = timedOut l"
  by (simp_all add: owner_publish_def closeShutdown_def closeOnce_def)

lemma life_inv_publish:
  assumes "life_inv l" "owner_at l = OwnerFinish"
  shows "life_inv (owner_publish l)"
proof -
  have st: "lc_state l = stateStopping" using stage_owner [OF assms(1)] assms(2) by simp
  from assms(1) [unfolded stopping_inv [OF st]] assms(2) st
  have "channels_ok (owner_publish l)" "stage_ok stateStopped (owner_publish l)" "lc_state (owner_publish l) = stateStopped"
    by (simp_all add: owner_publish_def closeShutdown_def closeOnce_def channels_ok_def owner_ok_def)
  then show ?thesis by (simp add: life_inv_def)
qed

lemma shutdownOwner_life:
  assumes "life_inv (lc s)" "shutdownOwner ev s = Some s'"
  shows "life_inv (lc s')"
proof (cases ev)
  case Go
  then show ?thesis
    using assms
    by (cases "owner_at (lc s)")
      (auto intro!: life_inv_owner_to life_inv_owner_late life_inv_publish life_inv_close_setups
        simp: stopConnectionSetups_def closeServingResources_def split: if_splits option.splits list.splits waiter.splits)
next
  case Late
  then show ?thesis
    using assms by (auto intro!: life_inv_owner_late split: owner_pc.splits option.splits)
next
  case (Deadlines d)
  then show ?thesis
    using assms by (auto intro!: life_inv_owner_to split: if_splits)
next
  case (Wait w)
  then show ?thesis
    using assms by (auto intro!: life_inv_owner_to split: if_splits owner_pc.splits)
qed

section \<open>The life cycle in the system\<close>

lemma setup_ops_life:
  assumes "life_inv (lc s)"
  shows "life_inv (lc (accept_tcp s))" "life_inv (lc (upgrade_begin s))"
    "upgrade_check i s = Some s' \<Longrightarrow> life_inv (lc s')" "setup_fail i s = Some s' \<Longrightarrow> life_inv (lc s')"
    "open_connection i transport now s = Some s' \<Longrightarrow> life_inv (lc s')" "setup_finish i s = Some s' \<Longrightarrow> life_inv (lc s')"
proof -
  note fin = life_inv_finish [OF assms]
  have upd: "life_inv ((lc s)\<lparr>setups := us\<rparr>)" if "i < length (setups (lc s))" for us
    using that by (intro life_inv_setups [OF assms]) auto
  show "life_inv (lc (accept_tcp s))" "life_inv (lc (upgrade_begin s))"
    using assms life_inv_begin by (simp_all add: accept_tcp_def upgrade_begin_def)
  show "upgrade_check i s = Some s' \<Longrightarrow> life_inv (lc s')"
    using fin [of i] upd by (auto simp: upgrade_check_def split: if_splits)
  show "setup_fail i s = Some s' \<Longrightarrow> life_inv (lc s')"
    using fin [of i] by (auto simp: setup_fail_def split: if_splits)
  show "open_connection i transport now s = Some s' \<Longrightarrow> life_inv (lc s')"
    using upd by (auto simp: open_connection_def split: if_splits prod.splits)
  show "setup_finish i s = Some s' \<Longrightarrow> life_inv (lc s')"
    using fin [of i] by (auto simp: setup_finish_def split: if_splits setup_pc.splits)
qed

lemma conn_steps_lc:
  "conn_work cid ev s = Some s' \<Longrightarrow> lc s' = lc s" "conn_finalize cid hook panicked s = Some s' \<Longrightarrow> lc s' = lc s"
  by (auto simp: conn_work_def conn_finalize_def split: if_splits phase.splits)

lemma ERun_lc:
  "sys_exec grow env (ERun ev) s = Some s' \<Longrightarrow> Run_step (options (srv s)) ev (lc s) = Some (lc s')"
  by (cases ev) (auto simp: Let_def split: prod.splits if_splits)

lemma sys_exec_life:
  assumes "sys_exec grow env ev s = Some s'" "life_inv (lc s)"
  shows "life_inv (lc s')"
proof (cases ev)
  case (ERun rev)
  then show ?thesis using assms ERun_lc life_inv_run by metis
next
  case (EOwner oev)
  then show ?thesis using assms shutdownOwner_life by simp
next
  case EClaim
  then show ?thesis using assms life_inv_claim by auto
next
  case EShutdown
  then show ?thesis using assms life_inv_shutdown by auto
next
  case (EService err)
  then show ?thesis using assms life_inv_service by auto
next
  case (EConn cid cev)
  then show ?thesis using assms conn_steps_lc(1) by (metis sys_exec.simps(13))
next
  case (EFinalize cid hook panicked)
  then show ?thesis using assms conn_steps_lc(2) by (metis sys_exec.simps(14))
qed (use assms setup_ops_life [OF assms(2)] in \<open>auto split: if_splits\<close>)

text \<open>Steps of the others leave the owner alone, except that one starts it.\<close>

lemma Run_step_owner:
  "Run_step opts ev l = Some l' \<Longrightarrow> timedOut l' = timedOut l \<and>
     (owner_at l' = owner_at l \<or> \<not> shutdownStart_once l \<and> owner_at l' = OwnerPool)"
  by (cases ev) (auto simp: abort_def bindTransport_def commit_def launchServices_def closeStartup_def closeGate_def closeShutdown_def
      closeOnce_def rollbackStartup_def closeServingResources_def startShutdown_def startOwner_def Let_def
      split: if_splits option.splits sum.splits run_pc.splits list.splits)

lemma others_owner:
  assumes "sys_exec grow env ev s = Some s'" "\<nexists>oev. ev = EOwner oev"
  shows "timedOut (lc s') = timedOut (lc s) \<and>
    (owner_at (lc s') = owner_at (lc s) \<or> \<not> shutdownStart_once (lc s) \<and> owner_at (lc s') = OwnerPool)"
proof (cases ev)
  case (ERun rev)
  then show ?thesis using assms(1) ERun_lc Run_step_owner by metis
next
  case EClaim
  then show ?thesis using assms(1) by (auto simp: claimRun_def split: serverState.splits)
next
  case EShutdown
  then show ?thesis using assms(1) by (auto simp: Shutdown_begin_def startOwner_def split: serverState.splits if_splits)
next
  case (EConn cid cev)
  then show ?thesis using assms(1) conn_steps_lc(1) by (metis sys_exec.simps(13))
next
  case (EFinalize cid hook panicked)
  then show ?thesis using assms(1) conn_steps_lc(2) by (metis sys_exec.simps(14))
qed (use assms in \<open>auto simp: service_exit_def accept_tcp_def upgrade_begin_def beginConnectionSetup_def
    upgrade_check_def setup_fail_def open_connection_def setup_finish_def finishConnectionSetup_def Let_def
    split: if_splits option.splits prod.splits setup_pc.splits\<close>)

section \<open>What the steps do to the components\<close>

text \<open>To a connection.\<close>

lemma children_done_exec:
  assumes "children_done c" "conn_exec ev c = Some (r, c')"
  shows "children_done c'"
proof -
  have "heartbeat_done c' \<and> openHook_done c'"
  proof (cases ev)
    case (CWriter ev')
    then show ?thesis using assms by (cases ev') (auto simp: children_done_def split: if_splits list.splits)
  next
    case (CSupervise hook panicked)
    show ?thesis by (rule supervise_cases [OF CSupervise assms(2)]) (use assms(1) in \<open>simp add: children_done_def\<close>)
  next
    case (CSend k event body)
    then show ?thesis using assms by (auto simp: children_done_def Send_begin_def obind_iffs split: if_splits outcome.splits)
  qed (use assms in \<open>auto simp: children_done_def conn_op_defs Let_def split: if_splits option.splits bool.splits prod.splits\<close>)
  moreover have "reader_done c'"
    using assms conn_exec_reader_done by (cases "ev = CReaderExit") (auto simp: children_done_def split: if_splits)
  ultimately show ?thesis using assms writer_done_exec by (auto simp: children_done_def)
qed

lemma finalized_exec:
  assumes "conn_exec ev c = Some (r, c')" "finalized c"
  shows "finalized c'"
proof (cases ev)
  case (CWriter ev')
  then show ?thesis
    using assms by (cases ev') (auto simp: writeOutgoing_def closeAndReport_def tryRequestClose_def requestCloseMatching_def
        closeTransport_def reportConnectionError_def split: if_splits list.splits writer_pc.splits option.splits)
next
  case (CSupervise hook panicked)
  show ?thesis by (rule supervise_cases [OF CSupervise assms(1)]) simp
next
  case (CSend k event body)
  then show ?thesis using assms by (auto simp: Send_begin_def obind_iffs split: if_splits outcome.splits)
qed (use assms in \<open>auto simp: conn_op_defs Let_def split: if_splits option.splits bool.splits prod.splits\<close>)

text \<open>Closed by the shutdown.\<close>

definition stop_reason :: "netConnection \<Rightarrow> bool" where
  "stop_reason c \<longleftrightarrow> (\<exists>opn. closeReason c = Some (opn, ErrServerStopping))"

lemma not_stop_reason_new: "\<not> stop_reason (start_conn (newNetConnection transport bufsize now m))"
  by (simp add: stop_reason_def start_conn_def newNetConnection_def)

lemma stop_reason_exec:
  assumes "conn_exec ev c = Some (r, c')" "own_event ev \<or> (\<exists>h p. ev = CSupervise h p)" "stop_reason c'"
  shows "stop_reason c"
proof (cases ev)
  case (CWriter ev')
  then show ?thesis
    using assms by (cases ev') (auto simp: stop_reason_def writeOutgoing_def closeAndReport_def tryRequestClose_def
        requestCloseMatching_def closeTransport_def reportConnectionError_def split: if_splits list.splits writer_pc.splits option.splits)
next
  case (CSupervise hook panicked)
  show ?thesis by (rule supervise_cases [OF CSupervise assms(1)]) (use assms(3) in \<open>simp add: stop_reason_def\<close>)
next
  case (CSend k event body)
  then show ?thesis using assms by (auto simp: stop_reason_def Send_begin_def obind_iffs split: if_splits outcome.splits)
qed (use assms in \<open>auto simp: stop_reason_def conn_op_defs Let_def split: if_splits option.splits bool.splits prod.splits\<close>)

text \<open>The methods of the manager, connection by connection.\<close>

lemma quiesceReads_twice: "snd (quiesceReads d (snd (quiesceReads d c))) = snd (quiesceReads d c)"
  by (simp add: quiesceReads_def Let_def)

lemma quiesce_each_apply:
  "snd (quiesce_each (\<lambda>cid cs. let (e, c) = quiesceReads (d cid) (cs cid) in (e, cs(cid := c))) cids cs) cid =
   (if cid \<in> set cids then snd (quiesceReads (d cid) (cs cid)) else cs cid)"
  by (induction cids arbitrary: cs) (auto simp: Let_def case_prod_beta quiesceReads_twice)

lemma requestClose_twice: "requestClose opn err (requestClose opn err c) = requestClose opn err c"
  by (simp add: requestClose_def tryRequestClose_def requestCloseMatching_def closeTransport_def)

lemma force_close_apply:
  "fold (\<lambda>cid cs. cs(cid := requestClose opn err (cs cid))) cids cs cid =
   (if cid \<in> set cids then requestClose opn err (cs cid) else cs cid)"
  by (induction cids arbitrary: cs) (auto simp: requestClose_twice)

lemma force_close_all_apply:
  "force_close_all s cid =
   (if cid \<in> set (snapshot (manager s)) then requestClose OperationRead ErrServerStopping (conns s cid) else conns s cid)"
  unfolding forceCloseAll_def by (rule force_close_apply)

lemma quiesce_all_apply:
  "quiesce_all d s cid = (if cid \<in> set (snapshot (manager s)) then snd (quiesceReads (d cid) (conns s cid)) else conns s cid)"
  unfolding quiesceAll_def by (rule quiesce_each_apply)

lemma conn_reachable_started: "conn_reachable (start_conn (newNetConnection transport bufsize now m))"
  unfolding conn_reachable_def by (rule exI [of _ transport], rule exI [of _ bufsize], rule exI [of _ now], rule exI [of _ m],
    rule exI [of _ "[CStart]"]) simp

text \<open>To the server's pool and manager.\<close>

lemma prepareRun_components:
  assumes "prepareRun grow sv = (r, sv')"
  shows "connectionManager sv' = connectionManager sv \<and> workerPool sv' = workerPool sv \<or>
    (\<exists>n nw qs. 0 < n \<and> connectionManager sv' = newConnectionManager n \<and>
       newWorkerPool nw qs = (Ok (workerPool sv') :: (go_error, _) outcome))"
proof (cases "checkConfiguration (options sv)")
  case None
  then have n: "0 < nat (sint (ConnectionGroupsCount (options sv)))"
    using options_ok_sizes by (auto simp: checkConfiguration_None)
  obtain p where p: "newWorkerPool (WorkerCount (options sv)) (WorkerQueueCapacity (options sv)) = (Ok p :: (go_error, ('a, 'b) workerPool) outcome)"
    using None make_components by (metis checkConfiguration_None)
  have "workerPool sv' = p \<and> connectionManager sv' = newConnectionManager (nat (sint (ConnectionGroupsCount (options sv))))"
    using assms None n p by (auto simp: prepareRun_def Let_def makeConnectionManager_def split: option.splits)
  then show ?thesis using n p by blast
qed (use assms in \<open>simp add: prepareRun_def\<close>)

lemma shutdownOwner_pool:
  "shutdownOwner ev s = Some s' \<Longrightarrow>
     pool s' = pool s \<or> (\<exists>pev r. pool_exec env pev (pool s) = Some (r, pool s') \<and> from_connection (phases s) pev)"
proof (cases ev)
  have calls: "\<exists>pev r. pool_exec env pev p = Some (r, stopAccepting p) \<and> from_connection (phases s) pev"
    "\<exists>pev r. pool_exec env pev p = Some (r, drain_begin p) \<and> from_connection (phases s) pev"
    "\<exists>pev r. pool_exec env pev p = Some (r, forceCancel p) \<and> from_connection (phases s) pev" for p :: "('a, 'b) workerPool"
    by (rule exI [of _ PStopAccepting], simp, rule exI [of _ PDrain], simp, rule exI [of _ PForceCancel], simp)
  case Go
  assume "shutdownOwner ev s = Some s'"
  with Go show ?thesis
    using calls by (cases "owner_at (lc s)") (auto simp: drain_wait_def split: if_splits list.splits waiter.splits option.splits)
next
  case Late
  assume "shutdownOwner ev s = Some s'"
  then show ?thesis using Late by (auto simp: drain_wait_def intro!: exI [of _ PForceCancel] split: owner_pc.splits option.splits)
qed (auto split: if_splits owner_pc.splits)

lemma sys_exec_pool:
  assumes "sys_exec grow env ev s = Some s'"
  obtains (same) "pool s' = pool s"
  | (pool) pev r where "pool_exec env pev (pool s) = Some (r, pool s')" "from_connection (phases s) pev"
  | (fresh) nw qs where "run_at (lc s) = RunPrepare" "newWorkerPool nw qs = (Ok (pool s') :: (go_error, _) outcome)"
proof (cases ev)
  case (ERun rev)
  show thesis
  proof (cases rev)
    case (Prepared err)
    then obtain r where "prepareRun grow (srv s) = (r, srv s')" "run_at (lc s) = RunPrepare"
      using assms ERun by (auto simp: Let_def split: prod.splits if_splits)
    then show thesis using prepareRun_components same fresh by metis
  next
    case (Committed e)
    then show thesis using assms ERun same pool [of PStart None] by (auto split: if_splits)
  qed (use assms ERun same in auto)
next
  case (EOwner oev)
  then show thesis using assms shutdownOwner_pool same pool by (metis sys_exec.simps(5))
next
  case (EPool pev)
  then show thesis using assms pool by (auto split: if_splits)
qed (use assms same in \<open>auto simp: accept_tcp_def upgrade_begin_def upgrade_check_def setup_fail_def open_connection_def setup_finish_def
    conn_work_def conn_finalize_def nextConnectionID_def Let_def split: if_splits setup_pc.splits phase.splits prod.splits\<close>)

lemma shutdownOwner_frame: "shutdownOwner ev s = Some s' \<Longrightarrow> manager s' = manager s \<and> phases s' = phases s"
  by (cases ev) (auto split: if_splits list.splits waiter.splits option.splits owner_pc.splits)

lemma conn_finalize_step:
  "conn_finalize cid hook panicked s = Some s' \<Longrightarrow> conn_step (manager s, phases s) (manager s', phases s')"
  by (cases "phases s cid") (auto simp: conn_finalize_def intro: conn_step.intros split: if_splits)

lemma sys_exec_registry:
  assumes "sys_exec grow env ev s = Some s'"
  obtains (same) "manager s' = manager s" "phases s' = phases s"
  | (conn) "conn_step (manager s, phases s) (manager s', phases s')" "\<And>c. phases s c = Absent \<Longrightarrow> phases s' c = Absent \<or> setups (lc s) \<noteq> []"
  | (fresh) n where "run_at (lc s) = RunPrepare" "0 < n" "manager s' = newConnectionManager n" "phases s' = phases s"
proof (cases ev)
  case (ERun rev)
  show thesis
  proof (cases rev)
    case (Prepared err)
    then obtain r where "prepareRun grow (srv s) = (r, srv s')" "run_at (lc s) = RunPrepare" "phases s' = phases s"
      using assms ERun by (auto simp: Let_def split: prod.splits if_splits)
    then show thesis using prepareRun_components same fresh by metis
  qed (use assms ERun same in \<open>auto split: if_splits\<close>)
next
  case (EOwner oev)
  then show thesis using assms shutdownOwner_frame same by (metis sys_exec.simps(5))
next
  case (EOpen i transport now)
  let ?c = "currentConnectionID (srv s) + 1"
  have "phases s ?c = Absent" "setups (lc s) \<noteq> []" "phases s' = (phases s)(?c := Open)" "manager s' = addConnection id ?c (manager s)"
    using assms EOpen by (auto simp: open_connection_def nextConnectionID_def Let_def split: if_splits)
  then show thesis using conn by (simp add: add)
next
  case (EFinalize cid hook panicked)
  have "phases s c = Absent \<Longrightarrow> phases s' c = Absent" for c
    using assms EFinalize by (auto simp: conn_finalize_def split: phase.splits if_splits)
  moreover have "conn_step (manager s, phases s) (manager s', phases s')"
    using assms EFinalize conn_finalize_step by simp
  ultimately show thesis using conn by blast
qed (use assms same in \<open>auto simp: accept_tcp_def upgrade_begin_def upgrade_check_def setup_fail_def setup_finish_def
    conn_work_def Let_def split: if_splits setup_pc.splits phase.splits prod.splits\<close>)

text \<open>To one connection: a step of it, or its creation.\<close>

lemma shutdownOwner_conn:
  assumes "shutdownOwner ev s = Some s'"
  shows "conns s' cid = conns s cid \<or> (\<exists>cev r. conn_exec cev (conns s cid) = Some (r, conns s' cid))"
proof -
  have quiesce: "\<exists>cev r. conn_exec cev c = Some (r, snd (quiesceReads d c))" for c d
    by (rule exI [of _ "CQuiesce d"]) (simp add: map_prod_def case_prod_beta)
  have close: "\<exists>cev r. conn_exec cev c = Some (r, requestClose opn err c)" for c opn err
    by (rule exI [of _ "CClose opn err False"]) (simp add: requestClose_def tryRequestClose_def map_prod_def case_prod_beta)
  have stop: "\<exists>cev r. conn_exec cev c = Some (r, stopSends c)" for c
    by (rule exI [of _ CStopSends]) simp
  show ?thesis
  proof (cases ev)
    case Go
    then show ?thesis
      using assms close [of "conns s cid" OperationRead ErrServerStopping] stop [of "conns s cid"]
      by (cases "owner_at (lc s)") (auto simp: force_close_all_apply split: if_splits list.splits waiter.splits option.splits)
  next
    case (Deadlines d)
    then have "conns s' cid = quiesce_all d s cid" using assms by (auto split: if_splits)
    then show ?thesis using quiesce [of "conns s cid" "d cid"] unfolding quiesce_all_apply by metis
  qed (use assms in \<open>auto split: if_splits owner_pc.splits option.splits\<close>)
qed

lemma sys_exec_conn:
  assumes "sys_exec grow env ev s = Some s'"
  obtains (same) "conns s' cid = conns s cid" | (work) cev r where "conn_exec cev (conns s cid) = Some (r, conns s' cid)"
  | (opened) transport bufsize now m where "phases s cid = Absent" "phases s' cid = Open" "setups (lc s) \<noteq> []"
      "conns s' cid = start_conn (newNetConnection transport bufsize now m)"
proof (cases ev)
  case (ERun rev)
  then show thesis using assms same by (cases rev) (auto simp: Let_def split: prod.splits if_splits)
next
  case (EOwner oev)
  then show thesis using assms shutdownOwner_conn same work by (metis sys_exec.simps(5))
next
  case (EOpen i transport now)
  then show thesis
    using assms same opened [of transport "ConnectionWriteBufferSize (options (srv s))" now "metrics (pool s)"]
    by (cases "cid = currentConnectionID (srv s) + 1"; cases "setups (lc s) = []")
      (auto simp: open_connection_def nextConnectionID_def Let_def split: if_splits)
next
  case (EConn cid' cev)
  then show thesis using assms same work by (cases "cid = cid'") (auto simp: conn_work_def split: if_splits)
next
  case (EFinalize cid' hook panicked)
  then show thesis
    using assms same work [of "CSupervise hook panicked" RNone]
    by (cases "cid = cid'") (auto simp: conn_finalize_def split: if_splits phase.splits)
qed (use assms same in \<open>auto simp: accept_tcp_def upgrade_begin_def upgrade_check_def setup_fail_def setup_finish_def
    Let_def split: if_splits setup_pc.splits prod.splits\<close>)

text \<open>A connection gets the reason \<open>ErrServerStopping\<close> from the owner only.\<close>

lemma shutdownOwner_stop_reason:
  assumes "shutdownOwner ev s = Some s'" "stop_reason (conns s' cid)" "\<not> stop_reason (conns s cid)"
  shows "(owner_at (lc s) = OwnerForceClose \<or> timedOut (lc s)) \<and> cid \<in> set (snapshot (manager s)) \<and>
    conns s' cid = requestClose OperationRead ErrServerStopping (conns s cid)"
proof (cases ev)
  case Go
  then show ?thesis
    using assms by (cases "owner_at (lc s)")
      (auto simp: force_close_all_apply stop_reason_def stopSends_def split: if_splits list.splits waiter.splits option.splits)
next
  case (Deadlines d)
  then have "conns s' cid = quiesce_all d s cid" using assms by (auto split: if_splits)
  then show ?thesis using assms(2,3) unfolding quiesce_all_apply
    by (auto simp: stop_reason_def quiesceReads_def Let_def split: if_splits)
qed (use assms in \<open>auto split: if_splits owner_pc.splits option.splits\<close>)

lemma sys_exec_stop_reason:
  assumes "sys_exec grow env ev s = Some s'" "stop_reason (conns s' cid)" "\<not> stop_reason (conns s cid)"
  shows "(owner_at (lc s) = OwnerForceClose \<or> timedOut (lc s)) \<and> cid \<in> set (snapshot (manager s)) \<and>
    conns s' cid = requestClose OperationRead ErrServerStopping (conns s cid)"
proof (cases ev)
  case (EOwner oev)
  then show ?thesis using assms shutdownOwner_stop_reason by simp
next
  case (EConn cid' cev)
  then have "cid = cid' \<Longrightarrow> \<exists>r. conn_exec cev (conns s cid) = Some (r, conns s' cid) \<and> own_event cev"
    "cid \<noteq> cid' \<Longrightarrow> conns s' cid = conns s cid"
    using assms(1) by (auto simp: conn_work_def split: if_splits)
  then show ?thesis using assms(2,3) stop_reason_exec by metis
next
  case (EFinalize cid' hook panicked)
  then have "conns s' cid = conns s cid \<or> (\<exists>r. conn_exec (CSupervise hook panicked) (conns s cid) = Some (r, conns s' cid))"
    using assms(1) by (auto simp: conn_finalize_def split: if_splits phase.splits)
  then show ?thesis using assms(2,3) stop_reason_exec by metis
next
  case (EOpen i transport now)
  then have "conns s' cid = conns s cid"
    using assms(1,2) by (auto simp: open_connection_def nextConnectionID_def stop_reason_def start_conn_def newNetConnection_def
        Let_def split: if_splits)
  then show ?thesis using assms(2,3) by simp
next
  case (ERun rev)
  then show ?thesis using assms by (cases rev) (auto simp: Let_def split: prod.splits if_splits)
qed (use assms in \<open>auto simp: accept_tcp_def upgrade_begin_def upgrade_check_def setup_fail_def setup_finish_def
    Let_def split: if_splits setup_pc.splits prod.splits\<close>)

text \<open>The finalization of a connection, phase by phase.\<close>

lemma sys_exec_phases_same:
  assumes "sys_exec grow env ev s = Some s'" "\<nexists>i t n. ev = EOpen i t n" "\<nexists>c h p. ev = EFinalize c h p"
  shows "phases s' = phases s"
proof (cases ev)
  case (ERun rev)
  then show ?thesis using assms by (cases rev) (auto simp: Let_def split: prod.splits if_splits)
next
  case (EOwner oev)
  then show ?thesis using assms shutdownOwner_frame [of oev s s'] by simp
qed (use assms in \<open>auto simp: accept_tcp_def upgrade_begin_def upgrade_check_def setup_fail_def setup_finish_def conn_work_def
    Let_def split: if_splits setup_pc.splits prod.splits\<close>)

lemma sys_exec_phase:
  assumes "sys_exec grow env ev s = Some s'"
  obtains (same) "phases s' c = phases s c" | (opened) "phases s c = Absent" "phases s' c = Open" "conn_reachable (conns s' c)" "\<not> stop_reason (conns s' c)"
      "setups (lc s) \<noteq> []" "owner_at (lc s') = owner_at (lc s)"
  | (enter) "conns s' c = conns s c" "phases s c = Open" "phases s' c = Entered" "children_done (conns s c)"
  | (leave) "conns s' c = conns s c" "phases s c = Entered" "phases s' c = Removed"
  | (close) "phases s c = Removed" "phases s' c = Done" "finalized (conns s' c)"
  | (mark) "conns s' c = conns s c" "phases s c = Done" "phases s' c = Finalized"
proof (cases "(\<exists>i t n. ev = EOpen i t n) \<or> (\<exists>c h p. ev = EFinalize c h p)")
  case True
  then show thesis
  proof (elim disjE exE)
    fix i t n assume "ev = EOpen i t n"
    then show thesis
      using assms same opened by (cases "c = currentConnectionID (srv s) + 1"; cases "setups (lc s) = []")
        (auto simp: conn_reachable_started not_stop_reason_new open_connection_def nextConnectionID_def Let_def split: if_splits)
  next
    fix cid h p assume ev: "ev = EFinalize cid h p"
    have "supervise h p c' = Some c'' \<Longrightarrow> finalized c''" for c' c''
      by (auto simp: supervise_def Let_def split: if_splits)
    then show thesis
      using assms ev same enter leave close mark
      by (cases "c = cid") (auto simp: conn_finalize_def split: phase.splits if_splits)
  qed
next
  case False
  then show thesis using sys_exec_phases_same [OF assms] same by simp
qed

text \<open>The states come one after the other.\<close>

fun server_rank :: "serverState \<Rightarrow> nat" where
  "server_rank stateNew = 0"
| "server_rank stateStarting = 1"
| "server_rank stateRunning = 2"
| "server_rank stateStopping = 3"
| "server_rank stateStopped = 4"

lemma started_rank: "started st \<longleftrightarrow> 2 \<le> server_rank st"
  by (cases st) auto

lemma server_rank_max [simp]: "server_rank st \<le> 4"
  by (cases st) auto

lemma Run_step_rank:
  assumes "Run_step opts ev l = Some l'" "life_inv l"
  shows "server_rank (lc_state l) \<le> server_rank (lc_state l')"
proof (cases ev)
  case (Committed e)
  then show ?thesis
    using assms stage_startup [OF assms(2)] by (auto simp: abort_def commit_def launchServices_def closeStartup_def closeGate_def
        closeOnce_def split: if_splits)
qed (use assms(1) in \<open>auto simp: abort_def bindTransport_def closeStartup_def closeGate_def closeShutdown_def
      closeOnce_def rollbackStartup_def closeServingResources_def startShutdown_def startOwner_def Let_def
      split: if_splits option.splits sum.splits run_pc.splits list.splits\<close>)

lemma shutdownOwner_rank:
  "shutdownOwner ev s = Some s' \<Longrightarrow> server_rank (lc_state (lc s)) \<le> server_rank (lc_state (lc s')) \<and>
     (timedOut (lc s) \<longrightarrow> timedOut (lc s'))"
  by (cases ev) (auto simp: stopConnectionSetups_def closeServingResources_def owner_publish_def closeShutdown_def closeOnce_def
      split: if_splits option.splits list.splits waiter.splits owner_pc.splits)

lemma sys_exec_rank:
  assumes "sys_exec grow env ev s = Some s'" "life_inv (lc s)"
  shows "server_rank (lc_state (lc s)) \<le> server_rank (lc_state (lc s'))"
proof (cases ev)
  case (ERun rev)
  then show ?thesis using assms ERun_lc Run_step_rank by metis
next
  case (EOwner oev)
  then show ?thesis using assms shutdownOwner_rank [of oev s s'] by simp
next
  case EClaim
  then show ?thesis using assms by (auto simp: claimRun_def split: serverState.splits)
next
  case EShutdown
  then show ?thesis using assms by (auto simp: Shutdown_begin_def startOwner_def split: serverState.splits if_splits)
next
  case (EConn cid cev)
  then show ?thesis using assms conn_steps_lc(1) by (metis order.refl sys_exec.simps(13))
next
  case (EFinalize cid hook panicked)
  then show ?thesis using assms conn_steps_lc(2) by (metis order.refl sys_exec.simps(14))
qed (use assms in \<open>auto simp: service_exit_def accept_tcp_def upgrade_begin_def beginConnectionSetup_def
    upgrade_check_def setup_fail_def open_connection_def setup_finish_def finishConnectionSetup_def Let_def
    split: if_splits option.splits prod.splits setup_pc.splits\<close>)

lemma sys_exec_timedOut:
  "sys_exec grow env ev s = Some s' \<Longrightarrow> timedOut (lc s) \<Longrightarrow> timedOut (lc s')"
  using others_owner [of grow env ev s s'] shutdownOwner_rank [of _ s s'] by (cases "\<exists>oev. ev = EOwner oev") auto

section \<open>The invariant of the system\<close>

text \<open>The manager agrees with the phases, and before the server runs there is no connection.\<close>

definition registry_ok :: "('v, 'w) system \<Rightarrow> bool" where
  "registry_ok s \<longleftrightarrow> books (manager s) (phases s) \<and> (\<not> started (lc_state (lc s)) \<longrightarrow> phases s = (\<lambda>_. Absent))"

text \<open>The pool is one that has run from its start, and after its drain in time it is done.\<close>

definition pool_ok :: "'w handler_env \<Rightarrow> ('v, 'w) system \<Rightarrow> bool" where
  "pool_ok env s \<longleftrightarrow> (\<exists>nw qs. pool_reachable env nw qs (pool s)) \<and>
     (8 \<le> owner_rank (owner_at (lc s)) \<longrightarrow> timedOut (lc s) \<or> pool_done (pool s))"

text \<open>Each connection has run from its creation, and its phase says how far it has come.\<close>

definition conn_ok :: "phase \<Rightarrow> netConnection \<Rightarrow> bool" where
  "conn_ok ph c \<longleftrightarrow> ph = Absent \<or> conn_reachable c \<and> (ph \<noteq> Open \<longrightarrow> children_done c) \<and> (ph \<in> {Done, Finalized} \<longrightarrow> finalized c)"

definition conns_ok :: "('v, 'w) system \<Rightarrow> bool" where
  "conns_ok s \<longleftrightarrow> (\<forall>c. conn_ok (phases s c) (conns s c))"

lemma sys_exec_started: "sys_exec grow env ev s = Some s' \<Longrightarrow> life_inv (lc s) \<Longrightarrow> started (lc_state (lc s)) \<Longrightarrow> started (lc_state (lc s'))"
  using sys_exec_rank [of grow env ev s s'] by (auto simp: started_rank)

lemma registry_ok_exec:
  assumes "sys_exec grow env ev s = Some s'" "life_inv (lc s)" "registry_ok s"
  shows "registry_ok s'"
  using assms(1)
proof (cases rule: sys_exec_registry)
  case same
  then show ?thesis using assms(3) sys_exec_started [OF assms(1,2)] by (auto simp: registry_ok_def)
next
  case conn
  have new: "phases s c = Absent" "setups (lc s) = []" if "\<not> started (lc_state (lc s'))" for c
    using that assms(3) sys_exec_started [OF assms(1,2)] stage_busy [OF assms(2)] by (auto simp: registry_ok_def)
  then have "phases s' = (\<lambda>_. Absent)" if "\<not> started (lc_state (lc s'))" using that conn(2) by blast
  then show ?thesis using assms(3) books_step [OF conn(1)] by (simp add: registry_ok_def)
next
  case (fresh n)
  have "\<not> started (lc_state (lc s))" using stage_startup [OF assms(2)] fresh(1) by simp
  then have "phases s' = (\<lambda>_. Absent)" using assms(3) fresh(4) by (simp add: registry_ok_def)
  then show ?thesis using fresh(2,3) books_new by (simp add: registry_ok_def)
qed

lemma conns_ok_exec:
  assumes "sys_exec grow env ev s = Some s'" "conns_ok s"
  shows "conns_ok s'"
  unfolding conns_ok_def
proof
  fix c
  have ok: "conn_ok (phases s c) (conns s c)" using assms(2) by (simp add: conns_ok_def)
  have "conn_ok (phases s c) (conns s' c)"
    using assms(1)
  proof (cases rule: sys_exec_conn [of grow env ev s s' c])
    case (work cev r)
    then show ?thesis
      using ok conn_reachable_step [OF _ work] children_done_exec [OF _ work] finalized_exec [OF work] by (auto simp: conn_ok_def)
  qed (use ok in \<open>simp_all add: conn_ok_def\<close>)
  with assms(1) show "conn_ok (phases s' c) (conns s' c)"
    by (cases rule: sys_exec_phase [of grow env ev s s' c]) (use ok in \<open>auto simp: conn_ok_def\<close>)
qed

lemma pool_done_exec: "pool_exec env ev p = Some (r, p') \<Longrightarrow> pool_done p \<Longrightarrow> pool_done p'"
  by (cases ev) (auto simp: pool_start_def stopAccepting_def forceCancel_def drain_begin_def submit_def worker_receive_def worker_run_def
      worker_exit_def drain_finish_def set_worker_def set_context_def register_def unregister_def Let_def
      split: if_splits option.splits workerPoolState.splits prod.splits list.splits result.splits)

lemma owner_drained:
  "shutdownOwner ev s = Some s' \<Longrightarrow> 8 \<le> owner_rank (owner_at (lc s')) \<Longrightarrow>
     8 \<le> owner_rank (owner_at (lc s)) \<or> timedOut (lc s') \<or> pool_done (pool s')"
  by (cases ev) (auto simp: drain_wait_def stopConnectionSetups_def closeServingResources_def
      split: if_splits option.splits list.splits waiter.splits owner_pc.splits)

lemma others_owner_rank:
  assumes "sys_exec grow env ev s = Some s'" "\<nexists>oev. ev = EOwner oev" "1 < owner_rank (owner_at (lc s'))"
  shows "owner_at (lc s') = owner_at (lc s)" "timedOut (lc s') = timedOut (lc s)"
  using others_owner [OF assms(1,2)] assms(3) by auto

lemma pool_ok_exec:
  assumes "sys_exec grow env ev s = Some s'" "life_inv (lc s)" "pool_ok env s" "\<not> crashed (pool s)"
  shows "pool_ok env s'"
proof -
  have drained: "timedOut (lc s') \<or> pool_done (pool s')"
    if "8 \<le> owner_rank (owner_at (lc s'))" "pool_done (pool s) \<longrightarrow> pool_done (pool s')"
  proof (cases "\<exists>oev. ev = EOwner oev")
    case True
    then show ?thesis
      using assms(1,3) that owner_drained [of _ s s'] shutdownOwner_rank [of _ s s'] by (auto simp: pool_ok_def)
  next
    case False
    then show ?thesis using others_owner_rank [OF assms(1) False] that assms(3) by (auto simp: pool_ok_def)
  qed
  show ?thesis
    using assms(1)
  proof (cases rule: sys_exec_pool)
    case (fresh nw qs)
    then have none: "owner_at (lc s) = OwnerNone"
      using stage_startup [OF assms(2)] assms(2) by (auto simp: life_inv_def idle_def)
    then have "\<nexists>oev. ev = EOwner oev" using assms(1) by (auto elim!: shutdownOwner.elims split: if_splits)
    then have "\<not> 1 < owner_rank (owner_at (lc s'))" using others_owner_rank [OF assms(1)] none by auto
    then show ?thesis using pool_reachable.start [OF fresh(2)] by (auto simp: pool_ok_def)
  next
    case (pool pev r)
    then have "\<exists>nw qs. pool_reachable env nw qs (pool s')" using assms(3,4) pool_reachable.event by (meson pool_ok_def)
    then show ?thesis using drained pool_done_exec [OF pool(1)] by (simp add: pool_ok_def)
  next
    case same
    then show ?thesis using assms(3) drained by (simp add: pool_ok_def)
  qed
qed

text \<open>
  While the owner drains the connections of its snapshot, those it has been through have no
  writer any more; a connection that the shutdown closes has written everything it queued.
\<close>

fun undrained :: "owner_pc \<Rightarrow> uint64 set option" where
  "undrained (OwnerConns cids) = Some (set cids)"
| "undrained (OwnerAwaitConn cid cids) = Some (insert cid (set cids))"
| "undrained OwnerForceClose = Some {}"
| "undrained _ = None"

definition drain_ok :: "('v, 'w) system \<Rightarrow> bool" where
  "drain_ok s \<longleftrightarrow> timedOut (lc s) \<or>
     (\<forall>U c. undrained (owner_at (lc s)) = Some U \<and> phases s c \<in> {Open, Entered} \<and> c \<notin> U \<longrightarrow> writer (conns s c) = WriterDone) \<and>
     (\<forall>c. phases s c \<noteq> Absent \<and> stop_reason (conns s c) \<longrightarrow> quiet (conns s c))"

lemma no_late_setups: "life_inv l \<Longrightarrow> 5 \<le> owner_rank (owner_at l) \<Longrightarrow> \<not> timedOut l \<Longrightarrow> setups l = []"
  by (cases "lc_state l") (auto simp: life_inv_def owner_ok_def idle_def)

lemma undrained_rank: "undrained pc = Some U \<Longrightarrow> 5 \<le> owner_rank pc"
  by (cases pc) auto

lemma registered_snapshot: "registry_ok s \<Longrightarrow> c \<in> set (snapshot (manager s)) \<longleftrightarrow> phases s c \<in> {Open, Entered}"
proof -
  assume "registry_ok s"
  then have b: "books (manager s) (phases s)" by (simp add: registry_ok_def)
  then have "set (snapshot (manager s)) = ran (active (abs_manager (manager s)))" by (auto simp: books_def dest: snapshot_ran)
  then show ?thesis using b by (auto simp: books_def ran_def)
qed

text \<open>One step, for a connection that has been drained.\<close>

lemma owner_undrained:
  assumes "shutdownOwner ev s = Some s'" "undrained (owner_at (lc s')) = Some U" "c \<notin> U" "\<not> timedOut (lc s')"
  shows "(\<exists>V. undrained (owner_at (lc s)) = Some V \<and> c \<notin> V) \<or> c \<notin> set (snapshot (manager s)) \<or> writer (conns s c) = WriterDone"
proof (cases ev)
  case Go
  then show ?thesis
    using assms by (cases "owner_at (lc s)") (auto simp: drain_result_def stopConnectionSetups_def closeServingResources_def
      split: if_splits option.splits list.splits waiter.splits)
qed (use assms in \<open>auto split: if_splits option.splits owner_pc.splits\<close>)

lemma writer_done_sys:
  assumes "sys_exec grow env ev s = Some s'" "writer (conns s c) = WriterDone" "phases s c \<noteq> Absent"
  shows "writer (conns s' c) = WriterDone"
  using assms(1)
proof (cases rule: sys_exec_conn [of grow env ev s s' c])
  case (work cev r)
  then show ?thesis using assms(2) writer_done_exec by blast
qed (use assms in auto)

lemma requestClose_quiet:
  assumes "conn_inv c" "writer c = WriterDone" "\<not> stop_reason c" "stop_reason (requestClose opn err c)"
  shows "quiet (requestClose opn err c)"
proof -
  have "\<not> 2 \<le> state_rank (conn_state c)"
  proof
    assume "2 \<le> state_rank (conn_state c)"
    then have "requestClose opn err c = c" by (auto simp: closed_iff requestClose_def tryRequestClose_def requestCloseMatching_def)
    then show False using assms(3,4) by simp
  qed
  then have "\<not> forceCtx_done c" using assms(1) unfolding conn_inv_def flags_ok_def by blast
  then have "quiet c" using writer_done_quiet [OF assms(1,2)] by simp
  moreover have "conn_exec (CClose opn err False) c = Some (RClose (fst (tryRequestClose opn err c)), requestClose opn err c)"
    by (simp add: requestClose_def tryRequestClose_def map_prod_def case_prod_beta)
  ultimately show ?thesis using quiet_exec by blast
qed

lemma drain_ok_exec:
  assumes ex: "sys_exec grow env ev s = Some s'" and inv: "life_inv (lc s)" "registry_ok s" "conns_ok s" "drain_ok s"
  shows "drain_ok s'"
proof (cases "timedOut (lc s')")
  case False
  then have in_time: "\<not> timedOut (lc s)" using sys_exec_timedOut [OF ex] by blast
  have drained: "writer (conns s c) = WriterDone"
    if "undrained (owner_at (lc s)) = Some U" "phases s c \<in> {Open, Entered}" "c \<notin> U" for U c
    using inv(4) in_time that by (auto simp: drain_ok_def)
  have "writer (conns s' c) = WriterDone"
    if U: "undrained (owner_at (lc s')) = Some U" "phases s' c \<in> {Open, Entered}" "c \<notin> U" for U c
  proof -
    have old: "phases s c \<in> {Open, Entered}"
      using ex
    proof (cases rule: sys_exec_phase [of grow env ev s s' c])
      case opened
      then show ?thesis using no_late_setups [OF inv(1)] undrained_rank [OF U(1)] in_time by auto
    qed (use U(2) in auto)
    have "writer (conns s c) = WriterDone"
    proof (cases "\<exists>oev. ev = EOwner oev")
      case True
      then obtain oev where "shutdownOwner oev s = Some s'" using ex by auto
      from owner_undrained [OF this U(1,3) False] show ?thesis
        using drained old registered_snapshot [OF inv(2), of c] by blast
    next
      case False
      then have "owner_at (lc s') = owner_at (lc s)" using others_owner_rank(1) [OF ex] undrained_rank [OF U(1)] by simp
      then show ?thesis using drained old U(1,3) by simp
    qed
    then show ?thesis using writer_done_sys [OF ex] old by auto
  qed
  moreover have "quiet (conns s' c)" if c: "phases s' c \<noteq> Absent" "stop_reason (conns s' c)" for c
  proof (cases "stop_reason (conns s c)")
    case True
    have old: "phases s c \<noteq> Absent" using ex by (cases rule: sys_exec_phase [of grow env ev s s' c]) (use c in auto)
    then have quiet: "quiet (conns s c)" using True inv(4) in_time by (simp add: drain_ok_def)
    from ex show ?thesis
      by (cases rule: sys_exec_conn [of grow env ev s s' c]) (use old quiet quiet_exec in auto)
  next
    case new: False
    have stop: "owner_at (lc s) = OwnerForceClose" "c \<in> set (snapshot (manager s))"
      "conns s' c = requestClose OperationRead ErrServerStopping (conns s c)"
      using sys_exec_stop_reason [OF ex c(2) new] in_time by auto
    have ph: "phases s c \<in> {Open, Entered}" using stop(2) registered_snapshot [OF inv(2)] by simp
    moreover have "conn_ok (phases s c) (conns s c)" using inv(3) by (simp add: conns_ok_def)
    ultimately have "conn_inv (conns s c)" by (intro conn_reachable_inv) (auto simp: conn_ok_def)
    moreover have "writer (conns s c) = WriterDone" using drained [of "{}" c] stop(1) ph by simp
    ultimately show ?thesis using requestClose_quiet new c(2) stop(3) by simp
  qed
  ultimately show ?thesis by (auto simp: drain_ok_def)
qed (simp add: drain_ok_def)

text \<open>What \<open>waitAll\<close> has learnt when the owner calls it, and what holds when it has returned in time.\<close>

definition wait_ok :: "('v, 'w) system \<Rightarrow> bool" where
  "wait_ok s \<longleftrightarrow> (\<forall>k seen. owner_at (lc s) = OwnerWaitAll (WGroups k seen) \<longrightarrow> k \<le> length (connectionGroups (manager s))) \<and>
     (timedOut (lc s) \<or>
      (\<forall>w c. owner_at (lc s) = OwnerWaitAll w \<and> phases s c \<noteq> Absent \<longrightarrow>
        knows (length (connectionGroups (manager s))) c (phases s c) w) \<and>
      (12 \<le> owner_rank (owner_at (lc s)) \<longrightarrow> (\<forall>c. phases s c \<in> {Absent, Finalized})))"

lemma waitAll_step_bound:
  "waitAll_step (m, ph) w (WGroups k seen) \<Longrightarrow> k \<le> length (connectionGroups m)"
  by (cases rule: waitAll_step.cases) auto

lemma owner_waits:
  assumes "shutdownOwner ev s = Some s'"
  obtains (wait) w w' where "ev = Wait w'" "owner_at (lc s) = OwnerWaitAll w" "owner_at (lc s') = OwnerWaitAll w'"
    "waitAll_step (manager s, phases s) w w'" "timedOut (lc s') = timedOut (lc s)"
  | (called) "owner_at (lc s') = OwnerWaitAll (WGroups 0 [])"
  | (returned) "owner_at (lc s) = OwnerWaitAll (WReturned None)" "owner_at (lc s') = OwnerAwaitServices" "timedOut (lc s') = timedOut (lc s)"
  | (other) "\<nexists>w. owner_at (lc s') = OwnerWaitAll w" "12 \<le> owner_rank (owner_at (lc s')) \<longrightarrow> 12 \<le> owner_rank (owner_at (lc s)) \<or> timedOut (lc s')"
proof (cases ev)
  case Go
  show thesis
  proof (cases "owner_at (lc s)")
    case (OwnerWaitAll w)
    then show thesis using Go assms returned other by (auto split: waiter.splits option.splits)
  qed (use Go assms called other in \<open>auto simp: stopConnectionSetups_def closeServingResources_def
      split: if_splits option.splits list.splits\<close>)
next
  case Late
  then show thesis using assms other by (auto split: owner_pc.splits option.splits)
next
  case (Deadlines d)
  then show thesis using assms other by (auto split: if_splits)
next
  case (Wait w')
  then show thesis using assms wait by (auto split: owner_pc.splits if_splits)
qed

lemma owner_registry:
  assumes "sys_exec grow env ev s = Some s'" "life_inv (lc s)" "owner_at (lc s) \<noteq> OwnerNone"
  shows "manager s' = manager s \<and> phases s' = phases s \<or>
    conn_step (manager s, phases s) (manager s', phases s') \<and> (\<forall>c. phases s c = Absent \<longrightarrow> phases s' c = Absent \<or> setups (lc s) \<noteq> [])"
  using assms(1)
proof (cases rule: sys_exec_registry)
  case (fresh n)
  then show ?thesis using stage_startup [OF assms(2)] assms(2,3) by (auto simp: life_inv_def idle_def)
qed (use assms in blast)+

text \<open>A step of the others keeps what \<open>waitAll\<close> knows.\<close>

lemma others_wait:
  assumes "sys_exec grow env ev s = Some s'" "life_inv (lc s)" "wait_ok s" "\<nexists>oev. ev = EOwner oev"
    "11 \<le> owner_rank (owner_at (lc s'))"
  shows "wait_ok s'"
proof -
  have same: "owner_at (lc s') = owner_at (lc s)" "timedOut (lc s') = timedOut (lc s)" "owner_at (lc s) \<noteq> OwnerNone"
    using others_owner_rank [OF assms(1,4)] assms(5) by auto
  from owner_registry [OF assms(1,2) same(3)] show ?thesis
  proof (elim disjE conjE)
    assume step: "conn_step (manager s, phases s) (manager s', phases s')"
      "\<forall>c. phases s c = Absent \<longrightarrow> phases s' c = Absent \<or> setups (lc s) \<noteq> []"
    have none: "timedOut (lc s) \<or> setups (lc s) = []" using no_late_setups [OF assms(2)] same(1) assms(5) by auto
    have fin: "phases s c = Finalized \<Longrightarrow> phases s' c = Finalized" for c
      using step(1) by (cases rule: conn_step.cases) auto
    have len: "length (connectionGroups (manager s')) = length (connectionGroups (manager s))" by (rule groups_const [OF step(1)])
    have old: "phases s c \<noteq> Absent" if "\<not> timedOut (lc s)" "phases s' c \<noteq> Absent" for c using none step(2) that by blast
    have "knows (length (connectionGroups (manager s))) c (phases s' c) w"
      if "\<not> timedOut (lc s)" "owner_at (lc s) = OwnerWaitAll w" "phases s' c \<noteq> Absent" for c w
      using assms(3) that conn_step_forward(2) [OF step(1) old [OF that(1,3)]] old [OF that(1,3)] by (simp add: wait_ok_def)
    moreover have "phases s' c \<in> {Absent, Finalized}"
      if "\<not> timedOut (lc s)" "12 \<le> owner_rank (owner_at (lc s))" for c
    proof -
      have "phases s c \<in> {Absent, Finalized}" using assms(3) that by (simp add: wait_ok_def)
      then show ?thesis using old [OF that(1), of c] fin [of c] by (cases "phases s' c = Absent") auto
    qed
    ultimately show ?thesis using assms(3) by (cases "timedOut (lc s)") (simp_all add: wait_ok_def same len)
  qed (use assms(3) same in \<open>simp add: wait_ok_def\<close>)
qed

lemma wait_ok_exec:
  assumes "sys_exec grow env ev s = Some s'" "life_inv (lc s)" "registry_ok s" "wait_ok s"
  shows "wait_ok s'"
proof (cases "\<exists>oev. ev = EOwner oev")
  case True
  then obtain oev where own: "shutdownOwner oev s = Some s'" using assms(1) by auto
  have frame: "manager s' = manager s" "phases s' = phases s" using shutdownOwner_frame [OF own] by simp_all
  have b: "books (manager s) (phases s)" using assms(3) by (simp add: registry_ok_def)
  from own show ?thesis
  proof (cases rule: owner_waits)
    case (wait w w')
    then show ?thesis
      using assms(4) waitAll_step_bound [of "manager s" "phases s" w] waitAll_step_knows [OF wait(4) b] by (auto simp: wait_ok_def frame)
  next
    case returned
    then show ?thesis using assms(4) by (auto simp: wait_ok_def frame)
  next
    case other
    then show ?thesis using assms(4) shutdownOwner_rank [OF own] by (auto simp: wait_ok_def frame)
  qed (simp add: wait_ok_def)
next
  case False
  then show ?thesis
    using others_wait [OF assms(1,2,4)] by (cases "11 \<le> owner_rank (owner_at (lc s'))") (auto simp: wait_ok_def)
qed

definition sys_inv :: "'w handler_env \<Rightarrow> ('v, 'w) system \<Rightarrow> bool" where
  "sys_inv env s \<longleftrightarrow> life_inv (lc s) \<and> registry_ok s \<and> pool_ok env s \<and> conns_ok s \<and> drain_ok s \<and> wait_ok s"

lemma sys_inv_exec:
  "sys_exec grow env ev s = Some s' \<Longrightarrow> \<not> crashed (pool s) \<Longrightarrow> sys_inv env s \<Longrightarrow> sys_inv env s'"
  unfolding sys_inv_def
  using sys_exec_life registry_ok_exec pool_ok_exec conns_ok_exec drain_ok_exec wait_ok_exec by metis

lemma NewServer_components:
  assumes "NewServer gomaxprocs serverOptions = Ok sv"
  shows "\<exists>n nw qs. 0 < n \<and> connectionManager sv = newConnectionManager n \<and>
    newWorkerPool nw qs = (Ok (workerPool sv) :: (go_error, _) outcome)"
proof -
  let ?opts = "fold (\<lambda>option. option) serverOptions (defaultServerOptions gomaxprocs)"
  have none: "checkConfiguration ?opts = None" using assms by (auto simp: NewServer_def Let_def split: option.splits)
  then have n: "0 < nat (sint (ConnectionGroupsCount ?opts))" using options_ok_sizes by (auto simp: checkConfiguration_None)
  have "connectionManager sv = newConnectionManager (nat (sint (ConnectionGroupsCount ?opts)))"
    "newWorkerPool (WorkerCount ?opts) (WorkerQueueCapacity ?opts) = (Ok (workerPool sv) :: (go_error, _) outcome)"
    using assms none n by (auto simp: NewServer_def Let_def makeConnectionManager_def obind_iffs)
  then show ?thesis using n by blast
qed

lemma sys_inv_new:
  assumes "NewServer gomaxprocs serverOptions = Ok sv"
  shows "sys_inv env (newSystem sv)"
proof -
  obtain n nw qs where new: "0 < n" "connectionManager sv = newConnectionManager n"
    "newWorkerPool nw qs = (Ok (workerPool sv) :: (go_error, _) outcome)"
    using NewServer_components [OF assms] by blast
  have "registry_ok (newSystem sv)" using new(1,2) by (simp add: newSystem_def registry_ok_def books_new)
  moreover have "pool_ok env (newSystem sv)"
    using pool_reachable.start [OF new(3)] by (auto simp: newSystem_def pool_ok_def newLifecycle_def)
  moreover have "conns_ok (newSystem sv)" "drain_ok (newSystem sv)" "wait_ok (newSystem sv)" "lc (newSystem sv) = newLifecycle"
    by (simp_all add: newSystem_def conns_ok_def conn_ok_def drain_ok_def wait_ok_def newLifecycle_def)
  ultimately show ?thesis by (simp add: sys_inv_def life_inv_new)
qed

lemma sys_reachable_inv: "sys_reachable grow env s \<Longrightarrow> sys_inv env s"
  by (induction rule: sys_reachable.induct) (auto intro: sys_inv_new sys_inv_exec)

section \<open>Bounds on the owner's run\<close>

text \<open>
  How many steps the owner still makes at most once its deadline has passed; \<open>n\<close> is the number
  of groups of the manager.
\<close>

fun wait_left :: "nat \<Rightarrow> waiter \<Rightarrow> nat" where
  "wait_left n (WGroups k seen) = 5 + (n - k)"
| "wait_left n (WFinalizing seen) = 4"
| "wait_left n (WWait cs) = 3"
| "wait_left n WCheck = 2"
| "wait_left n (WBlocked g) = 1"
| "wait_left n (WReturned r) = 0"

fun owner_left :: "nat \<Rightarrow> owner_pc \<Rightarrow> nat" where
  "owner_left n (OwnerWaitAll w) = 4 + wait_left n w"
| "owner_left n (OwnerConns cids) = 12 + n"
| "owner_left n (OwnerAwaitConn cid cids) = 11 + n"
| "owner_left n pc = (if owner_rank pc \<le> 8 then 21 + n - owner_rank pc else if owner_rank pc = 10 then 10 + n else 15 - owner_rank pc)"

lemma waitAll_progress:
  assumes "\<And>k seen. w = WGroups k seen \<Longrightarrow> k \<le> length (connectionGroups m)" "\<nexists>r. w = WReturned r"
  shows "\<exists>w'. waitAll_step (m, ph) w w' \<and> wait_left (length (connectionGroups m)) w' < wait_left (length (connectionGroups m)) w"
proof (cases w)
  case (WGroups k seen)
  then show ?thesis
    using assms(1) waitAll_step.group [of k m ph seen] waitAll_step.groups_end [of k m ph seen] by (cases "k = length (connectionGroups m)") force+
next
  case (WFinalizing seen)
  then show ?thesis using waitAll_step.empty [of seen m ph] waitAll_step.collect [of seen m ph] by (cases "seen @ fst (finalizationState m) = []") force+
next
  case (WWait cs)
  then show ?thesis using waitAll_step.waited [of m ph] waitAll_step.wait_ctx [of m ph] by (cases cs) force+
next
  case WCheck
  then show ?thesis using waitAll_step.finished [of m ph] waitAll_step.block [of m ph] by (cases "fst (finalizationState m) = []") force+
next
  case (WBlocked g)
  then show ?thesis using waitAll_step.blocked_ctx [of m ph g] by force
qed (use assms(2) in simp)


lemma owner_progress:
  assumes "life_inv (lc s)" "wait_ok s" "lc_state (lc s) = stateStopping" "n = length (connectionGroups (manager s))"
  shows "\<exists>ev s'. shutdownOwner ev s = Some s' \<and> owner_left n (owner_at (lc s')) < owner_left n (owner_at (lc s))"
proof (cases "owner_at (lc s)")
  case OwnerNone
  then show ?thesis using assms(1,3) by (simp add: life_inv_def owner_ok_def)
next
  case OwnerDone
  then show ?thesis using assms(1,3) by (simp add: life_inv_def)
next
  case OwnerAwaitSetups
  then show ?thesis by (intro exI [of _ Late]) simp
next
  case OwnerAwaitDrain
  then show ?thesis by (intro exI [of _ Late]) (simp add: drain_wait_def)
next
  case (OwnerAwaitConn cid cids)
  then show ?thesis by (intro exI [of _ Late]) simp
next
  case OwnerAwaitServices
  then show ?thesis by (intro exI [of _ Late]) simp
next
  case OwnerQuiesce
  then show ?thesis by (intro exI [of _ "Deadlines (\<lambda>_. None)"]) simp
next
  case (OwnerWaitAll w)
  show ?thesis
  proof (cases "\<exists>r. w = WReturned r")
    case True
    then obtain r where "w = WReturned r" by blast
    then show ?thesis using OwnerWaitAll by (intro exI [of _ Go]) (cases r; simp)
  next
    case False
    then obtain w' where "waitAll_step (manager s, phases s) w w'" "wait_left n w' < wait_left n w"
      using waitAll_progress [of w "manager s" "phases s"] assms(2,4) OwnerWaitAll by (auto simp: wait_ok_def)
    then show ?thesis using OwnerWaitAll by (intro exI [of _ "Wait w'"]) simp
  qed
next
  case (OwnerConns cids)
  then show ?thesis by (intro exI [of _ Go]) (cases cids; simp)
qed (intro exI [of _ Go], simp add: stopConnectionSetups_def closeServingResources_def)+

end
