(* ===== verification/Shutdown.thy ===== *)
theory Shutdown
  imports Lifecycle
begin

text \<open>
  What the life cycle of the theory \<open>Lifecycle\<close> guarantees: how a shutdown ends, when it ends,
  and what a stopped server has left behind. Concrete runs of a small server come first.
\<close>

section \<open>Runs\<close>

fun sys_run ::
  "(nat \<Rightarrow> nat) \<Rightarrow> 'w handler_env \<Rightarrow> ('v, 'w) sys_event list \<Rightarrow> ('v, 'w) system \<Rightarrow> ('v, 'w) system option" where
  "sys_run grow env [] s = Some s"
| "sys_run grow env (ev # evs) s =
     (if crashed (pool s) then None
      else case sys_exec grow env ev s of None \<Rightarrow> None | Some s' \<Rightarrow> sys_run grow env evs s')"

lemma sys_run_induct:
  assumes "sys_run grow env evs s = Some s'" "P s"
    and "\<And>ev t t'. P t \<Longrightarrow> \<not> crashed (pool t) \<Longrightarrow> sys_exec grow env ev t = Some t' \<Longrightarrow> P t'"
  shows "P s'"
  using assms(1,2) by (induction evs arbitrary: s) (auto split: if_splits option.splits intro: assms(3))

lemma sys_run_reachable: "sys_reachable grow env s \<Longrightarrow> sys_run grow env evs s = Some s' \<Longrightarrow> sys_reachable grow env s'"
  by (erule sys_run_induct [where P = "sys_reachable grow env"]) (auto intro: sys_reachable.event)

lemma sys_run_append:
  "sys_run grow env (evs @ evs') s = (case sys_run grow env evs s of None \<Rightarrow> None | Some s' \<Rightarrow> sys_run grow env evs' s')"
  by (induction evs arbitrary: s) (auto split: option.split)

section \<open>A small server\<close>

text \<open>One worker, one group of connections, the WebSocket transport, and at most one connection.\<close>

definition demo_options :: "ServerOption list" where
  "demo_options = [WithTransports [TransportWebSocket], WithWorkerCount 1, WithWorkerQueueCapacity 1,
     WithConnectionGroupsCount 1, WithMaxConnectionsCount 1]"

definition demo_opts :: ServerOptions where
  "demo_opts = (defaultServerOptions 1)\<lparr>Transports := [TransportWebSocket], WorkerCount := 1, WorkerQueueCapacity := 1,
     ConnectionGroupsCount := 1, MaxConnectionsCount := 1\<rparr>"

definition demo_pool :: "(nat, nat) workerPool" where
  "demo_pool = \<lparr>contexts = [], workers = [newWorker], capacity = 1, accepting = False,
     pool_state = workerPoolStateNew, tasks = {}, drain_fired = False, draining = False, pool_done = False,
     metrics = zeroServerMetrics, crashed = False, accepted = [], received = []\<rparr>"

definition demo_server :: "(nat, nat) Server" where
  "demo_server = \<lparr>options = demo_opts, srv_routing = serverRouting, workerPool = demo_pool,
     connectionManager = newConnectionManager 1, srv_connectionOpen = None, srv_connectionClose = None,
     srv_connectionError = None, runtimeOpen = None, runtimeClose = None, runtimeError = None, currentConnectionID = 0\<rparr>"

lemma demo_opts_fold: "fold (\<lambda>option. option) demo_options (defaultServerOptions 1) = demo_opts"
  by (simp add: demo_options_def demo_opts_def WithTransports_def WithWorkerCount_def WithWorkerQueueCapacity_def
      WithConnectionGroupsCount_def WithMaxConnectionsCount_def)

lemma demo_opts_ok: "options_ok demo_opts" "8 \<le> MaxFrameLength demo_opts"
  using default_options_ok by (simp_all add: demo_opts_def options_ok_def defaultServerOptions_def)

lemma demo_pool_new: "newWorkerPool 1 1 = Ok demo_pool"
  by (simp add: newWorkerPool_def demo_pool_def)

lemma demo_new: "NewServer 1 demo_options = Ok demo_server"
  using demo_opts_ok
  by (simp add: NewServer_def demo_opts_fold checkConfiguration_None [THEN iffD2] makeConnectionManager_def demo_server_def)
    (simp add: demo_opts_def demo_pool_new makeConnectionManager_def)

text \<open>The server that \<open>Run\<close> has claimed.\<close>

definition demo_claimed :: "(nat, nat) system" where
  "demo_claimed = (newSystem demo_server)\<lparr>lc := snd (claimRun demo_opts newLifecycle)\<rparr>"

text \<open>The server prepared for its run, and the system when it runs.\<close>

definition demo_prepared :: "(nat, nat) Server" where
  "demo_prepared = demo_server\<lparr>srv_routing := freeze (\<lambda>n. n) serverRouting\<rparr>"

lemma demo_prepare: "prepareRun (\<lambda>n. n) demo_server = (Ok (), demo_prepared)"
proof -
  have "prepareWebSocketServer demo_opts = None"
    by (simp add: prepareWebSocketServer_def demo_opts_def defaultServerOptions_def HandleFunc_panics_def)
  moreover have "ConnectionGroupsCount demo_opts = 1" "WorkerCount demo_opts = 1" "WorkerQueueCapacity demo_opts = 1"
    by (simp_all add: demo_opts_def)
  ultimately show ?thesis
    using demo_opts_ok by (simp add: prepareRun_def demo_server_def demo_prepared_def checkConfiguration_None [THEN iffD2]
        demo_pool_new makeConnectionManager_def)
qed

definition demo_running :: "(nat, nat) system" where
  "demo_running = (newSystem (demo_prepared\<lparr>workerPool := pool_start demo_pool\<rparr>))\<lparr>lc := newLifecycle\<lparr>lc_state := stateRunning,
     startupDone := ClosedChan, shutdownDone := OpenChan, serveGate := ClosedChan, startupClose_once := True, serveGate_once := True,
     runtimeErr_cap := 1, listeners := [(TransportWebSocket, ''0.0.0.0:8900'')],
     addresses := [(TransportWebSocket, ''0.0.0.0:8900'')], acceptingSetups := True, services := 1, run_at := RunServing\<rparr>\<rparr>"

definition demo_start :: "(nat, nat) sys_event list" where
  "demo_start = [EClaim, ERun (Prepared None), ERun (Checked None), ERun (Bound None (Inr ''0.0.0.0:8900'')), ERun (Bound None (Inr [])),
     ERun (LoadedKeys None), ERun (Checked None), ERun (Committed None)]"

lemma demo_transports: "Transports demo_opts = [TransportWebSocket]" "CertFile demo_opts = []"
  by (simp_all add: demo_opts_def defaultServerOptions_def)

lemma demo_start_run: "sys_run (\<lambda>n. n) counting_env demo_start (newSystem demo_server) = Some demo_running"
  using demo_prepare
  by (simp add: demo_start_def demo_running_def newSystem_def claimRun_def newLifecycle_def demo_transports demo_prepared_def demo_server_def demo_pool_def
      startupCanceled_def bindTransport_def applyTLS_def commit_def launchServices_def closeStartup_def closeGate_def closeOnce_def Let_def)

lemma demo_running_reachable: "sys_reachable (\<lambda>n. n) counting_env demo_running"
  by (rule sys_run_reachable [OF sys_reachable.new [OF demo_new] demo_start_run])

text \<open>
  One connection is opened and a message is queued on it; then the server is shut down, and
  every part winds down in its turn.
\<close>

definition demo_conn :: netConnection where
  "demo_conn = (start_conn (newNetConnection TransportWebSocket 1024 0 zeroServerMetrics))
     \<lparr>openHook_done := True, outgoing := [[7, 0, 0, 0, 1, 0, 0, 0, 1]], queued := [[7, 0, 0, 0, 1, 0, 0, 0, 1]]\<rparr>"

definition demo_busy :: "(nat, nat) system" where
  "demo_busy = demo_running\<lparr>srv := (srv demo_running)\<lparr>currentConnectionID := 1, connectionManager := single [(1, 1)] [] 0\<rparr>,
     phases := (phases demo_running)(1 := Open), conns := (conns demo_running)(1 := demo_conn)\<rparr>"

definition demo_traffic :: "(nat, nat) sys_event list" where
  "demo_traffic = [EUpgrade, ECheckLimit 0, EOpen 0 TransportWebSocket 0, EConn 1 (COpenHook None), ESetupFinish 0,
     EConn 1 (CSend 0 7 [1]), EConn 1 (CEnqueue 0)]"

lemmas demo_defs = demo_prepared_def demo_server_def demo_pool_def newSystem_def newLifecycle_def

lemmas setup_defs = upgrade_begin_def beginConnectionSetup_def upgrade_check_def limitReached_def open_connection_def
  nextConnectionID_def setup_finish_def finishConnectionSetup_def conn_work_def

lemma demo_limits: "MaxConnectionsCount demo_opts = 1" "ConnectionWriteBufferSize demo_opts = 1024"
  by (simp_all add: demo_opts_def defaultServerOptions_def)

lemma demo_traffic_run: "sys_run (\<lambda>n. n) counting_env demo_traffic demo_running = Some demo_busy"
  by (simp add: demo_traffic_def demo_busy_def demo_running_def demo_defs setup_defs demo_limits demo_conn_def single_def
      newConnectionManager_def connectionsCount_def addConnection_def selectGroup_def newNetConnection_def start_conn_def openHook_return_def
      Send_begin_def encode_sample Send_enqueue_def map_delete_def pool_start_def newWorker_def Let_def)

definition demo_shutdown :: "(nat, nat) sys_event list" where
  "demo_shutdown = [EShutdown, EOwner Go, EOwner Go, EOwner Go, EOwner Go, EOwner (Deadlines (\<lambda>_. None)), EConn 1 CReaderExit,
     EConn 1 CHeartbeatExit, EOwner Go, EPool (PExit 0), EPool PDrainFinish, EOwner Go, EOwner Go, EOwner Go,
     EConn 1 CDrainGoroutine, EConn 1 (CWriter Check), EConn 1 (CWriter PickDrain), EConn 1 (CWriter DrainNext),
     EConn 1 (CWriter (Write None)), EConn 1 (CWriter DrainNext), EOwner Go, EOwner Go, EOwner Go,
     EFinalize 1 False None, EFinalize 1 False None, EFinalize 1 False None, EFinalize 1 False None,
     EOwner (Wait (WGroups 1 [])), EOwner (Wait (WFinalizing [])), EOwner (Wait (WReturned None)), EOwner Go,
     EService (Some HttpErrServerClosed), EOwner Go, EOwner Go, EOwner Go]"

definition demo_stopped :: "(nat, nat) system" where
  "demo_stopped = the (sys_run (\<lambda>n. n) counting_env demo_shutdown demo_busy)"

lemma demo_conn_fields [simp]:
  "openHook_done demo_conn" "conn_started demo_conn" "conn_state demo_conn = connectionOpen" "\<not> reader_done demo_conn"
  "\<not> heartbeat_done demo_conn" "\<not> quiesce_fired demo_conn" "\<not> sendStop_fired demo_conn" "\<not> forceCtx_done demo_conn"
  "inflight demo_conn = []" "\<not> drainWriter_closed demo_conn" "writer demo_conn = AtCheck" "written demo_conn = []"
  "outgoing demo_conn = [[7, 0, 0, 0, 1, 0, 0, 0, 1]]" "queued demo_conn = [[7, 0, 0, 0, 1, 0, 0, 0, 1]]" "\<not> finalized demo_conn"
  by (simp_all add: demo_conn_def newNetConnection_def start_conn_def)

lemma wait_steps:
  "waitAll_step (single [] [] g, ph) (WGroups 0 []) (WGroups (Suc 0) [])"
  "waitAll_step (single [] [] g, ph) (WGroups (Suc 0) []) (WFinalizing [])"
  "waitAll_step (single [] [] g, ph) (WFinalizing []) (WReturned None)"
  using waitAll_step.group [of 0 "single [] [] g" ph "[]"] waitAll_step.groups_end [of 1 "single [] [] g" ph "[]"]
    waitAll_step.empty [of "[]" "single [] [] g" ph]
  by (simp_all add: single_def finalizationState_def)

lemma single_ops:
  "snapshot (single [(1, 1)] [] g) = [1]" "remove_begin id 1 (single [(1, 1)] [] g) = single [(1, 1)] [(1, 1)] g"
  "remove_end id 1 (single [(1, 1)] [(1, 1)] g) = single [] [(1, 1)] g"
  "markFinalized id 1 (single [] [(1, 1)] g) = single [] [] (Suc g)"
  by (simp_all add: snapshot_def single_def remove_begin_def remove_end_def markFinalized_def selectGroup_def map_delete_def)

lemmas shutdown_defs = Shutdown_begin_def startOwner_def stopAccepting_def stopConnectionSetups_def closeServingResources_def
  drain_begin_def worker_exit_def drain_finish_def drain_wait_def stopSends_def drain_result_def service_exit_def serveWebSocket_def owner_publish_def
  closeShutdown_def closeOnce_def conn_finalize_def children_done_def supervise_def closeTransport_def

lemma demo_shutdown_run:
  "sys_run (\<lambda>n. n) counting_env demo_shutdown demo_busy = Some demo_stopped \<and> lc_state (lc demo_stopped) = stateStopped \<and>
   shutdownStart_once (lc demo_stopped) \<and> shutdownErr (lc demo_stopped) = None \<and> phases demo_stopped 1 = Finalized \<and>
   stop_reason (conns demo_stopped 1) \<and> queued (conns demo_stopped 1) = [[7, 0, 0, 0, 1, 0, 0, 0, 1]]"
  by (simp add: demo_stopped_def demo_shutdown_def demo_busy_def demo_running_def demo_defs shutdown_defs conn_work_def
      quiesceAll_def quiesceReads_def drain_goroutine_def writeOutgoing_def forceCloseAll_def requestClose_def tryRequestClose_def
      requestCloseMatching_def single_ops wait_steps heartbeat_exit_def pool_start_def set_worker_def newWorker_def stop_reason_def Let_def)

text \<open>Two upgrades that pass the check of the limit before either is counted.\<close>

definition demo_race :: "(nat, nat) sys_event list" where
  "demo_race = [EUpgrade, EUpgrade, ECheckLimit 0, ECheckLimit 1, EOpen 0 TransportWebSocket 0, EOpen 1 TransportWebSocket 0]"

text \<open>An upgrade that outlasts the shutdown.\<close>

definition demo_late :: "(nat, nat) sys_event list" where
  "demo_late = [EUpgrade, ECheckLimit 0, EShutdown, EOwner Go, EOwner Go, EOwner Go, EOwner Late, EOwner (Deadlines (\<lambda>_. None)),
     EOwner Go, EPool (PExit 0), EPool PDrainFinish, EOwner Go, EOwner Go, EOwner Go, EOwner Go,
     EOwner (Wait (WGroups 1 [])), EOwner (Wait (WFinalizing [])), EOwner (Wait (WReturned None)), EOwner Go,
     EService (Some HttpErrServerClosed), EOwner Go, EOwner Go, EOwner Go, EOpen 0 TransportWebSocket 0]"

lemma single_empty: "newConnectionManager 1 = single [] [] 0" "newConnectionManager (Suc 0) = single [] [] 0"
  "connectionsCount (single g f k) = length g" "snapshot (single [] f k) = []"
  "addConnection id c (single g f k) = single (map_put c c g) f k"
  by (simp_all add: newConnectionManager_def single_def connectionsCount_def snapshot_def addConnection_def selectGroup_def)

lemma demo_race_run:
  "\<exists>s. sys_run (\<lambda>n. n) counting_env demo_race demo_running = Some s \<and> connectionsCount (manager s) = 2 \<and>
     MaxConnectionsCount (options (srv s)) = 1"
  by (simp add: demo_race_def demo_running_def demo_defs setup_defs demo_limits single_empty pool_start_def newWorker_def Let_def)

lemma demo_late_run:
  "\<exists>s. sys_run (\<lambda>n. n) counting_env demo_late demo_running = Some s \<and> lc_state (lc s) = stateStopped \<and>
     shutdownErr (lc s) = Some ErrShutdownTimeout \<and> owner_at (lc s) = OwnerDone \<and> phases s 1 = Open \<and>
     conn_state (conns s 1) = connectionOpen \<and> acceptingSends (conns s 1) \<and> \<not> transport_closed (conns s 1)"
  by (simp add: demo_late_def demo_running_def demo_defs setup_defs demo_limits single_empty shutdown_defs wait_steps
      quiesceAll_def forceCloseAll_def forceCancel_def pool_start_def set_worker_def newWorker_def newNetConnection_def start_conn_def Let_def)

section \<open>Lemmas\<close>

lemma sys_inv_life: "sys_inv env s \<Longrightarrow> life_inv (lc s)"
  by (simp add: sys_inv_def)

lemma owner_stopped:
  "shutdownOwner ev s = Some s' \<Longrightarrow> owner_at (lc s) \<noteq> OwnerNone \<and> owner_at (lc s) \<noteq> OwnerDone"
  by (cases ev) (auto split: if_splits owner_pc.splits)

lemma Run_step_final:
  assumes "Run_step opts ev l = Some l'" "\<not> in_startup (run_at l)"
  shows "shutdownErr l' = shutdownErr l"
  using assms by (cases ev) (auto simp: startShutdown_def startOwner_def split: if_splits list.splits run_pc.splits)

lemma stopped_final:
  assumes "sys_exec grow env ev s = Some s'" "life_inv (lc s)" "lc_state (lc s) = stateStopped"
  shows "lc_state (lc s') = stateStopped \<and> shutdownErr (lc s') = shutdownErr (lc s)"
proof
  show "lc_state (lc s') = stateStopped"
    using sys_exec_rank [OF assms(1,2)] assms(3) by (cases "lc_state (lc s')") auto
  show "shutdownErr (lc s') = shutdownErr (lc s)"
  proof (cases ev)
    case (EOwner oev)
    then have "owner_at (lc s) \<noteq> OwnerNone \<and> owner_at (lc s) \<noteq> OwnerDone" using assms(1) owner_stopped by auto
    then show ?thesis using stage_owner [OF assms(2)] assms(3) by auto
  next
    case (ERun rev)
    have "\<not> in_startup (run_at (lc s))" using stage_startup [OF assms(2)] assms(3) by auto
    then show ?thesis using ERun_lc assms(1) ERun Run_step_final by metis
  next
    case EClaim
    then show ?thesis using assms by (auto simp: claimRun_def)
  next
    case EShutdown
    then show ?thesis using assms by (auto simp: Shutdown_begin_def)
  next
    case (EConn cid cev)
    then show ?thesis using assms(1) conn_steps_lc(1) by (metis sys_exec.simps(13))
  next
    case (EFinalize cid hook panicked)
    then show ?thesis using assms(1) conn_steps_lc(2) by (metis sys_exec.simps(14))
  qed (use assms in \<open>auto simp: service_exit_def accept_tcp_def upgrade_begin_def beginConnectionSetup_def
      upgrade_check_def setup_fail_def open_connection_def setup_finish_def finishConnectionSetup_def Let_def
      split: if_splits option.splits prod.splits setup_pc.splits\<close>)
qed

lemma Run_step_stopRequested: "Run_step opts ev l = Some l' \<Longrightarrow> stopRequested l' = stopRequested l"
  by (cases ev) (auto simp: abort_def bindTransport_def commit_def launchServices_def closeStartup_def closeGate_def closeShutdown_def
      closeOnce_def rollbackStartup_def closeServingResources_def startShutdown_def startOwner_def Let_def
      split: if_splits option.splits sum.splits run_pc.splits list.splits)

lemma stopRequested_kept:
  assumes "sys_exec grow env ev s = Some s'" "stopRequested (lc s)" "life_inv (lc s)"
  shows "stopRequested (lc s')"
proof (cases ev)
  case (ERun rev)
  then show ?thesis using assms ERun_lc Run_step_stopRequested by metis
next
  case (EOwner oev)
  then have "lc_state (lc s) = stateStopping" using assms(1) owner_stopped stage_owner [OF assms(3)] by auto
  then show ?thesis using assms(2,3) by (simp add: life_inv_def owner_ok_def)
next
  case EClaim
  then show ?thesis using assms by (auto simp: claimRun_def split: serverState.splits)
next
  case EShutdown
  then show ?thesis using assms by (auto simp: Shutdown_begin_def startOwner_def split: serverState.splits if_splits)
next
  case (EConn cid cev)
  then show ?thesis using assms conn_steps_lc(1) by (metis sys_exec.simps(13))
next
  case (EFinalize cid hook panicked)
  then show ?thesis using assms conn_steps_lc(2) by (metis sys_exec.simps(14))
qed (use assms in \<open>auto simp: service_exit_def accept_tcp_def upgrade_begin_def beginConnectionSetup_def
    upgrade_check_def setup_fail_def open_connection_def setup_finish_def finishConnectionSetup_def Let_def
    split: if_splits option.splits prod.splits setup_pc.splits\<close>)

text \<open>A stop requested during the start-up: the server has no service, and its end is silent.\<close>

lemma stop_requested_stage:
  "life_inv l \<Longrightarrow> stopRequested l \<Longrightarrow> lc_state l \<in> {stateStarting, stateStopped} \<and> idle l"
  by (cases "lc_state l") (auto simp: life_inv_def owner_ok_def)

fun owner_run :: "owner_event list \<Rightarrow> ('v, 'w) system \<Rightarrow> ('v, 'w) system option" where
  "owner_run [] s = Some s"
| "owner_run (ev # evs) s = (case shutdownOwner ev s of None \<Rightarrow> None | Some s' \<Rightarrow> owner_run evs s')"

lemma owner_states: "shutdownOwner ev s = Some s' \<Longrightarrow> lc_state (lc s) = stateStopping \<Longrightarrow> lc_state (lc s') \<in> {stateStopping, stateStopped}"
  using shutdownOwner_rank [of ev s s'] by (cases "lc_state (lc s')") auto

lemma owner_run_ops:
  "run_ops (\<lambda>ev s. map_option (Pair ()) (shutdownOwner ev s)) evs s = Some (rs, t) \<Longrightarrow> owner_run evs s = Some t"
  by (induction evs arbitrary: s rs) (auto split: option.splits)

text \<open>The owner of a shutdown, with the parts of the invariant that its progress rests on.\<close>

definition owned :: "('v, 'w) system \<Rightarrow> bool" where
  "owned s \<longleftrightarrow> life_inv (lc s) \<and> registry_ok s \<and> wait_ok s \<and> lc_state (lc s) \<in> {stateStopping, stateStopped}"

lemma owned_step:
  assumes "owned s" "shutdownOwner ev s = Some s'"
  shows "owned s'"
proof -
  have ex: "sys_exec grow env (EOwner ev) s = Some s'" for grow :: "nat \<Rightarrow> nat" and env :: "'b handler_env" using assms(2) by simp
  have inv: "life_inv (lc s)" "registry_ok s" "wait_ok s" "lc_state (lc s) \<in> {stateStopping, stateStopped}"
    using assms(1) by (simp_all add: owned_def)
  have "lc_state (lc s) = stateStopping" using owner_stopped [OF assms(2)] stage_owner [OF inv(1)] by blast
  then show ?thesis
    using sys_exec_life [OF ex inv(1)] registry_ok_exec [OF ex inv(1,2)] wait_ok_exec [OF ex inv(1-3)] owner_states [OF assms(2)]
    by (simp add: owned_def)
qed

interpretation ow: progressing "\<lambda>ev s. map_option (Pair ()) (shutdownOwner ev s)" "\<lambda>_. True" owned "\<lambda>s. lc_state (lc s) = stateStopped"
  "\<lambda>s. owner_left (length (connectionGroups (manager s))) (owner_at (lc s))"
proof unfold_locales
  fix s s' :: "('v, 'w) system" and ev r
  assume inv: "owned s"
  show "owned s'" if "map_option (Pair ()) (shutdownOwner ev s) = Some (r, s')" using that inv owned_step by auto
  assume "lc_state (lc s) \<noteq> stateStopped"
  then obtain ev s' where step: "shutdownOwner ev s = Some s'"
    "owner_left (length (connectionGroups (manager s))) (owner_at (lc s')) < owner_left (length (connectionGroups (manager s))) (owner_at (lc s))"
    using inv owner_progress [of s] by (auto simp: owned_def)
  then show "\<exists>ev r s'. True \<and> map_option (Pair ()) (shutdownOwner ev s) = Some (r, s') \<and>
      owner_left (length (connectionGroups (manager s'))) (owner_at (lc s')) <
      owner_left (length (connectionGroups (manager s))) (owner_at (lc s))"
    using shutdownOwner_frame [OF step(1)] by (intro exI [of _ ev] exI [of _ "()"] exI [of _ s']) simp
qed

lemma owner_left_bound: "owner_left n pc \<le> 21 + n"
proof (cases pc)
  case (OwnerWaitAll w)
  then show ?thesis by (cases w) auto
qed auto

lemma in_time_stopped:
  assumes "life_inv l" "lc_state l = stateStopped" "shutdownStart_once l" "shutdownErr l = None"
  shows "owner_at l = OwnerDone" "\<not> timedOut l" "setups l = []" "services l = 0"
proof -
  have "owner_ok l \<and> owner_at l = OwnerDone \<and> \<not> timedOut l"
    using assms by (auto simp: life_inv_def idle_def split: if_splits)
  then show "owner_at l = OwnerDone" "\<not> timedOut l" "setups l = []" "services l = 0" by (auto simp: owner_ok_def)
qed

lemma registry_empty:
  assumes "registry_ok s" "\<And>c. phases s c \<in> {Absent, Finalized}"
  shows "connectionsCount (manager s) = 0" "finalizationSnapshot (manager s) = []"
proof -
  have b: "books (manager s) (phases s)" using assms(1) by (simp add: registry_ok_def)
  have "phases s c \<notin> {Open, Entered}" for c using assms(2) [of c] by auto
  then have "dom (active (abs_manager (manager s))) = {}" using b by (auto simp: books_def)
  moreover have "manager_inv id (manager s)" using b by (simp add: books_def)
  ultimately show "connectionsCount (manager s) = 0" using count_card [of id "manager s"] by simp
  have "c \<notin> set (fst (finalizationState (manager s)))" for c using leaving_state [OF b, of c] assms(2) [of c] by auto
  then show "finalizationSnapshot (manager s) = []" by (metis finalizationSnapshot_def list.set_intros(1) neq_Nil_conv)
qed

section \<open>Properties\<close>

text \<open>
  C2. A graceful shutdown is complete and loses nothing. When the server is stopped by a
  shutdown that reports no error: the worker pool is done, no task is left and every task that
  was accepted has been taken up; no set-up is under way and no serving goroutine runs; the
  manager is empty; every connection there ever was is finalized; and a connection that the
  shutdown closed has written every message that was queued on it. This holds however the
  goroutines were interleaved.
\<close>

theorem graceful_shutdown_complete:
  assumes "sys_reachable grow env s" and "lc_state (lc s) = stateStopped" and "shutdownStart_once (lc s)" and "shutdownErr (lc s) = None"
  shows "pool_done (pool s) \<and> tasks (pool s) = {} \<and>
    (\<forall>i<length (workers (pool s)). served (pool s) i (accepted (pool s)) = served (pool s) i (received (pool s))) \<and>
    setups (lc s) = [] \<and> services (lc s) = 0 \<and> connectionsCount (manager s) = 0 \<and> finalizationSnapshot (manager s) = [] \<and>
    (\<forall>c. phases s c \<noteq> Absent \<longrightarrow> finalized (conns s c) \<and> (stop_reason (conns s c) \<longrightarrow> written (conns s c) = queued (conns s c)))"
proof -
  have inv: "life_inv (lc s)" "registry_ok s" "pool_ok env s" "conns_ok s" "drain_ok s" "wait_ok s"
    using sys_reachable_inv [OF assms(1)] by (simp_all add: sys_inv_def)
  note owner = in_time_stopped [OF inv(1) assms(2-4)]
  obtain nw qs where p: "pool_inv nw qs (pool s)" "pool_done (pool s)"
    using inv(3) owner(1,2) pool_reachable_inv unfolding pool_ok_def by fastforce
  have ph: "phases s c \<in> {Absent, Finalized}" for c using inv(6) owner(1,2) by (simp add: wait_ok_def)
  have "finalized (conns s c)" if "phases s c \<noteq> Absent" for c
    using inv(4) ph [of c] that by (force simp: conns_ok_def conn_ok_def)
  moreover have "written (conns s c) = queued (conns s c)" if "phases s c \<noteq> Absent" "stop_reason (conns s c)" for c
    using inv(5) owner(2) that by (auto simp: drain_ok_def quiet_def)
  ultimately show ?thesis
    using p pool_done_empty [OF p(1)] owner registry_empty [OF inv(2) ph] by blast
qed

theorem graceful_shutdown_complete_witness:
  "pool_done (pool demo_stopped) \<and> connectionsCount (manager demo_stopped) = 0 \<and> finalized (conns demo_stopped 1) \<and>
   written (conns demo_stopped 1) = [[7, 0, 0, 0, 1, 0, 0, 0, 1]]"
proof -
  have "sys_reachable (\<lambda>n. n) counting_env demo_stopped"
    using demo_shutdown_run demo_traffic_run demo_running_reachable sys_run_reachable by metis
  from graceful_shutdown_complete [OF this] demo_shutdown_run show ?thesis by auto
qed

text \<open>
  C9. The life cycle of a server goes one way. In every run, from every reachable state: no
  channel is closed twice or while it is nil; the state never goes back; \<open>startupDone\<close> is closed
  exactly from the state running or stopped on, and \<open>shutdownDone\<close> exactly when the server is
  stopped; the result of the shutdown is nil or \<open>ErrShutdownTimeout\<close>, it is nil before the
  server is stopped, and once the server is stopped the result stays what it is.
\<close>

theorem server_lifecycle:
  fixes s :: "('v, 'w) system"
  assumes "sys_reachable grow env s" and "sys_run grow env evs s = Some s'"
  shows "\<not> lc_panic (lc s') \<and> server_rank (lc_state (lc s)) \<le> server_rank (lc_state (lc s')) \<and>
    (startupDone (lc s') = ClosedChan \<longleftrightarrow> lc_state (lc s') \<in> {stateRunning, stateStopping, stateStopped}) \<and>
    (shutdownDone (lc s') = ClosedChan \<longleftrightarrow> lc_state (lc s') = stateStopped) \<and>
    shutdownErr (lc s') \<in> {None, Some ErrShutdownTimeout} \<and>
    (shutdownErr (lc s') \<noteq> None \<longrightarrow> lc_state (lc s') = stateStopped) \<and>
    (lc_state (lc s) = stateStopped \<longrightarrow> shutdownErr (lc s') = shutdownErr (lc s))"
proof -
  define P where "P t \<longleftrightarrow> sys_inv env t \<and> server_rank (lc_state (lc s)) \<le> server_rank (lc_state (lc t)) \<and>
    (lc_state (lc s) = stateStopped \<longrightarrow> lc_state (lc t) = stateStopped \<and> shutdownErr (lc t) = shutdownErr (lc s))" for t :: "('v, 'w) system"
  have "P s'"
  proof (rule sys_run_induct [OF assms(2)])
    show "P s" using sys_reachable_inv [OF assms(1)] by (simp add: P_def)
    show "P t'" if "P t" "\<not> crashed (pool t)" "sys_exec grow env ev t = Some t'" for ev t t'
      using that sys_inv_exec [OF that(3,2)] sys_exec_rank [OF that(3)] stopped_final [OF that(3)] sys_inv_life [of env t]
      by (auto simp: P_def)
  qed
  moreover from this have "life_inv (lc s')" by (simp add: P_def sys_inv_def)
  then have "channels_ok (lc s')" "stage_ok (lc_state (lc s')) (lc s')" by (simp_all add: life_inv_def)
  ultimately show ?thesis
    by (cases "lc_state (lc s')") (auto simp: P_def channels_ok_def idle_def)
qed

theorem server_lifecycle_witness:
  "\<not> lc_panic (lc demo_stopped) \<and> shutdownDone (lc demo_stopped) = ClosedChan"
proof -
  have "sys_reachable (\<lambda>n. n) counting_env demo_busy"
    using demo_traffic_run demo_running_reachable sys_run_reachable by metis
  from server_lifecycle [OF this] demo_shutdown_run show ?thesis by blast
qed

text \<open>
  C13. A shutdown is over in bounded time, whatever the connections, handlers and services do.
  From every reachable state in which the server is stopping, at most \<open>21 + n\<close> steps of the
  owner alone, with \<open>n\<close> the number of connection groups, lead to the stopped state: none of its
  waits needs the cooperation of another goroutine once the deadline has passed. Then every
  call of \<open>Shutdown\<close>, wherever it waits, returns, and the result is nil or \<open>ErrShutdownTimeout\<close>.
\<close>

theorem shutdown_bounded:
  assumes "sys_reachable grow env s" and "lc_state (lc s) = stateStopping"
  shows "\<exists>evs s'. length evs \<le> 21 + length (connectionGroups (manager s)) \<and> owner_run evs s = Some s' \<and>
    lc_state (lc s') = stateStopped \<and> shutdownErr (lc s') \<in> {None, Some ErrShutdownTimeout} \<and>
    (\<forall>prefer_ctx ctxErr call. Shutdown_result prefer_ctx ctxErr call (lc s') \<noteq> None)"
proof -
  have "owned s" using sys_reachable_inv [OF assms(1)] assms(2) by (simp add: sys_inv_def owned_def)
  then obtain evs rs s' where run: "length evs \<le> owner_left (length (connectionGroups (manager s))) (owner_at (lc s))"
    "run_ops (\<lambda>ev s. map_option (Pair ()) (shutdownOwner ev s)) evs s = Some (rs, s')" "lc_state (lc s') = stateStopped" "owned s'"
    using ow.reaches_final [of s] by blast
  have "startupDone (lc s') = ClosedChan \<and> shutdownDone (lc s') = ClosedChan \<and> shutdownErr (lc s') \<in> {None, Some ErrShutdownTimeout}"
    using run(3,4) by (auto simp: owned_def life_inv_def channels_ok_def idle_def)
  moreover from this have "Shutdown_result prefer_ctx ctxErr call (lc s') \<noteq> None" for prefer_ctx ctxErr call
    by (cases call; cases ctxErr) auto
  ultimately show ?thesis using run(3) owner_run_ops [OF run(2)] le_trans [OF run(1) owner_left_bound] by blast
qed

theorem shutdown_bounded_witness:
  "\<exists>evs s'. owner_run evs (demo_busy\<lparr>lc := snd (Shutdown_begin (lc demo_busy))\<rparr>) = Some s' \<and> lc_state (lc s') = stateStopped"
proof -
  let ?s = "demo_busy\<lparr>lc := snd (Shutdown_begin (lc demo_busy))\<rparr>"
  have "sys_reachable (\<lambda>n. n) counting_env demo_busy"
    using demo_traffic_run demo_running_reachable sys_run_reachable by metis
  moreover have "sys_run (\<lambda>n. n) counting_env [EShutdown] demo_busy = Some ?s"
    by (simp add: demo_busy_def demo_running_def demo_defs pool_start_def)
  ultimately have "sys_reachable (\<lambda>n. n) counting_env ?s" by (rule sys_run_reachable)
  moreover have "lc_state (lc ?s) = stateStopping"
    by (simp add: demo_busy_def demo_running_def demo_defs Shutdown_begin_def startOwner_def)
  ultimately show ?thesis using shutdown_bounded by blast
qed

text \<open>
  C16. A shutdown during the start-up wins. When \<open>Shutdown\<close> is called while the server is
  starting, then in every run from there the server never becomes running: it stays starting or
  is stopped, no service is launched, no connection opened and no shutdown goroutine started;
  and once it is stopped, the call returns nil.
\<close>

theorem shutdown_during_startup:
  fixes s :: "('v, 'w) system"
  assumes "sys_reachable grow env s" and "\<not> crashed (pool s)" and "lc_state (lc s) = stateStarting"
    and "Shutdown_begin (lc s) = (call, l)" and "sys_run grow env evs (s\<lparr>lc := l\<rparr>) = Some s'"
  shows "lc_state (lc s') \<in> {stateStarting, stateStopped} \<and> services (lc s') = 0 \<and> setups (lc s') = [] \<and>
    owner_at (lc s') = OwnerNone \<and>
    (lc_state (lc s') = stateStopped \<longrightarrow> Shutdown_result prefer_ctx None call (lc s') = Some None)"
proof -
  have call: "call = AwaitStartup" "l = (lc s)\<lparr>stopRequested := True\<rparr>" using assms(3,4) by (simp_all add: Shutdown_begin_def)
  have "sys_exec grow env EShutdown s = Some (s\<lparr>lc := l\<rparr>)" using assms(4) by simp
  then have start: "sys_inv env (s\<lparr>lc := l\<rparr>)" using sys_inv_exec assms(2) sys_reachable_inv [OF assms(1)] by blast
  have "sys_inv env s' \<and> stopRequested (lc s')"
  proof (rule sys_run_induct [OF assms(5), where P = "\<lambda>t. sys_inv env t \<and> stopRequested (lc t)"])
    show "sys_inv env (s\<lparr>lc := l\<rparr>) \<and> stopRequested (lc (s\<lparr>lc := l\<rparr>))" using start call(2) by simp
  qed (use sys_inv_exec stopRequested_kept sys_inv_life in blast)
  then have inv: "life_inv (lc s')" "stopRequested (lc s')" by (simp_all add: sys_inv_def)
  have "startupDone (lc s') = ClosedChan" if "lc_state (lc s') = stateStopped"
    using inv(1) that by (simp add: life_inv_def channels_ok_def)
  then show ?thesis
    using stop_requested_stage [OF inv] call(1) by (auto simp: idle_def terminalShutdownError_def)
qed

theorem shutdown_during_startup_witness:
  "\<exists>call l s'. Shutdown_begin (lc demo_claimed) = (call, l) \<and>
     sys_run (\<lambda>n. n) counting_env [ERun (Prepared None), ERun (Checked None), ERun RolledBack] (demo_claimed\<lparr>lc := l\<rparr>) = Some s' \<and>
     lc_state (lc s') = stateStopped \<and> Shutdown_result False None call (lc s') = Some None"
proof -
  let ?evs = "[ERun (Prepared None), ERun (Checked None), ERun RolledBack] :: (nat, nat) sys_event list"
  let ?l = "(lc demo_claimed)\<lparr>stopRequested := True\<rparr>"
  have reach: "sys_reachable (\<lambda>n. n) counting_env demo_claimed"
    by (rule sys_run_reachable [OF sys_reachable.new [OF demo_new], of _ _ "[EClaim]"])
      (simp add: demo_claimed_def newSystem_def demo_server_def demo_pool_def)
  have starting: "Shutdown_begin (lc demo_claimed) = (AwaitStartup, ?l)" "lc_state (lc demo_claimed) = stateStarting" "\<not> crashed (pool demo_claimed)"
    by (simp_all add: demo_claimed_def Shutdown_begin_def claimRun_def newLifecycle_def newSystem_def demo_server_def demo_pool_def)
  obtain s' where run: "sys_run (\<lambda>n. n) counting_env ?evs (demo_claimed\<lparr>lc := ?l\<rparr>) = Some s'" "lc_state (lc s') = stateStopped"
    using demo_prepare by (simp add: demo_claimed_def newSystem_def claimRun_def newLifecycle_def startupCanceled_def abort_def rollbackStartup_def
        closeServingResources_def closeStartup_def closeShutdown_def closeGate_def closeOnce_def demo_prepared_def demo_server_def demo_pool_def Let_def)
  from shutdown_during_startup [OF reach starting(3,2,1) run(1), of False] run starting(1) show ?thesis by blast
qed



end
