(* ===== verification/Requests.thy ===== *)
theory Requests
  imports Server
begin

text \<open>
  The way of a request through the server, from the bytes that a peer sends to the handlers that
  a worker runs: the readers of the theory \<open>Transports\<close> with the \<open>handleRequest\<close> of the theory
  \<open>Server\<close>, which submits to the pool of the theory \<open>Worker_Pool\<close>, whose workers take the
  requests up while the reader goes on.

  First the two readers are shown to implement a sequential specification: they hand the
  messages to the server one after the other. Then the server is put in place of the parameter,
  together with everything that the rest of the process does to the pool in the meantime.
\<close>

section \<open>Requests one after the other\<close>

text \<open>
  The specification of a reader towards the server: \<open>h\<close> is called for each message in turn, and
  no call follows one that returned an error. \<open>None\<close>: the messages are not such a sequence.
\<close>

fun serve :: "'s requestHandler \<Rightarrow> Message list \<Rightarrow> 's \<Rightarrow> (go_error option \<times> 's) option" where
  "serve h [] s = Some (None, s)"
| "serve h (m # ms) s =
     (case h (newRequest m) s of
        (None, s') \<Rightarrow> serve h ms s'
      | (Some err, s') \<Rightarrow> if ms = [] then Some (Some err, s') else None)"

lemma serve_append: "serve h ms s = Some (None, t) \<Longrightarrow> serve h (ms @ ns) s = serve h ns t"
  by (induction ms arbitrary: s) (auto split: prod.splits option.splits if_splits)

text \<open>
  \<open>serves h c c'\<close>: between \<open>c\<close> and \<open>c'\<close> the server was called for the messages that were added to
  the history, in this way; \<open>e\<close> is what the last call returned.
\<close>

definition serves :: "'s requestHandler \<Rightarrow> go_error option \<Rightarrow> 's transportConnection \<Rightarrow> 's transportConnection \<Rightarrow> bool" where
  "serves h e c c' \<longleftrightarrow> (\<exists>ms. handled c' = handled c @ ms \<and> serve h ms (server c) = Some (e, server c'))"

lemma serves_idle: "handled c' = handled c \<Longrightarrow> server c' = server c \<Longrightarrow> serves h None c c'"
  by (simp add: serves_def)

lemma serves_trans: "serves h None c d \<Longrightarrow> serves h e d c' \<Longrightarrow> serves h e c c'"
  using serve_append [of h] by (auto simp: serves_def)

lemma serves_dispatch: "dispatch h m c = (e, c') \<Longrightarrow> serves h e c c'"
  by (auto simp: serves_def dispatch_def on_base_def Let_def split: prod.splits option.splits)

text \<open>A reader that calls the server in this way, as a law that extends the interface of a reader.\<close>

locale serving_reader = request_reader reader reading
  for reader :: "int \<Rightarrow> 'i \<Rightarrow> 's transportConnection \<Rightarrow> (round \<times> 's transportConnection) option"
    and reading :: "uint64 \<Rightarrow> 's transportConnection \<Rightarrow> bool" +
  fixes h :: "'s requestHandler"
  assumes round_serves: "reader now i c = Some (r, c') \<Longrightarrow> \<exists>e. serves h e c c' \<and> (r = Again \<longrightarrow> e = None)"
begin

definition served_from :: "'s \<Rightarrow> 's transportConnection \<Rightarrow> bool" where
  "served_from s c \<longleftrightarrow> (\<exists>e. serve h (handled c) s = Some (e, server c) \<and> (\<not> reader_done (base c) \<longrightarrow> e = None))"

lemma served_round:
  assumes "served_from s c" "transport_exec reader (TRound now i) c = Some (r, c')"
  shows "served_from s c'"
proof -
  from assms(2) obtain r' d where rd: "\<not> reader_done (base c)" "reader now i c = Some (r', d)"
    and c': "c' = (if r' = Again then d else on_base (reader_done_update (\<lambda>_. True)) d)"
    by (auto split: if_splits)
  from round_serves [OF rd(2)] obtain e ms where
    e: "handled d = handled c @ ms" "serve h ms (server c) = Some (e, server d)" "r' = Again \<longrightarrow> e = None"
    unfolding serves_def by blast
  have "serve h (handled c) s = Some (None, server c)" using assms(1) rd(1) by (auto simp: served_from_def)
  then have "serve h (handled d) s = Some (e, server d)" using e(1,2) serve_append by metis
  then show ?thesis using e(3) unfolding served_from_def c' by (auto simp: on_base_def)
qed

lemma served_exec:
  assumes "served_from s c" "transport_exec reader ev c = Some (r, c')"
  shows "served_from s c'"
proof (cases ev)
  case (TBase ev')
  with assms(2) obtain r' where ev: "ev' \<noteq> CReaderExit" "conn_exec ev' (base c) = Some (r', base c')"
    and c': "c' = c\<lparr>base := base c'\<rparr>"
    by (auto split: if_splits)
  have "reader_done (base c') = reader_done (base c)" by (rule conn_exec_reader_done [OF ev])
  moreover have "handled c' = handled c" "server c' = server c" by (subst c', simp)+
  ultimately show ?thesis using assms(1) by (simp add: served_from_def)
qed (use served_round assms in blast)

lemma run_served:
  assumes "newConnection transport maxlen bufsize now m s = Ok c0" "run_ops (transport_exec reader) evs c0 = Some (rs, c)"
  shows "served_from s c"
proof -
  have "served_from s c0" using assms(1) by (auto simp: served_from_def newConnection_def obind_Ok_iff)
  then show ?thesis using run_ops_invariant [of "served_from s", OF _ assms(2)] served_exec by blast
qed

end

section \<open>The two readers serve\<close>

lemma process_frames_serves:
  "process_frames h frames c = (res, c') \<Longrightarrow>
   \<exists>e. serves h e c c' \<and> (e = None \<or> res = Err ErrServerStopping \<or> 2 \<le> state_rank (conn_state (base c')))"
proof (induction h frames c rule: process_frames.induct)
  case (1 h c)
  then show ?case by (auto intro: serves_idle)
next
  case (2 h frame frames c)
  show ?case
  proof (cases "Decoder_Decode frame")
    case (Ok m)
    obtain e c1 where dis: "dispatch h m c = (e, c1)" by (cases "dispatch h m c")
    note s1 = serves_dispatch [OF dis]
    show ?thesis
    proof (cases e)
      case None
      with 2(2) Ok dis have "process_frames h frames c1 = (res, c')" by simp
      from 2(1) [OF Ok dis [symmetric] None this] s1 None show ?thesis using serves_trans by blast
    next
      case (Some err)
      with 2(2) Ok dis have "serves h e c c'" "res = Err ErrServerStopping \<or> 2 \<le> state_rank (conn_state (base c'))"
        using s1 requestClose_closing by (auto simp: serves_def split: if_splits)
      then show ?thesis by blast
    qed
  qed (use 2(2) in \<open>auto intro: serves_idle\<close>)
qed

lemma after_input_serves: "after_input readErr c = (r, c') \<Longrightarrow> serves h None c c'"
  by (rule serves_idle) (auto simp: after_input_def report_and_close_def split: option.splits if_splits)

lemma tcp_serves:
  assumes "tcp_reader h now input readErr c = Some (r, c')"
  shows "\<exists>e. serves h e c c' \<and> (r = Again \<longrightarrow> e = None)"
proof (cases "input = []")
  case True
  with assms have "after_input readErr c = (r, c')" by (simp add: tcp_reader_def)
  then show ?thesis using after_input_serves by blast
next
  case False
  let ?c = "on_base (refreshActivity now) (c\<lparr>rx := rx c @ input\<rparr>)"
  from assms False obtain res c1 where p: "processInput h input ?c = Some (res, c1)"
    and rd: "(r, c') = (case res of Panic \<Rightarrow> (Crash, c1)
        | Err err \<Rightarrow> if is_ErrServerStopping err then (Exit, c1) else (Exit, report_and_close OperationProtocol err c1)
        | Ok _ \<Rightarrow> if state_rank (conn_state (base c1)) \<ge> state_rank connectionClosing then (Exit, c1) else after_input readErr c1)"
    by (auto simp: tcp_reader_def Let_def)
  from p obtain frames d where d: "FrameDecoder_Decode (frameDecoder c) input = Some (frames, d)"
    and res: "(res, c1) = (case frames of Ok fs \<Rightarrow> process_frames h fs (?c\<lparr>frameDecoder := d\<rparr>)
        | Err err \<Rightarrow> (Err err, ?c\<lparr>frameDecoder := d\<rparr>) | Panic \<Rightarrow> (Panic, ?c\<lparr>frameDecoder := d\<rparr>))"
    by (auto simp: processInput_def)
  have "serves h None c (?c\<lparr>frameDecoder := d\<rparr>)" by (rule serves_idle) simp_all
  moreover have "\<exists>e. serves h e (?c\<lparr>frameDecoder := d\<rparr>) c1 \<and>
      (e = None \<or> res = Err ErrServerStopping \<or> 2 \<le> state_rank (conn_state (base c1)))"
    using res process_frames_serves [of h _ "?c\<lparr>frameDecoder := d\<rparr>" res c1]
    by (cases frames) (auto intro: exI [of _ None] serves_idle)
  ultimately obtain e where e: "serves h e c c1" "e = None \<or> res = Err ErrServerStopping \<or> 2 \<le> state_rank (conn_state (base c1))"
    using serves_trans by blast
  show ?thesis
  proof (cases "e = None")
    case True
    have "serves h None c1 c'"
      using rd after_input_serves [of readErr c1 r c' h]
      by (cases res) (auto intro: serves_idle simp: report_and_close_def split: if_splits)
    then show ?thesis using e(1) True serves_trans by blast
  next
    case False
    with e(2) rd have "r = Exit \<and> handled c' = handled c1 \<and> server c' = server c1 \<or> r = Crash \<and> c' = c1"
      by (cases res) (auto simp: report_and_close_def split: if_splits)
    then show ?thesis using e(1) by (auto simp: serves_def)
  qed
qed

lemma ws_frames_serves:
  "ws_frames h frames c = (r, c') \<Longrightarrow> \<exists>e. serves h e c c' \<and> (r = Again \<longrightarrow> e = None)"
proof (induction h frames c rule: ws_frames.induct)
  case (1 h c)
  then show ?case by (auto intro: serves_idle)
next
  case (2 h frame frames c)
  show ?case
  proof (cases "Decoder_Decode frame")
    case (Ok m)
    obtain e c1 where dis: "dispatch h m c = (e, c1)" by (cases "dispatch h m c")
    note s1 = serves_dispatch [OF dis]
    show ?thesis
    proof (cases e)
      case None
      with 2(2) Ok dis have "ws_frames h frames c1 = (r, c')" by simp
      from 2(1) [OF Ok dis [symmetric] None this] s1 None show ?thesis using serves_trans by blast
    next
      case (Some err)
      with 2(2) Ok dis have "serves h e c c'" "r = Exit"
        using s1 by (auto simp: serves_def ws_fail_def split: if_splits)
      then show ?thesis by blast
    qed
  qed (use 2(2) in \<open>auto intro!: exI [of _ None] serves_idle simp: ws_fail_def\<close>)
qed

lemma ws_serves:
  assumes "ws_reader h now i c = Some (r, c')"
  shows "\<exists>e. serves h e c c' \<and> (r = Again \<longrightarrow> e = None)"
proof (cases "handled c' = handled c \<and> server c' = server c")
  case True
  then show ?thesis using serves_idle by blast
next
  case False
  then obtain buffer frames d where i: "i = Inr (BinaryMessage, buffer)" "buffer \<noteq> []"
    and d: "FrameDecoder_Decode (frameDecoder c) buffer = Some (frames, d)"
    using assms by (auto simp: ws_reader_def Let_def ws_fail_def split: sum.split_asm if_split_asm)
  let ?c = "(on_base (refreshActivity now) (c\<lparr>rx := rx c @ buffer\<rparr>))\<lparr>frameDecoder := d\<rparr>"
  obtain fs where "ws_frames h fs ?c = (r, c')"
    using assms i d False by (cases frames) (auto simp: ws_reader_def Let_def ws_fail_def split: if_split_asm)
  moreover have "serves h None c ?c" by (rule serves_idle) simp_all
  ultimately show ?thesis using ws_frames_serves serves_trans by blast
qed

interpretation tcps: serving_reader "\<lambda>now (input, readErr). tcp_reader h now input readErr" decoding h
  by unfold_locales (auto dest: tcp_serves)

interpretation wss: serving_reader "ws_reader h" ws_reading h
  by unfold_locales (rule ws_serves)

section \<open>The server in place\<close>

text \<open>
  What happens on the rest of the server before a request reaches \<open>handleRequest\<close>: events of the
  pool (its workers, requests of other connections, a drain, cancellations), whether the
  connection's \<open>forceCtx\<close> has been cancelled, and the world that the request's handlers will
  act on. The state of a connection and that of the pool are disjoint, so each interleaving of
  the two is one where the events of the pool come just before the next request.
\<close>

record ('v, 'w) slot =
  others :: "('v, 'w) pool_event list"
  forced :: bool
  request_world :: 'w

fun foreign :: "uint64 \<Rightarrow> ('v, 'w) pool_event \<Rightarrow> bool" where
  "foreign cid (PSubmit c) = (ctx_Connection c \<noteq> Some cid)"
| "foreign cid _ = True"

fun cancels :: "uint64 \<Rightarrow> ('v, 'w) workerPool \<Rightarrow> ('v, 'w) pool_event \<Rightarrow> bool" where
  "cancels cid p PForceCancel = True"
| "cancels cid p (PCancel t) = (ctx_Connection (ctx p t) = Some cid)"
| "cancels cid p _ = False"

text \<open>
  An event that is not enabled does not happen; one after which the process is gone is followed
  by no request. If \<open>calm\<close>, nobody cancels the requests of this connection.
\<close>

definition other_event ::
  "'w handler_env \<Rightarrow> uint64 \<Rightarrow> bool \<Rightarrow> ('v, 'w) pool_event \<Rightarrow> ('v, 'w) workerPool \<Rightarrow> ('v, 'w) workerPool" where
  "other_event env cid calm ev p =
     (if foreign cid ev \<and> \<not> (calm \<and> cancels cid p ev)
      then (case pool_exec env ev p of None \<Rightarrow> p | Some (r, p') \<Rightarrow> if crashed p' then p else p')
      else p)"

definition run_others ::
  "'w handler_env \<Rightarrow> uint64 \<Rightarrow> bool \<Rightarrow> ('v, 'w) pool_event list \<Rightarrow> ('v, 'w) workerPool \<Rightarrow> ('v, 'w) workerPool" where
  "run_others env cid calm evs p = fold (other_event env cid calm) evs p"

text \<open>The context of the connection's requests is \<open>forceCtx\<close>; this is its error.\<close>

definition taskContext_err :: "bool \<Rightarrow> go_error option" where
  "taskContext_err forced_now = (if forced_now then Some Canceled else None)"

text \<open>
  The handler of the readers: the server, with the number of requests so far. A panic of
  \<open>handleRequest\<close>, which would end the process, is recorded as \<open>crashed\<close>.
\<close>

definition serveRequest ::
  "'w handler_env \<Rightarrow> uint64 \<Rightarrow> Transport \<Rightarrow> bool \<Rightarrow> (nat \<Rightarrow> ('v, 'w) slot) \<Rightarrow> (('v, 'w) Server \<times> nat) requestHandler" where
  "serveRequest env cid transport calm slots request = (\<lambda>(s, n).
     let s1 = s\<lparr>workerPool := run_others env cid calm (others (slots n)) (workerPool s)\<rparr>;
         (r, s2) = handleRequest cid transport (taskContext_err (\<not> calm \<and> forced (slots n))) (request_world (slots n)) request s1
     in case r of
          Ok err \<Rightarrow> (err, (s2, n + 1))
        | Err err \<Rightarrow> (Some err, (s2, n + 1))
        | Panic \<Rightarrow> (None, (s2\<lparr>workerPool := (workerPool s2)\<lparr>crashed := True\<rparr>\<rparr>, n + 1)))"

section \<open>The requests of a connection in the pool\<close>

text \<open>What a task of a connection carries: the message, and the handlers that its event is routed to.\<close>

definition connection_tasks :: "('v, 'w) workerPool \<Rightarrow> uint64 \<Rightarrow> nat list \<Rightarrow> (Message \<times> 'v prog Handler list) list" where
  "connection_tasks p cid ts = map (\<lambda>t. (Request_Message (ctx_Request (ctx p t)), handlers (ctx p t))) (tasks_of p cid ts)"

definition routed :: "'v prog routing \<Rightarrow> Message \<Rightarrow> Message \<times> 'v prog Handler list" where
  "routed routing m = (m, case route_handlers routing (Event m) of Some hs \<Rightarrow> hs | None \<Rightarrow> [Some notFoundHandler])"

abbreviation pool_of :: "'w handler_env \<Rightarrow> ServerOptions \<Rightarrow> ('v, 'w) workerPool \<Rightarrow> bool" where
  "pool_of env opts p \<equiv> pool_reachable env (WorkerCount opts) (WorkerQueueCapacity opts) p \<and> \<not> crashed p"

lemma event_accepted:
  assumes "pool_exec env ev p = Some (r, p')" "inv_life p" "0 < length (workers p)"
  shows "accepted p' = accepted p \<and> r \<noteq> Some Submitted \<or>
    (\<exists>c. ev = PSubmit c \<and> r = Some Submitted \<and> accepted p' = accepted p @ [length (contexts p)] \<and> contexts p' = contexts p @ [c])"
proof (cases ev)
  case (PSubmit c)
  from assms(1) [unfolded PSubmit] assms(2,3) HOL.refl HOL.refl show ?thesis
    by (cases rule: psubmit_cases) (simp_all add: PSubmit)
qed (use assms in \<open>auto elim!: receive_cases run_cases exit_cases simp: pool_start_def stopAccepting_def forceCancel_def
    drain_begin_def drain_finish_def set_context_def Let_def split: if_splits workerPoolState.splits\<close>)

lemma connection_tasks_cong:
  assumes "\<And>t. t \<in> set ts \<Longrightarrow> static (ctx p' t) = static (ctx p t)"
  shows "connection_tasks p' cid ts = connection_tasks p cid ts"
proof -
  have "tasks_of p' cid ts = tasks_of p cid ts"
    using assms by (auto simp: tasks_of_def static_def intro!: filter_cong)
  then show ?thesis
    using assms by (auto simp: connection_tasks_def tasks_of_def static_def)
qed

lemma connection_tasks_append: "connection_tasks p cid (ts @ us) = connection_tasks p cid ts @ connection_tasks p cid us"
  by (simp add: connection_tasks_def tasks_of_def)

lemma submit_crashed: "pool_exec env (PSubmit c) p = Some (r, p') \<Longrightarrow> crashed p' = crashed p"
  by (auto simp: submit_def register_def unregister_def set_worker_def Let_def split: if_splits)

lemma finish_crashed: "pool_exec env (PFinish t) p = Some (r, p') \<Longrightarrow> crashed p' = crashed p"
  by (auto simp: set_context_def split: if_splits)

lemma connection_tasks_event:
  assumes inv: "pool_inv n_workers q_size p" and ev: "pool_exec env ev p = Some (r, p')"
  shows "connection_tasks p' cid (accepted p') = connection_tasks p cid (accepted p) @
    (case ev of PSubmit c \<Rightarrow> if r = Some Submitted \<and> ctx_Connection c = Some cid
                             then [(Request_Message (ctx_Request c), handlers c)] else []
     | _ \<Rightarrow> [])"
proof -
  have i: "inv_life p" "inv_tasks p" "0 < length (workers p)" and bound: "\<forall>t\<in>set (accepted p). t < length (contexts p)"
    using inv by (auto simp: pool_inv_def inv_order_def)
  have old: "connection_tasks p' cid (accepted p) = connection_tasks p cid (accepted p)"
    by (rule connection_tasks_cong, rule event_static(2) [OF i(2,1,3) ev]) (use bound in simp)
  from event_accepted [OF ev i(1,3)] show ?thesis
  proof (elim disjE exE conjE)
    fix c
    assume "ev = PSubmit c" "r = Some Submitted" "accepted p' = accepted p @ [length (contexts p)]" "contexts p' = contexts p @ [c]"
    then show ?thesis
      using old by (simp add: connection_tasks_append) (simp add: connection_tasks_def tasks_of_def)
  qed (use old in \<open>simp split: pool_event.split\<close>)
qed

section \<open>What became of a request\<close>

text \<open>
  A request that a worker has taken up is at work, or its handlers have been started, all of
  them, in order and once. Only a request that was cancelled before that is not run; where
  nobody cancels the requests of the connection, there is none.
\<close>

definition at_work :: "('v, 'w) workerPool \<Rightarrow> nat \<Rightarrow> bool" where
  "at_work p t \<longleftrightarrow> (\<exists>i<length (workers p). current (workers p ! i) = Some t)"

definition chain_run :: "('v, 'w) Context \<Rightarrow> bool" where
  "chain_run c \<longleftrightarrow> started (trace c) = [0..<length (handlers c)]"

definition spared :: "bool \<Rightarrow> uint64 \<Rightarrow> ('v, 'w) Context \<Rightarrow> bool" where
  "spared calm cid c \<longleftrightarrow> calm \<and> ctx_Connection c = Some cid"

definition inv_run :: "bool \<Rightarrow> uint64 \<Rightarrow> ('v, 'w) workerPool \<Rightarrow> bool" where
  "inv_run calm cid p \<longleftrightarrow>
     (\<forall>i t. placed p i t \<longrightarrow> spared calm cid (ctx p t) \<longrightarrow> ctx_err (ctx p t) = None) \<and>
     (\<forall>t\<in>set (received p). at_work p t \<or> chain_run (ctx p t) \<or> \<not> spared calm cid (ctx p t) \<and> waiting (ctx p t))"

lemma at_work_update:
  assumes "at_work p u" "i < length (workers p)" "current (workers p ! i) \<noteq> Some u" "workers p' = (workers p)[i := w]"
  shows "at_work p' u"
proof -
  obtain j where "j < length (workers p)" "current (workers p ! j) = Some u" using assms(1) by (auto simp: at_work_def)
  then show ?thesis using assms(2-4) unfolding at_work_def by (intro exI [of _ j]) (auto simp: nth_list_update)
qed

lemma cancel_run [simp]:
  "chain_run (cancelTask c) = chain_run c" "chain_run (finish c) = chain_run c"
  "spared calm cid (cancelTask c) = spared calm cid c" "spared calm cid (finish c) = spared calm cid c"
  "waiting (finish c) = waiting c"
  by (simp_all add: chain_run_def spared_def waiting_def cancelTask_def finish_def)

lemma spared_static: "static c = static c' \<Longrightarrow> spared calm cid c = spared calm cid c'"
  by (simp add: static_def spared_def)

text \<open>Events that leave the workers' tasks where they are, and change contexts only by cancelling.\<close>

lemma inv_run_frame:
  assumes "inv_run calm cid p" "inv_order p" "received p' = received p" "length (workers p') = length (workers p)"
    and "\<And>i. i < length (workers p) \<Longrightarrow> held (workers p' ! i) = held (workers p ! i) \<and> current (workers p' ! i) = current (workers p ! i)"
    and "\<And>t. t < length (contexts p) \<Longrightarrow> ctx p' t \<in> {ctx p t, cancelTask (ctx p t), finish (ctx p t)}"
    and "\<And>i t. placed p i t \<Longrightarrow> t < length (contexts p) \<and> (spared calm cid (ctx p t) \<longrightarrow> ctx p' t = ctx p t)"
  shows "inv_run calm cid p'"
proof -
  have placed: "placed p' i t = placed p i t" for i t using assms(4,5) by (auto simp: placed_def)
  have work: "at_work p' t = at_work p t" for t using assms(4,5) by (auto simp: at_work_def)
  have same: "chain_run (ctx p' t) = chain_run (ctx p t) \<and> waiting (ctx p' t) = waiting (ctx p t) \<and>
      spared calm cid (ctx p' t) = spared calm cid (ctx p t)" if "t < length (contexts p)" for t
    using assms(6) [OF that] by auto
  have "\<forall>t\<in>set (received p). t < length (contexts p)" using assms(2) by (simp add: inv_order_def)
  then have "\<forall>t\<in>set (received p'). at_work p' t \<or> chain_run (ctx p' t) \<or> \<not> spared calm cid (ctx p' t) \<and> waiting (ctx p' t)"
    using assms(1) same unfolding inv_run_def work assms(3) by blast
  moreover have "ctx_err (ctx p' t) = None" if "placed p i t" "spared calm cid (ctx p' t)" for i t
    using assms(1) assms(7) [OF that(1)] same [of t] that unfolding inv_run_def by metis
  ultimately show ?thesis unfolding inv_run_def placed by blast
qed

lemma inv_run_submit:
  assumes run: "inv_run calm cid p" and inv: "pool_inv n_workers q_size p"
    and ev: "pool_exec env (PSubmit c) p = Some (r, p')" and c: "spared calm cid c \<longrightarrow> ctx_err c = None"
  shows "inv_run calm cid p'"
proof -
  have i: "inv_life p" "inv_tasks p" "inv_order p" "0 < length (workers p)" using inv unfolding pool_inv_def by blast+
  have bound: "t < length (contexts p)" if "placed p j t" for j t using i(2) that by (auto simp: inv_tasks_def)
  from ev i(1,4) HOL.refl HOL.refl show ?thesis
  proof (cases rule: psubmit_cases)
    case queued
    let ?t = "length (contexts p)" and ?i = "workerIndex (length (workers p)) c"
    have placed: "placed p' j t \<longleftrightarrow> placed p j t \<or> j = ?i \<and> t = ?t" for j t
      using queued(5) by (auto simp: placed_def queued(7) held_def nth_list_update)
    have "ctx_err (ctx p' t) = None" if "placed p' j t" "spared calm cid (ctx p' t)" for j t
      using that run c bound unfolding placed by (auto simp: queued(7) nth_append inv_run_def)
    moreover have "at_work p' t = at_work p t" for t
      using queued(5) by (auto simp: at_work_def queued(7) nth_list_update)
    moreover have "\<forall>t\<in>set (received p). ctx p' t = ctx p t" "received p' = received p"
      using i(3) by (auto simp: inv_order_def queued(7) nth_append)
    ultimately show ?thesis using run unfolding inv_run_def by simp
  qed (rule inv_run_frame [OF run i(3)]; use bound in \<open>auto simp: nth_append\<close>)+
qed

lemma inv_run_work:
  assumes run: "inv_run calm cid p" and inv: "pool_inv n_workers q_size p"
    and ev: "worker_run env d i p = Some p'" and live: "\<not> crashed p'"
  shows "inv_run calm cid p'"
  using ev
proof (cases rule: run_cases)
  case (1 t c m b)
  have i: "inv_tasks p" "inv_order p" using inv by (auto simp: pool_inv_def)
  have here: "placed p i t" using 1(1,2) by (simp add: placed_def held_def)
  then have t: "t < length (contexts p)" "waiting (ctx p t)" using i(1) by (auto simp: inv_tasks_def)
  have st: "static c = static (ctx p t)"
    using run_static [OF i(1) here, of c env] 1(4,5) by auto
  have ended: "chain_run c \<or> \<not> spared calm cid c \<and> waiting c"
  proof (cases "ctx_err (ctx p t)")
    case None
    have "step (ctx p t) = -1" "started (trace (ctx p t)) = []" using t(2) by (simp_all add: waiting_def)
    then obtain c' r where n: "Context_Next env (ctx p t) = Some (c', r)" "running c'" "progress (advance (ctx p t)) c'"
      "r = Returned \<longrightarrow> int (length (handlers (ctx p t))) \<le> step c'"
      by (rule Context_Next_total [where env = env]) blast
    moreover have "c' = c" "r = Returned" using None 1(3,5) n(1) live by auto
    ultimately have "chain_run c" by (auto simp: chain_run_def running_def progress_def min_def)
    then show ?thesis by blast
  next
    case (Some e)
    then have "\<not> spared calm cid (ctx p t)" using run here unfolding inv_run_def by (metis option.distinct(1))
    then show ?thesis using 1(4) Some t(2) by simp
  qed
  have placed: "placed p' j u \<Longrightarrow> placed p j u" for j u
    using 1(1) by (auto simp: placed_def 1(3) held_def nth_list_update split: if_splits)
  have "ctx p' u = (if u = t then finish c else ctx p u)" for u using t(1) by (simp add: 1(3) nth_list_update)
  moreover have "at_work p' u" if "at_work p u" "u \<noteq> t" for u
    by (rule at_work_update [OF that(1) 1(1)]) (use that(2) 1(2,3) in simp_all)
  moreover have "received p' = received p" by (simp add: 1(3))
  moreover have "u \<noteq> t" if "placed p' j u" for j u
    using inv_tasks_run [OF i(1) ev] that by (auto simp: inv_tasks_def 1(3))
  moreover have "ctx_err (ctx p' u) = None" if "placed p' j u" "spared calm cid (ctx p' u)" for j u
    using run placed [OF that(1)] that calculation unfolding inv_run_def by metis
  ultimately show ?thesis using run ended unfolding inv_run_def by (auto split: if_splits)
qed

lemma inv_run_receive:
  assumes run: "inv_run calm cid p" and ev: "worker_receive i p = Some p'"
  shows "inv_run calm cid p'"
  using ev
proof (cases rule: receive_cases)
  case (1 t q)
  have "placed p' j u = placed p j u" for j u
    using 1(1,4,5) by (auto simp: placed_def 1(6) held_def nth_list_update)
  moreover have "at_work p' u" if "at_work p u \<or> u = t" for u
  proof (cases "u = t")
    case True
    then show ?thesis using 1(1) unfolding at_work_def by (intro exI [of _ i]) (simp add: 1(6))
  next
    case False
    with that have "at_work p u" by simp
    then show ?thesis by (rule at_work_update [OF _ 1(1)]) (use 1(4,6) in simp_all)
  qed
  moreover have "received p' = received p @ [t]" "contexts p' = contexts p" by (simp_all add: 1(6))
  ultimately show ?thesis using run unfolding inv_run_def by auto
qed

lemma inv_run_event:
  assumes run: "inv_run calm cid p" and inv: "pool_inv n_workers q_size p"
    and ev: "pool_exec env ev p = Some (r, p')" and live: "\<not> crashed p'"
    and spares: "\<not> (calm \<and> cancels cid p ev)" and new: "\<forall>c. ev = PSubmit c \<longrightarrow> spared calm cid c \<longrightarrow> ctx_err c = None"
  shows "inv_run calm cid p'"
proof -
  have i: "inv_tasks p" "inv_order p" using inv by (auto simp: pool_inv_def)
  have bound: "t < length (contexts p)" if "placed p j t" for j t using i(1) that by (auto simp: inv_tasks_def)
  show ?thesis
  proof (cases ev)
    case (PSubmit c)
    then show ?thesis using inv_run_submit [OF run inv] ev new by blast
  next
    case (PRun d i)
    then show ?thesis using inv_run_work [OF run inv _ live] ev by auto
  next
    case (PReceive i)
    then show ?thesis using inv_run_receive [OF run] ev by auto
  next
    case (PExit j)
    then show ?thesis
      using ev bound by (intro inv_run_frame [OF run i(2)]) (auto elim!: exit_cases simp: nth_list_update)
  next
    case (PFinish t)
    have "t \<noteq> u" if "placed p j u" for j u using ev PFinish that i(1) by (auto simp: inv_tasks_def split: if_splits)
    then show ?thesis
      using ev bound PFinish
      by (intro inv_run_frame [OF run i(2)]) (auto simp: set_context_def nth_list_update split: if_splits)
  next
    case (PCancel t)
    then show ?thesis
      using ev bound spares
      by (intro inv_run_frame [OF run i(2)]) (auto simp: set_context_def nth_list_update spared_def split: if_splits)
  next
    case PForceCancel
    then show ?thesis
      using ev bound spares by (intro inv_run_frame [OF run i(2)]) (auto simp: forceCancel_def spared_def)
  qed (use ev bound in \<open>(intro inv_run_frame [OF run i(2)]; auto simp: pool_start_def stopAccepting_def drain_begin_def
      drain_finish_def Let_def split: if_splits workerPoolState.splits)\<close>)+
qed

section \<open>Requests keep the server sound\<close>

text \<open>
  A server at work: well formed, with a pool that has run from its creation, routing as it was
  frozen; and the tasks of the connection \<open>cid\<close> are the messages \<open>ms\<close>.
\<close>

definition in_service :: "'w handler_env \<Rightarrow> uint64 \<Rightarrow> bool \<Rightarrow> 'v prog routing \<Rightarrow> Message list \<Rightarrow> ('v, 'w) Server \<Rightarrow> bool" where
  "in_service env cid calm routing ms s \<longleftrightarrow> server_wf s \<and> pool_of env (options s) (workerPool s) \<and> srv_routing s = routing \<and>
     connection_tasks (workerPool s) cid (accepted (workerPool s)) = map (routed routing) ms \<and>
     inv_run calm cid (workerPool s)"

lemma serving_pool_inv:
  "in_service env cid calm routing ms s \<Longrightarrow> pool_inv (WorkerCount (options s)) (WorkerQueueCapacity (options s)) (workerPool s)"
  unfolding in_service_def using pool_reachable_inv by blast

lemma serving_event:
  assumes s: "in_service env cid calm routing ms s" and ev: "pool_exec env ev (workerPool s) = Some (r, p')" and live: "\<not> crashed p'"
    and calm: "\<not> (calm \<and> cancels cid (workerPool s) ev)" "\<forall>c. ev = PSubmit c \<longrightarrow> spared calm cid c \<longrightarrow> ctx_err c = None"
    and tasks: "connection_tasks p' cid (accepted p') = map (routed routing) ms'"
  shows "in_service env cid calm routing ms' (s\<lparr>workerPool := p'\<rparr>)"
proof -
  have "pool_of env (options s) p'"
    using s live pool_reachable.event [OF _ _ ev] by (simp add: in_service_def)
  moreover from this have "pool_inv (WorkerCount (options s)) (WorkerQueueCapacity (options s)) p'"
    using pool_reachable_inv by blast
  moreover have "inv_run calm cid p'"
    using s inv_run_event [OF _ serving_pool_inv [OF s] ev live calm] by (simp add: in_service_def)
  ultimately show ?thesis using s tasks by (auto simp: in_service_def server_wf_def pool_inv_def)
qed

lemma serving_other:
  assumes "in_service env cid calm routing ms s"
  shows "in_service env cid calm routing ms (s\<lparr>workerPool := other_event env cid calm ev (workerPool s)\<rparr>)"
proof (cases "foreign cid ev \<and> \<not> (calm \<and> cancels cid (workerPool s) ev) \<and>
    (\<exists>r p'. pool_exec env ev (workerPool s) = Some (r, p') \<and> \<not> crashed p')")
  case True
  then obtain r p' where ev: "foreign cid ev" "pool_exec env ev (workerPool s) = Some (r, p')" "\<not> crashed p'"
    and calm: "\<not> (calm \<and> cancels cid (workerPool s) ev)" by blast
  have "connection_tasks p' cid (accepted p') = map (routed routing) ms"
    using connection_tasks_event [OF serving_pool_inv [OF assms] ev(2), of cid] ev(1) assms
    by (cases ev) (auto simp: in_service_def)
  moreover have "\<forall>c. ev = PSubmit c \<longrightarrow> spared calm cid c \<longrightarrow> ctx_err c = None" using ev(1) by (auto simp: spared_def)
  ultimately show ?thesis using serving_event [OF assms ev(2,3) calm] ev calm by (simp add: other_event_def)
next
  case False
  then have "other_event env cid calm ev (workerPool s) = workerPool s" by (auto simp: other_event_def split: option.splits)
  then show ?thesis using assms by simp
qed

lemma serving_others:
  "in_service env cid calm routing ms s \<Longrightarrow> in_service env cid calm routing ms (s\<lparr>workerPool := run_others env cid calm evs (workerPool s)\<rparr>)"
proof (induction evs arbitrary: s)
  case (Cons ev evs)
  from Cons.IH [OF serving_other [OF Cons.prems, of ev]] show ?case by (simp add: run_others_def)
qed (simp add: run_others_def)

text \<open>\<open>handleRequest\<close> in terms of events of the pool: a submission, and after a refusal the end of the context.\<close>

lemma handleRequest_events:
  assumes s: "server_wf s" "inv_tasks (workerPool s)" and hr: "handleRequest cid transport pe w request s = (r, s')"
    and c: "c = requestContext s cid transport pe w request"
  obtains (accepted) "r = Ok None" "s' = s\<lparr>workerPool := workerPool s'\<rparr>"
      "pool_exec env (PSubmit c) (workerPool s) = Some (Some Submitted, workerPool s')"
  | (refused) err p where "r = Ok (Some err)" "s' = s\<lparr>workerPool := workerPool s'\<rparr>"
      "pool_exec env (PSubmit c) (workerPool s) = Some (Some (Rejected err), p)"
      "pool_exec env (PFinish (length (contexts (workerPool s)))) p = Some (None, workerPool s')"
proof -
  let ?t = "length (contexts (workerPool s))"
  let ?p = "(workerPool s)\<lparr>contexts := contexts (workerPool s) @ [c]\<rparr>"
  obtain sr p where sub: "submit ?t ?p = (sr, p)" by (cases "submit ?t ?p")
  have fresh: "step c = -1" "trace c = []"
    by (simp_all add: c requestContext_def newContext_def Let_def split: option.split)
  then have ev: "pool_exec env (PSubmit c) (workerPool s) = Some (Some sr, p)" using sub by simp
  have new: "?t \<notin> tasks (workerPool s)" using s(2) by (auto simp: inv_tasks_def)
  have eq: "(r, s') = (case sr of Submitted \<Rightarrow> (Ok None, s\<lparr>workerPool := p\<rparr>)
       | Rejected err \<Rightarrow> (Ok (Some err), s\<lparr>workerPool := set_context ?t (finish (ctx p ?t)) p\<rparr>)
       | SendOnClosed \<Rightarrow> (Panic, s\<lparr>workerPool := p\<rparr>))"
    using sub unfolding hr [symmetric] by (simp add: handleRequest_def Let_def c split: submit_result.split)
  show thesis
  proof (cases sr)
    case Submitted
    with eq ev show thesis by (intro accepted) simp_all
  next
    case (Rejected err)
    have "inv_life (workerPool s)" using s(1) by (simp add: server_wf_def)
    from ev this workers_pos [OF s(1)] HOL.refl HOL.refl new Rejected
    have "?t \<notin> tasks p" "?t < length (contexts p)" by (cases rule: psubmit_cases; simp)+
    then show thesis using eq ev Rejected by (intro refused [of err p]) simp_all
  next
    case SendOnClosed
    with eq handleRequest_wf(2) [OF s(1) hr] show thesis by simp
  qed
qed

lemma serving_handleRequest:
  assumes s: "in_service env cid calm routing ms s" and calm: "calm \<longrightarrow> pe = None"
    and hr: "handleRequest cid transport pe w (newRequest m) s = (r, s')"
  shows "r = Ok None \<and> in_service env cid calm routing (ms @ [m]) s' \<or> (\<exists>err. r = Ok (Some err)) \<and> in_service env cid calm routing ms s'"
proof -
  let ?c = "requestContext s cid transport pe w (newRequest m)"
  have wf: "server_wf s" and inv: "inv_tasks (workerPool s)"
    using s serving_pool_inv [OF s] by (auto simp: in_service_def pool_inv_def)
  have c: "ctx_Connection ?c = Some cid" "(Request_Message (ctx_Request ?c), handlers ?c) = routed routing m" "ctx_err ?c = pe"
    using s by (simp_all add: requestContext_fields routed_def newRequest_def in_service_def split: option.split)
  have tasks: "connection_tasks (workerPool s) cid (accepted (workerPool s)) = map (routed routing) ms"
    and live: "\<not> crashed (workerPool s)" using s by (simp_all add: in_service_def)
  have new: "\<forall>c. PSubmit ?c = PSubmit c \<longrightarrow> spared calm cid c \<longrightarrow> ctx_err c = None" using calm c(3) by (auto simp: spared_def)
  from wf inv hr HOL.refl show ?thesis
  proof (cases rule: handleRequest_events [where env = env])
    case accepted
    have "connection_tasks (workerPool s') cid (accepted (workerPool s')) = map (routed routing) (ms @ [m])"
      using connection_tasks_event [OF serving_pool_inv [OF s] accepted(3), of cid] c tasks by simp
    moreover have "\<not> crashed (workerPool s')" using submit_crashed accepted(3) live by metis
    ultimately have "in_service env cid calm routing (ms @ [m]) (s\<lparr>workerPool := workerPool s'\<rparr>)"
      using serving_event [OF s accepted(3) _ _ new] by simp
    then show ?thesis using accepted(1,2) by simp
  next
    case (refused err p)
    have "connection_tasks p cid (accepted p) = map (routed routing) ms"
      using connection_tasks_event [OF serving_pool_inv [OF s] refused(3), of cid] tasks by simp
    moreover have live': "\<not> crashed p" using submit_crashed refused(3) live by metis
    ultimately have s1: "in_service env cid calm routing ms (s\<lparr>workerPool := p\<rparr>)"
      using serving_event [OF s refused(3) _ _ new] by simp
    have fin: "pool_exec env (PFinish (length (contexts (workerPool s)))) (workerPool (s\<lparr>workerPool := p\<rparr>)) = Some (None, workerPool s')"
      using refused(4) by simp
    have "connection_tasks (workerPool s') cid (accepted (workerPool s')) = map (routed routing) ms"
      using connection_tasks_event [OF serving_pool_inv [OF s1] fin, of cid] s1 by (simp add: in_service_def)
    moreover have "\<not> crashed (workerPool s')" using finish_crashed [OF refused(4)] live' by simp
    ultimately have "in_service env cid calm routing ms ((s\<lparr>workerPool := p\<rparr>)\<lparr>workerPool := workerPool s'\<rparr>)"
      using serving_event [OF s1 fin] by simp
    then show ?thesis using refused(1,2) by simp
  qed
qed

lemma serving_request:
  assumes "in_service env cid calm routing ms s" "serveRequest env cid transport calm slots (newRequest m) (s, n) = (e, s', n')"
  shows "in_service env cid calm routing (if e = None then ms @ [m] else ms) s'"
proof -
  let ?s = "s\<lparr>workerPool := run_others env cid calm (others (slots n)) (workerPool s)\<rparr>"
  obtain r t where hr: "handleRequest cid transport (taskContext_err (\<not> calm \<and> forced (slots n))) (request_world (slots n)) (newRequest m) ?s = (r, t)"
    by (metis surj_pair)
  have "calm \<longrightarrow> taskContext_err (\<not> calm \<and> forced (slots n)) = None" by (simp add: taskContext_err_def)
  from serving_handleRequest [OF serving_others [OF assms(1)] this hr] assms(2) hr show ?thesis
    by (auto simp: serveRequest_def Let_def)
qed

lemma serving_serve:
  assumes "in_service env cid calm routing ms s" "serve (serveRequest env cid transport calm slots) ns (s, n) = Some (e, s', n')"
  shows "in_service env cid calm routing (ms @ (if e = None then ns else butlast ns)) s'"
  using assms
proof (induction ns arbitrary: ms s n)
  case (Cons m ns)
  obtain e1 s1 n1 where sr: "serveRequest env cid transport calm slots (newRequest m) (s, n) = (e1, s1, n1)"
    by (metis surj_pair)
  note s1 = serving_request [OF Cons.prems(1) sr]
  show ?case
  proof (cases e1)
    case None
    with Cons.prems(2) sr have "serve (serveRequest env cid transport calm slots) ns (s1, n1) = Some (e, s', n')" by simp
    then have "in_service env cid calm routing ((ms @ [m]) @ (if e = None then ns else butlast ns)) s'" "ns = [] \<longrightarrow> e = None"
      using Cons.IH [of "ms @ [m]" s1 n1] s1 None by auto
    then show ?thesis by (cases "ns = []") auto
  next
    case (Some err)
    with Cons.prems(2) sr s1 show ?thesis by (auto split: if_splits)
  qed
qed simp

section \<open>A request is taken up in the end\<close>

text \<open>
  While the pool runs, its workers alone bring every queued task to its end: each of their steps
  reduces what is left to do, and one of them is possible as long as a task is queued or at work.
\<close>

fun working :: "('v, 'w) pool_event \<Rightarrow> bool" where
  "working (PReceive i) = True"
| "working (PRun d i) = True"
| "working _ = False"

definition workers_idle :: "('v, 'w) workerPool \<Rightarrow> bool" where
  "workers_idle p \<longleftrightarrow> (\<forall>w\<in>set (workers p). queue w = [] \<and> current w = None)"

definition open_pool :: "('v, 'w) workerPool \<Rightarrow> bool" where
  "open_pool p \<longleftrightarrow> (\<exists>n_workers q_size. pool_inv n_workers q_size p) \<and> pool_state p = workerPoolStateStarted"

lemma working_enabled:
  assumes life: "inv_life p" and tasks: "inv_tasks p" and st: "pool_state p = workerPoolStateStarted" and "\<not> workers_idle p"
  shows "\<exists>ev r p'. working ev \<and> pool_exec env ev p = Some (r, p')"
proof -
  from assms(4) obtain i where i: "i < length (workers p)" "queue (workers p ! i) \<noteq> [] \<or> current (workers p ! i) \<noteq> None"
    by (auto simp: workers_idle_def in_set_conv_nth)
  have w: "loop_started (workers p ! i)" "\<not> loop_done (workers p ! i)"
    using inv_life_worker [OF life i(1)] st by (simp_all add: worker_life_simps)
  show ?thesis
  proof (cases "current (workers p ! i)")
    case (Some t)
    then have "placed p i t" using i(1) by (simp add: placed_def held_def)
    then have "waiting (ctx p t)" using tasks by (simp add: inv_tasks_def)
    then obtain c r where "Context_Next env (ctx p t) = Some (c, r)"
      by (auto simp: waiting_def elim: Context_Next_total [where env = env])
    then have "pool_exec env (PRun 0 i) p \<noteq> None" using i(1) Some by (auto simp: worker_run_def split: result.split)
    then show ?thesis by (intro exI [of _ "PRun 0 i"]) auto
  next
    case None
    then have "pool_exec env (PReceive i) p \<noteq> None" using i w by (auto simp: worker_receive_def Let_def split: list.split)
    then show ?thesis by (intro exI [of _ "PReceive i"]) auto
  qed
qed

lemma working_internal: "working ev \<Longrightarrow> internal ev"
  by (cases ev) simp_all

lemma working_open:
  assumes "working ev" "pool_exec env ev p = Some (r, p')" "open_pool p"
  shows "open_pool p'" and "accepted p' = accepted p"
proof -
  have "pool_state p' = pool_state p \<and> accepted p' = accepted p"
    using assms(1,2) by (cases ev) (auto elim!: receive_cases run_cases)
  then show "open_pool p'" "accepted p' = accepted p"
    using assms(2,3) pool_inv_event unfolding open_pool_def by (metis, simp)
qed

interpretation wk: terminating "live_exec env" working open_pool "\<lambda>p. workers_idle p \<or> crashed p" work_left
  for env :: "'w handler_env"
proof unfold_locales
  fix p p' :: "('v, 'w) workerPool" and ev :: "('v, 'w) pool_event" and r
  assume inv: "open_pool p"
  then have life: "inv_life p" "inv_tasks p" "pool_state p = workerPoolStateStarted" by (auto simp: open_pool_def pool_inv_def)
  show "open_pool p'" "work_left p' < work_left p" if "working ev" "live_exec env ev p = Some (r, p')"
    using that inv working_open(1) [of ev env p r p'] internal_decreases [OF life(1) working_internal, of ev env r p']
    by (auto simp: live_exec_def split: if_splits)
  show "\<exists>ev r p'. working ev \<and> live_exec env ev p = Some (r, p') \<and> work_left p' < work_left p" if "\<not> (workers_idle p \<or> crashed p)"
    using that working_enabled [OF life] internal_decreases [OF life(1)] working_internal unfolding live_exec_def by metis
qed

lemma working_accepted:
  assumes "open_pool p" "\<forall>ev\<in>set evs. working ev" "run_ops (live_exec env) evs p = Some (rs, p')"
  shows "accepted p' = accepted p \<and> open_pool p'"
proof -
  have "open_pool q \<and> accepted q = accepted p" if "open_pool q' \<and> accepted q' = accepted p" "ev \<in> set evs" "live_exec env ev q' = Some (r, q)"
    for q q' ev r
    using that assms(2) working_open [of ev env q' r q] by (auto simp: live_exec_def split: if_splits)
  from run_ops_invariant [of "\<lambda>q. open_pool q \<and> accepted q = accepted p", OF this assms(3)] assms(1) show ?thesis by simp
qed

lemma idle_queue: "workers_idle p \<Longrightarrow> i < length (workers p) \<Longrightarrow> queue (workers p ! i) = []"
  by (simp add: workers_idle_def)

lemma idle_received:
  assumes "pool_inv n_workers q_size p" "workers_idle p"
  shows "tasks_of p cid (received p) = tasks_of p cid (accepted p)"
proof -
  have "unat cid mod length (workers p) < length (workers p)" using assms(1) by (simp add: pool_inv_def del: length_greater_0_conv)
  then show ?thesis using tasks_of_split [OF assms(1) HOL.refl, of cid] idle_queue [OF assms(2)] by (simp add: tasks_of_def)
qed

section \<open>From the bytes to the handlers\<close>

lemma reachable_run:
  assumes "pool_reachable env n_workers q_size p" "\<not> crashed p"
  shows "inv_run False cid p"
  using assms
proof (induction rule: pool_reachable.induct)
  case (start p)
  then show ?case by (auto simp: newWorkerPool_def inv_run_def spared_def split: if_splits)
next
  case (event p ev r p')
  then show ?case using inv_run_event [OF _ pool_reachable_inv [OF event(1)] event(3)] by (simp add: spared_def)
qed

lemma serving_new:
  assumes "server_wf s" "pool_of env (options s) (workerPool s)" "\<forall>c\<in>set (contexts (workerPool s)). ctx_Connection c \<noteq> Some cid"
  shows "in_service env cid calm (srv_routing s) [] s"
proof -
  let ?p = "workerPool s"
  have inv: "inv_tasks ?p" "inv_order ?p" using assms(2) pool_reachable_inv by (auto simp: pool_inv_def)
  have none: "ctx_Connection (ctx ?p t) \<noteq> Some cid" if "t < length (contexts ?p)" for t using assms(3) that by simp
  have "tasks_of ?p cid (accepted ?p) = []"
    using inv(2) none by (auto simp: tasks_of_def inv_order_def filter_empty_conv)
  moreover have "inv_run calm cid ?p"
    using assms(2) reachable_run [of env "WorkerCount (options s)" "WorkerQueueCapacity (options s)" ?p cid] inv none
    unfolding inv_run_def spared_def inv_tasks_def inv_order_def by blast
  ultimately show ?thesis using assms(1,2) by (simp add: in_service_def connection_tasks_def)
qed

text \<open>The connection's requests in the pool, at any later moment.\<close>

lemma serving_outcome:
  assumes "in_service env cid calm routing ms s" "p = run_others env cid calm afterwards (workerPool s)"
  shows "connection_tasks p cid (accepted p) = map (routed routing) ms \<and>
    (\<exists>k\<le>length ms. connection_tasks p cid (received p) = map (routed routing) (take k ms) \<and> (workers_idle p \<longrightarrow> k = length ms)) \<and>
    (\<forall>t\<in>set (tasks_of p cid (received p)). at_work p t \<or> chain_run (ctx p t) \<or> \<not> calm \<and> waiting (ctx p t))"
proof -
  have s: "in_service env cid calm routing ms (s\<lparr>workerPool := p\<rparr>)" using serving_others [OF assms(1)] assms(2) by simp
  then have acc: "connection_tasks p cid (accepted p) = map (routed routing) ms" and run: "inv_run calm cid p"
    by (simp_all add: in_service_def)
  have inv: "pool_inv (WorkerCount (options s)) (WorkerQueueCapacity (options s)) p" using serving_pool_inv [OF s] by simp
  from tasks_of_split [OF inv HOL.refl, of cid] obtain k where k: "tasks_of p cid (received p) = take k (tasks_of p cid (accepted p))"
    by (metis append_eq_conv_conj)
  have len: "length (tasks_of p cid (accepted p)) = length ms" using arg_cong [OF acc, of length] by (simp add: connection_tasks_def)
  let ?k = "min k (length ms)"
  have "tasks_of p cid (received p) = take ?k (tasks_of p cid (accepted p))" using k len by (simp add: min_def)
  then have "connection_tasks p cid (received p) = map (routed routing) (take ?k ms)"
    using arg_cong [OF acc, of "take ?k"] by (simp add: connection_tasks_def take_map)
  moreover have "?k = length ms" if "workers_idle p"
    using arg_cong [OF idle_received [OF inv that, of cid], of length] k len by simp
  moreover have "at_work p t \<or> chain_run (ctx p t) \<or> \<not> calm \<and> waiting (ctx p t)" if "t \<in> set (tasks_of p cid (received p))" for t
    using that run by (auto simp: inv_run_def tasks_of_def spared_def)
  ultimately show ?thesis using acc by (intro conjI exI [of _ ?k]) auto
qed

text \<open>
  What a connection that has received the messages \<open>ms\<close> finds in the pool: \<open>n\<close> of them were
  accepted, all but perhaps the last one, and all while its reader runs; their tasks carry these
  messages in order, each with the handlers of its route; \<open>k\<close> of them, the first ones, have been
  taken up, and all if the workers are idle; each of those is at work, or its handlers have been
  started one after the other, or it was cancelled before, which does not happen if \<open>calm\<close>.
\<close>

definition requests_in_order :: "bool \<Rightarrow> uint64 \<Rightarrow> 'v prog routing \<Rightarrow> Message list \<Rightarrow> bool \<Rightarrow> ('v, 'w) workerPool \<Rightarrow> bool" where
  "requests_in_order calm cid routing ms running_reader p \<longleftrightarrow> (\<exists>n k.
     k \<le> n \<and> n \<le> length ms \<and> length ms \<le> n + 1 \<and> (running_reader \<longrightarrow> n = length ms) \<and> (workers_idle p \<longrightarrow> k = n) \<and>
     connection_tasks p cid (accepted p) = map (routed routing) (take n ms) \<and>
     connection_tasks p cid (received p) = map (routed routing) (take k ms) \<and>
     (\<forall>t\<in>set (tasks_of p cid (received p)). at_work p t \<or> chain_run (ctx p t) \<or> \<not> calm \<and> waiting (ctx p t)))"

lemma requests_in_orderI:
  assumes "server_wf s" "pool_of env (options s) (workerPool s)" "\<forall>c\<in>set (contexts (workerPool s)). ctx_Connection c \<noteq> Some cid"
    and srv: "serve (serveRequest env cid transport calm slots) ms (s, 0) = Some (e, t)" "running_reader \<longrightarrow> e = None"
    and p: "p = run_others env cid calm afterwards (workerPool (fst t))"
  shows "requests_in_order calm cid (srv_routing s) ms running_reader p"
proof -
  define n where "n = (if e = None then length ms else length ms - 1)"
  have take: "(if e = None then ms else butlast ms) = take n ms" by (simp add: n_def butlast_conv_take)
  have "serve (serveRequest env cid transport calm slots) ms (s, 0) = Some (e, fst t, snd t)" using srv(1) by simp
  from serving_serve [OF serving_new [OF assms(1-3)] this] take
  have "in_service env cid calm (srv_routing s) (take n ms) (fst t)" by simp
  note out = serving_outcome [OF this p]
  have n: "n \<le> length ms" "length ms \<le> n + 1" "running_reader \<longrightarrow> n = length ms" using srv(2) by (auto simp: n_def)
  from out obtain k where "k \<le> length (take n ms)" "connection_tasks p cid (received p) = map (routed (srv_routing s)) (take k (take n ms))"
    "workers_idle p \<longrightarrow> k = length (take n ms)" by blast
  then have "k \<le> n" "connection_tasks p cid (received p) = map (routed (srv_routing s)) (take k ms)" "workers_idle p \<longrightarrow> k = n"
    using n(1) by (simp_all add: min_absorb1 min_absorb2)
  then show ?thesis using n out unfolding requests_in_order_def by blast
qed

section \<open>From the bytes to the handlers\<close>

text \<open>
  A connection with a new ID is opened on a well-formed server, and its reader runs, interleaved
  with the connection's other goroutines and with the events of the pool. The messages read have,
  one after the other, the encodings that make up the bytes received, and their requests are
  served in order.\<close>

lemma tcp_end_to_end:
  assumes "server_wf s" and "pool_of env (options s) (workerPool s)"
    and "\<forall>c\<in>set (contexts (workerPool s)). ctx_Connection c \<noteq> Some cid"
    and "newConnection TransportTCP (MaxFrameLength (options s)) writeBufferSize now m (s, 0) = Ok c0"
    and "run_ops (tcp_exec (serveRequest env cid TransportTCP calm slots)) evs c0 = Some (rs, c)"
    and "p = run_others env cid calm afterwards (workerPool (fst (server c)))"
  shows "(\<exists>frames rest. map Encoder_Encode (handled c) = map Ok frames \<and> rx c = concat frames @ rest) \<and>
    requests_in_order calm cid (srv_routing s) (handled c) (\<not> reader_done (base c)) p"
proof
  have "transport_reachable (\<lambda>now (input, readErr). tcp_reader (serveRequest env cid TransportTCP calm slots) now input readErr)
      (MaxFrameLength (options s)) c"
    unfolding transport_reachable_def using assms(4,5) by blast
  moreover have "8 \<le> MaxFrameLength (options s)" using assms(1) by (simp add: server_wf_def)
  ultimately have "tcp.delivered (MaxFrameLength (options s)) c" by (intro tcp.reachable_delivered)
  then show "\<exists>frames rest. map Encoder_Encode (handled c) = map Ok frames \<and> rx c = concat frames @ rest"
    unfolding tcp.delivered_def using carries_maps by blast
  obtain e where "serve (serveRequest env cid TransportTCP calm slots) (handled c) (s, 0) = Some (e, server c)"
    "\<not> reader_done (base c) \<longrightarrow> e = None"
    using tcps.run_served [OF assms(4,5)] unfolding tcps.served_from_def by blast
  then show "requests_in_order calm cid (srv_routing s) (handled c) (\<not> reader_done (base c)) p"
    using assms(6) by (rule requests_in_orderI [OF assms(1-3)])
qed

lemma ws_end_to_end:
  assumes "server_wf s" and "pool_of env (options s) (workerPool s)"
    and "\<forall>c\<in>set (contexts (workerPool s)). ctx_Connection c \<noteq> Some cid"
    and "newConnection TransportWebSocket (MaxFrameLength (options s)) writeBufferSize now m (s, 0) = Ok c0"
    and "run_ops (ws_exec (serveRequest env cid TransportWebSocket calm slots)) evs c0 = Some (rs, c)"
    and "p = run_others env cid calm afterwards (workerPool (fst (server c)))"
  shows "(\<exists>frames rest. map Encoder_Encode (handled c) = map Ok frames \<and> rx c = concat frames @ rest \<and>
      (\<not> reader_done (base c) \<longrightarrow> rest = [])) \<and>
    requests_in_order calm cid (srv_routing s) (handled c) (\<not> reader_done (base c)) p"
proof
  have "transport_reachable (ws_reader (serveRequest env cid TransportWebSocket calm slots)) (MaxFrameLength (options s)) c"
    unfolding transport_reachable_def using assms(4,5) by blast
  moreover have "8 \<le> MaxFrameLength (options s)" using assms(1) by (simp add: server_wf_def)
  ultimately show "\<exists>frames rest. map Encoder_Encode (handled c) = map Ok frames \<and> rx c = concat frames @ rest \<and>
      (\<not> reader_done (base c) \<longrightarrow> rest = [])"
    using ws_reader_delivers by blast
  obtain e where "serve (serveRequest env cid TransportWebSocket calm slots) (handled c) (s, 0) = Some (e, server c)"
    "\<not> reader_done (base c) \<longrightarrow> e = None"
    using wss.run_served [OF assms(4,5)] unfolding wss.served_from_def by blast
  then show "requests_in_order calm cid (srv_routing s) (handled c) (\<not> reader_done (base c)) p"
    using assms(6) by (rule requests_in_orderI [OF assms(1-3)])
qed

section \<open>Property\<close>



end
