(* ===== verification/Integration.thy ===== *)
theory Integration
  imports Shutdown Requests
begin

text \<open>
  The request path inside the whole system: in every reachable state of the system of the theory
  \<open>Lifecycle\<close> in which the server runs, the server and its pool are as the theory \<open>Requests\<close> needs
  them, for every connection that is opened next.
\<close>

section \<open>What a step of the system does to the server\<close>

lemma shutdownOwner_srv:
  "shutdownOwner ev s = Some s' \<Longrightarrow> options (srv s') = options (srv s) \<and> srv_routing (srv s') = srv_routing (srv s) \<and> manager s' = manager s"
proof (cases ev)
  case Go
  assume "shutdownOwner ev s = Some s'"
  with Go show ?thesis
    by (cases "owner_at (lc s)") (auto split: if_splits list.splits waiter.splits option.splits)
qed (auto split: if_splits owner_pc.splits option.splits)

lemma manager_groups [simp]:
  "length (connectionGroups (addConnection ID c m)) = length (connectionGroups m)"
  "length (connectionGroups (remove_begin ID c m)) = length (connectionGroups m)"
  "length (connectionGroups (remove_end ID c m)) = length (connectionGroups m)"
  "length (connectionGroups (markFinalized ID c m)) = length (connectionGroups m)"
  by (simp_all add: addConnection_def remove_begin_def remove_end_def markFinalized_def Let_def)

lemma sys_exec_srv:
  assumes "sys_exec grow env ev s = Some s'"
  obtains (frame) "options (srv s') = options (srv s)" "srv_routing (srv s') = srv_routing (srv s)"
      "length (connectionGroups (manager s')) = length (connectionGroups (manager s))"
      "pool s' = pool s \<or> (\<exists>pev r. pool_exec env pev (pool s) = Some (r, pool s') \<and> from_connection (phases s) pev)"
  | (configure) opts where "lc_state (lc s) = stateNew" "srv s' = (srv s)\<lparr>options := opts\<rparr>"
  | (route) rop err w where "application_op rop" "routing_step grow (lc_state (lc s), rop) (srv_routing (srv s)) = Some (err, w)"
      "srv s' = (srv s)\<lparr>srv_routing := w\<rparr>"
  | (prepare) r where "run_at (lc s) = RunPrepare" "prepareRun grow (srv s) = (r, srv s')"
proof -
  have same: thesis if "srv s' = srv s" using that by (intro frame) simp_all
  have pool: thesis if "srv s' = (srv s)\<lparr>workerPool := p\<rparr>" "pool_exec env pev (pool s) = Some (r, p)" "from_connection (phases s) pev"
    for p pev r
    by (rule frame) (use that in \<open>simp_all, blast\<close>)
  show thesis
  proof (cases ev)
    case (ERun rev)
    show thesis
    proof (cases rev)
      case (Prepared err)
      then obtain r where "prepareRun grow (srv s) = (r, srv s')" "run_at (lc s) = RunPrepare"
        using assms ERun by (auto simp: Let_def split: prod.splits if_splits)
      then show thesis by (intro prepare)
    next
      case (Committed e)
      then have "srv s' = srv s \<or> srv s' = (srv s)\<lparr>workerPool := pool_start (pool s)\<rparr>"
        using assms ERun by (auto split: if_splits)
      then show thesis using same pool [of "pool_start (pool s)" PStart None] by auto
    qed (rule same, use assms ERun in \<open>auto split: if_splits\<close>)+
  next
    case (EOwner oev)
    then have "shutdownOwner oev s = Some s'" using assms by simp
    from shutdownOwner_srv [OF this] shutdownOwner_pool [OF this, of env] show thesis by (intro frame) simp_all
  next
    case (EPool pev)
    then obtain r p where "pool_exec env pev (pool s) = Some (r, p)" "from_connection (phases s) pev" "s' = set_pool p s"
      using assms by (auto split: if_splits)
    then show thesis using pool by simp
  next
    case (EConfigure opts)
    then show thesis using assms by (intro configure [of opts]) (auto split: if_splits)
  next
    case (ERoute rop)
    then show thesis using assms route by (auto split: if_splits)
  next
    case (EFinalize cid hook panicked)
    then show thesis using assms by (intro frame) (auto simp: conn_finalize_def split: if_splits phase.splits)
  next
    case (EOpen i transport now)
    then show thesis using assms
      by (intro frame) (auto simp: open_connection_def nextConnectionID_def Let_def split: if_splits)
  qed (rule same, use assms in \<open>auto simp: accept_tcp_def upgrade_begin_def upgrade_check_def setup_fail_def setup_finish_def
      conn_work_def Let_def split: if_splits setup_pc.splits\<close>)+
qed

text \<open>A run that has been prepared.\<close>

lemma prepareRun_ready:
  assumes "routing_inv (srv_routing sv)" "prepareRun grow sv = (r, sv')"
  shows "sv' = sv \<and> r \<noteq> Ok () \<or> server_wf sv' \<and> contexts (workerPool sv') = [] \<and> runtimeRoutes (srv_routing sv') \<noteq> None"
proof (cases "checkConfiguration (options sv)")
  case (Some err)
  then show ?thesis using assms(2) by (auto simp: prepareRun_def)
next
  case None
  then have opts: "options_ok (options sv)" "8 \<le> MaxFrameLength (options sv)" by (simp_all add: checkConfiguration_None)
  obtain m p where mp: "makeConnectionManager (ConnectionGroupsCount (options sv)) = (Ok m :: (go_error, _) outcome)"
    "newWorkerPool (WorkerCount (options sv)) (WorkerQueueCapacity (options sv)) = (Ok p :: (go_error, ('a, 'b) workerPool) outcome)"
    "manager_inv id m" "length (connectionGroups m) = nat (sint (ConnectionGroupsCount (options sv)))" "inv_life p"
    "length (workers p) = unat (WorkerCount (options sv))" "capacity p = unat (WorkerQueueCapacity (options sv))"
    using make_components [OF opts(1)] by metis
  have "contexts p = []" using mp(2) by (auto simp: newWorkerPool_def split: if_splits)
  moreover have "sv' = sv\<lparr>srv_routing := freeze grow (srv_routing sv), runtimeOpen := srv_connectionOpen sv,
     runtimeClose := srv_connectionClose sv, runtimeError := srv_connectionError sv, connectionManager := m, workerPool := p\<rparr>"
    using assms(2) None mp(1,2) by (auto simp: prepareRun_def Let_def split: option.splits)
  ultimately show ?thesis
    using mp(3-7) opts freeze_refines(1) [OF assms(1), of grow] by (simp add: server_wf_def freeze_def case_prod_beta)
qed

section \<open>A system that serves\<close>

text \<open>
  The server is well formed from the preparation of its run on, and every request in the pool
  belongs to a connection that has been opened.
\<close>

fun prepared :: "run_pc \<Rightarrow> bool" where
  "prepared RunNone = False"
| "prepared RunPrepare = False"
| "prepared (RunRollback err) = False"
| "prepared (RunReturned r) = False"
| "prepared _ = True"

definition service_ok :: "('v, 'w) system \<Rightarrow> bool" where
  "service_ok s \<longleftrightarrow> routing_inv (srv_routing (srv s)) \<and>
     (lc_state (lc s) = stateNew \<longrightarrow> runtimeRoutes (srv_routing (srv s)) = None) \<and>
     (runtimeRoutes (srv_routing (srv s)) \<noteq> None \<longrightarrow> server_wf (srv s)) \<and>
     (prepared (run_at (lc s)) \<longrightarrow> runtimeRoutes (srv_routing (srv s)) \<noteq> None) \<and>
     (\<forall>c\<in>set (contexts (pool s)). \<exists>cid. ctx_Connection c = Some cid \<and> phases s cid \<noteq> Absent)"

lemma event_contexts:
  assumes inv: "pool_inv n_workers q_size p" and ev: "pool_exec env ev p = Some (r, p')" and c: "c \<in> set (contexts p')"
  shows "(\<exists>c0\<in>set (contexts p). ctx_Connection c = ctx_Connection c0) \<or> ev = PSubmit c"
proof -
  have i: "inv_life p" "inv_tasks p" "0 < length (workers p)" using inv unfolding pool_inv_def by blast+
  obtain t where t: "t < length (contexts p')" "c = ctx p' t" using c by (metis in_set_conv_nth)
  show ?thesis
  proof (cases "t < length (contexts p)")
    case True
    then have "ctx_Connection c = ctx_Connection (ctx p t)"
      using event_static(2) [OF i(2,1,3) ev True] t(2) by (simp add: static_def)
    then show ?thesis using True nth_mem by blast
  next
    case False
    show ?thesis
    proof (cases ev)
      case (PSubmit d)
      from ev [unfolded PSubmit] i(1,3) HOL.refl HOL.refl have "contexts p' = contexts p @ [d]"
        by (cases rule: psubmit_cases) simp_all
      then show ?thesis using t False PSubmit by (auto simp: nth_append less_Suc_eq)
    qed (use ev t False in \<open>auto elim!: receive_cases run_cases exit_cases simp: pool_start_def stopAccepting_def forceCancel_def
        drain_begin_def drain_finish_def set_context_def Let_def split: if_splits workerPoolState.splits\<close>)
  qed
qed

lemma phases_kept:
  assumes "sys_exec grow env ev s = Some s'" "phases s c \<noteq> Absent"
  shows "phases s' c \<noteq> Absent"
  using assms(1) by (cases rule: sys_exec_phase [where c = c]) (use assms(2) in auto)

lemma new_kept:
  assumes "sys_exec grow env ev s = Some s'" "life_inv (lc s)" "lc_state (lc s') = stateNew"
  shows "lc_state (lc s) = stateNew"
  using sys_exec_rank [OF assms(1)] assms(2,3) by (cases "lc_state (lc s)") auto

lemma routing_step_frozen:
  "application_op rop \<Longrightarrow> routing_step grow (st, rop) w = Some (err, w') \<Longrightarrow> runtimeRoutes w' = runtimeRoutes w"
  by (cases rop) (auto simp: routing_step_def Group_def Use_def RegisterRoute_def guarded_def Let_def case_prod_beta
      split: if_splits option.splits)

lemma prepared_kept:
  assumes "sys_exec grow env ev s = Some s'" "prepared (run_at (lc s'))"
  shows "prepared (run_at (lc s)) \<or> (\<exists>srv1. prepareRun grow (srv s) = (Ok (), srv1) \<and> srv s' = srv1)"
proof (cases ev)
  case (ERun rev)
  then show ?thesis
    using assms by (cases rev) (auto simp: Let_def abort_def bindTransport_def startupCanceled_def split: if_splits prod.splits option.splits run_pc.splits list.splits sum.splits)
next
  case (EOwner oev)
  then show ?thesis
    using assms by (cases oev) (auto simp: stopConnectionSetups_def closeServingResources_def owner_publish_def closeShutdown_def closeOnce_def
      split: if_splits list.splits waiter.splits option.splits owner_pc.splits)
qed (use assms in \<open>auto simp: claimRun_def Shutdown_begin_def startOwner_def service_exit_def accept_tcp_def upgrade_begin_def upgrade_check_def
    setup_fail_def open_connection_def setup_finish_def conn_work_def conn_finalize_def nextConnectionID_def beginConnectionSetup_def
    finishConnectionSetup_def Let_def split: if_splits setup_pc.splits phase.splits prod.splits option.splits serverState.splits\<close>)

lemma server_wf_frame:
  assumes "server_wf sv" "options sv' = options sv" "routing_inv (srv_routing sv')" "manager_inv id (connectionManager sv')"
    and "length (connectionGroups (connectionManager sv')) = length (connectionGroups (connectionManager sv))"
    and "inv_life (workerPool sv')" "length (workers (workerPool sv')) = length (workers (workerPool sv))"
      "capacity (workerPool sv') = capacity (workerPool sv)"
  shows "server_wf sv'"
  using assms by (simp add: server_wf_def)

lemma sys_inv_parts:
  assumes "sys_inv env s"
  obtains nw qs where "pool_inv nw qs (pool s)" "manager_inv id (manager s)" "life_inv (lc s)"
  using assms pool_reachable_inv unfolding sys_inv_def pool_ok_def registry_ok_def books_def by blast

lemma service_ok_exec:
  assumes ex: "sys_exec grow env ev s = Some s'" and live: "\<not> crashed (pool s)" and inv: "sys_inv env s" and ok: "service_ok s"
  shows "service_ok s'"
proof -
  obtain nw qs where p: "pool_inv nw qs (pool s)" "life_inv (lc s)" using inv by (rule sys_inv_parts)
  obtain nw' qs' where p': "pool_inv nw' qs' (pool s')" "manager_inv id (manager s')"
    using sys_inv_exec [OF ex live inv] by (rule sys_inv_parts)
  have life: "inv_life (pool s)" "0 < length (workers (pool s))" "inv_life (pool s')" using p(1) p'(1) unfolding pool_inv_def by blast+
  have old: "routing_inv (srv_routing (srv s))" "lc_state (lc s) = stateNew \<longrightarrow> runtimeRoutes (srv_routing (srv s)) = None"
    "runtimeRoutes (srv_routing (srv s)) \<noteq> None \<longrightarrow> server_wf (srv s)"
    "prepared (run_at (lc s)) \<longrightarrow> runtimeRoutes (srv_routing (srv s)) \<noteq> None"
    "\<forall>c\<in>set (contexts (pool s)). \<exists>cid. ctx_Connection c = Some cid \<and> phases s cid \<noteq> Absent"
    using ok unfolding service_ok_def by blast+
  note new = new_kept [OF ex p(2)] and kept = phases_kept [OF ex] and prep = prepared_kept [OF ex]
  have same: "\<forall>c\<in>set (contexts (pool s')). \<exists>cid. ctx_Connection c = Some cid \<and> phases s' cid \<noteq> Absent" if "contexts (pool s') = contexts (pool s)"
    using old(5) kept that by metis
  have prepared_ok: "prepared (run_at (lc s')) \<longrightarrow> runtimeRoutes (srv_routing (srv s')) \<noteq> None"
    if "runtimeRoutes (srv_routing (srv s)) \<noteq> None \<longrightarrow> runtimeRoutes (srv_routing (srv s')) \<noteq> None"
  proof
    assume "prepared (run_at (lc s'))"
    from prep [OF this] show "runtimeRoutes (srv_routing (srv s')) \<noteq> None"
      using old(4) that prepareRun_ready [OF old(1)] by blast
  qed
  from ex show ?thesis
  proof (cases rule: sys_exec_srv)
    case frame
    have pool: "length (workers (pool s')) = length (workers (pool s)) \<and> capacity (pool s') = capacity (pool s)"
      using frame(4) event_workers [OF _ life(1,2), of env] by metis
    have "\<forall>c\<in>set (contexts (pool s')). \<exists>cid. ctx_Connection c = Some cid \<and> phases s' cid \<noteq> Absent"
      using frame(4)
    proof (elim disjE exE conjE)
      fix pev r assume pev: "pool_exec env pev (pool s) = Some (r, pool s')" "from_connection (phases s) pev"
      show ?thesis
      proof
        fix c assume "c \<in> set (contexts (pool s'))"
        from event_contexts [OF p(1) pev(1) this] pev(2) old(5) show "\<exists>cid. ctx_Connection c = Some cid \<and> phases s' cid \<noteq> Absent"
          using kept by (auto split: option.splits; metis)
      qed
    qed (simp add: same)
    moreover have "runtimeRoutes (srv_routing (srv s')) \<noteq> None \<longrightarrow> server_wf (srv s')"
      using server_wf_frame [of "srv s" "srv s'"] old(1,3) frame(1-3) pool life(3) p'(2) by simp
    ultimately show ?thesis using old(1,2) new frame(2) prepared_ok unfolding service_ok_def by simp
  next
    case (configure opts)
    then have "runtimeRoutes (srv_routing (srv s')) = None" using old(2) by simp
    then show ?thesis using old(1,2) configure same prepared_ok unfolding service_ok_def by simp
  next
    case (route rop err w)
    have "routing_inv w" using rt.step_inv [OF old(1) route(2)] .
    moreover have "runtimeRoutes w = runtimeRoutes (srv_routing (srv s))" by (rule routing_step_frozen [OF route(1,2)])
    ultimately show ?thesis
      using old(2,3) new route(3) same prepared_ok server_wf_frame [of "srv s" "srv s'"] life(3) p'(2) unfolding service_ok_def by simp
  next
    case (prepare r)
    have "lc_state (lc s) = stateStarting" using stage_startup [OF p(2)] prepare(1) by simp
    then have "lc_state (lc s') \<noteq> stateNew" using new by auto
    then show ?thesis
      using prepareRun_ready [OF old(1) prepare(2)] same old(1,3) prepared_ok
      unfolding service_ok_def by (auto simp: server_wf_def)
  qed
qed

lemma service_ok_new:
  fixes sv :: "('a, 'b) Server"
  assumes "NewServer gomaxprocs serverOptions = Ok sv"
  shows "service_ok (newSystem sv)"
proof -
  have "srv_routing sv = serverRouting" "contexts (workerPool sv) = []"
    using assms by (auto simp: NewServer_def Let_def makeConnectionManager_def newWorkerPool_def obind_iffs split: option.splits if_splits)
  moreover have "runtimeRoutes (serverRouting :: 'a prog routing) = None" by (simp add: serverRouting_def newGroup_def newRouter_def)
  moreover have "routing_inv (serverRouting :: 'a prog routing)" by (rule serverRouting_init(1))
  ultimately show ?thesis unfolding service_ok_def newSystem_def newLifecycle_def by simp
qed

lemma reachable_service: "sys_reachable grow env s \<Longrightarrow> service_ok s"
proof (induction rule: sys_reachable.induct)
  case (new gomaxprocs serverOptions sv)
  then show ?case by (rule service_ok_new)
next
  case (event s ev s')
  then show ?case using service_ok_exec sys_reachable_inv by blast
qed

text \<open>A running system meets what the request path needs, for every ID that is not in use.\<close>

lemma running_system_serves:
  assumes "sys_reachable grow env s" "lc_state (lc s) = stateRunning" "\<not> crashed (pool s)"
  shows "server_wf (srv s)" and "pool_of env (options (srv s)) (pool s)"
    and "phases s cid = Absent \<Longrightarrow> \<forall>c\<in>set (contexts (pool s)). ctx_Connection c \<noteq> Some cid"
proof -
  have ok: "service_ok s" by (rule reachable_service [OF assms(1)])
  have inv: "sys_inv env s" by (rule sys_reachable_inv [OF assms(1)])
  have "run_at (lc s) = RunServing" using inv assms(2) by (simp add: sys_inv_def life_inv_def)
  then show wf: "server_wf (srv s)" using ok by (simp add: service_ok_def)
  obtain nw qs where reach: "pool_reachable env nw qs (pool s)" using inv by (auto simp: sys_inv_def pool_ok_def)
  from pool_reachable_inv [OF this] wf have "unat nw = unat (WorkerCount (options (srv s)))" "unat qs = unat (WorkerQueueCapacity (options (srv s)))"
    by (simp_all add: pool_inv_def server_wf_def)
  then show "pool_of env (options (srv s)) (pool s)" using reach assms(3) by (simp add: word_unat_eq_iff [symmetric])
  show "\<forall>c\<in>set (contexts (pool s)). ctx_Connection c \<noteq> Some cid" if "phases s cid = Absent"
    using ok that unfolding service_ok_def by force
qed

section \<open>A server with a route\<close>

text \<open>
  A server for both transports and for frames of at most 64 bytes, with a route for event 1; it is
  run. A peer connects and sends one message of nine bytes. Nothing else happens.
\<close>

definition site_options :: "ServerOption list" where
  "site_options = demo_options @ [WithTransports [TransportTCP, TransportWebSocket], WithServerMaxFrameLength 64]"

definition site_opts :: ServerOptions where
  "site_opts = demo_opts\<lparr>Transports := [TransportTCP, TransportWebSocket], MaxFrameLength := 64\<rparr>"

definition site_server :: "(nat, nat) Server" where
  "site_server = demo_server\<lparr>options := site_opts\<rparr>"

definition site_start :: "(nat, nat) sys_event list" where
  "site_start = [ERoute (OpRegisterRoute 0 1 (Some Return)), EClaim, ERun (Prepared None), ERun (Checked None), ERun (Bound None (Inr ''0.0.0.0:8899'')),
     ERun (Bound None (Inr ''0.0.0.0:8900'')), ERun (Bound None (Inr [])), ERun (LoadedKeys None), ERun (Checked None), ERun (Committed None)]"

lemma site_opts_ok: "options_ok site_opts" "8 \<le> MaxFrameLength site_opts"
  using default_options_ok by (simp_all add: site_opts_def demo_opts_def options_ok_def defaultServerOptions_def)

lemma site_new: "NewServer 1 site_options = Ok site_server"
proof -
  have "fold (\<lambda>option. option) site_options (defaultServerOptions 1) = site_opts"
    by (simp add: site_options_def demo_opts_fold site_opts_def WithTransports_def WithServerMaxFrameLength_def)
  then show ?thesis
    using site_opts_ok by (simp add: NewServer_def checkConfiguration_None [THEN iffD2])
      (simp add: site_opts_def demo_opts_def demo_pool_new makeConnectionManager_def site_server_def demo_server_def)
qed

definition site_routing :: "nat prog routing" where
  "site_routing = snd (RegisterRoute (\<lambda>n. n) stateNew 0 1 (Some Return) serverRouting)"

definition site_prepared :: "(nat, nat) Server" where
  "site_prepared = site_server\<lparr>srv_routing := freeze (\<lambda>n. n) site_routing\<rparr>"

lemma site_prepare: "prepareRun (\<lambda>n. n) (site_server\<lparr>srv_routing := site_routing\<rparr>) = (Ok (), site_prepared)"
proof -
  have "prepareWebSocketServer site_opts = None"
    by (simp add: prepareWebSocketServer_def site_opts_def demo_opts_def defaultServerOptions_def HandleFunc_panics_def)
  moreover have "ConnectionGroupsCount site_opts = 1" "WorkerCount site_opts = 1" "WorkerQueueCapacity site_opts = 1"
    by (simp_all add: site_opts_def demo_opts_def)
  ultimately show ?thesis
    using site_opts_ok by (simp add: prepareRun_def site_server_def demo_server_def site_prepared_def checkConfiguration_None [THEN iffD2]
        demo_pool_new makeConnectionManager_def)
qed

lemma site_transports: "Transports site_opts = [TransportTCP, TransportWebSocket]" "CertFile site_opts = []"
  by (simp_all add: site_opts_def demo_opts_def defaultServerOptions_def)

lemma site_route: "routing_step (\<lambda>n. n) (stateNew, OpRegisterRoute 0 1 (Some Return)) serverRouting = Some (None, site_routing)"
  by (simp add: routing_step_def site_routing_def RegisterRoute_def guarded_def mutationErrorLocked_def serverRouting_def newGroup_def newRouter_def Let_def
      case_prod_beta)

lemma site_run:
  "\<exists>s. sys_run (\<lambda>n. n) counting_env site_start (newSystem site_server) = Some s \<and> lc_state (lc s) = stateRunning \<and>
     srv s = site_prepared\<lparr>workerPool := pool_start demo_pool\<rparr> \<and> phases s = (\<lambda>_. Absent)"
  using site_route site_prepare
  by (simp add: site_start_def newSystem_def claimRun_def newLifecycle_def site_transports site_prepared_def site_server_def demo_server_def demo_pool_def
      startupCanceled_def bindTransport_def applyTLS_def commit_def launchServices_def closeStartup_def closeGate_def closeOnce_def Let_def)

definition site :: "(nat, nat) system" where
  "site = the (sys_run (\<lambda>n. n) counting_env site_start (newSystem site_server))"

lemma site_running:
  "sys_reachable (\<lambda>n. n) counting_env site" "lc_state (lc site) = stateRunning" "\<not> crashed (pool site)" "phases site cid = Absent"
  "srv site = site_prepared\<lparr>workerPool := pool_start demo_pool\<rparr>"
proof -
  obtain s where s: "sys_run (\<lambda>n. n) counting_env site_start (newSystem site_server) = Some s" "lc_state (lc s) = stateRunning"
    "srv s = site_prepared\<lparr>workerPool := pool_start demo_pool\<rparr>" "phases s = (\<lambda>_. Absent)"
    using site_run by blast
  then have "site = s" by (simp add: site_def)
  then show "sys_reachable (\<lambda>n. n) counting_env site" "lc_state (lc site) = stateRunning" "\<not> crashed (pool site)" "phases site cid = Absent"
    "srv site = site_prepared\<lparr>workerPool := pool_start demo_pool\<rparr>"
    using s sys_run_reachable [OF sys_reachable.new [OF site_new] s(1)] by (simp_all add: demo_pool_def pool_start_def)
qed

definition quiet_slot :: "nat \<Rightarrow> (nat, nat) slot" where
  "quiet_slot n = \<lparr>others = [], forced = False, request_world = 0\<rparr>"

definition site_conn :: "Transport \<Rightarrow> ((nat, nat) Server \<times> nat) transportConnection" where
  "site_conn transport = \<lparr>base = newNetConnection transport 1024 0 zeroServerMetrics, frameDecoder = server_decoder 64,
     server = (srv site, 0), rx = [], handled = []\<rparr>"

lemma site_conn_new:
  "newConnection transport (MaxFrameLength (options (srv site))) 1024 0 zeroServerMetrics (srv site, 0) = Ok (site_conn transport)"
  by (simp add: newConnection_def serverFrameDecoder_Ok site_conn_def site_running(5) site_prepared_def site_server_def demo_server_def site_opts_def)

lemma site_accepts:
  "\<exists>sv. serveRequest counting_env 5 transport True quiet_slot (newRequest \<lparr>Event = 1, Body = [7], BodySize = 1\<rparr>) (srv site, 0) = (None, (sv, 1))"
proof -
  let ?m = "\<lparr>Event = 1, Body = [7], BodySize = 1\<rparr>"
  obtain r s' where hr: "handleRequest 5 transport None 0 (newRequest ?m) (srv site) = (r, s')" by (metis surj_pair)
  have "r = Ok None"
    using running_system_serves(1) [OF site_running(1-3)] hr HOL.refl HOL.refl
    by (cases rule: handleRequest_cases)
      (simp_all add: site_running(5) site_prepared_def site_server_def demo_server_def demo_pool_def pool_start_def newWorker_def)
  then show ?thesis using hr by (simp add: serveRequest_def quiet_slot_def run_others_def taskContext_err_def)
qed

lemma site_tcp_run:
  assumes "h = serveRequest counting_env 5 TransportTCP True quiet_slot"
  shows "\<exists>rs c. run_ops (tcp_exec h) [TBase CStart, TRound 5 ([1, 0, 0, 0, 1, 0, 0, 0, 7, 9], None)] (site_conn TransportTCP) = Some (rs, c) \<and>
    handled c = [\<lparr>Event = 1, Body = [7], BodySize = 1\<rparr>] \<and> \<not> reader_done (base c)"
proof -
  let ?c = "(site_conn TransportTCP)\<lparr>base := start_conn (base (site_conn TransportTCP))\<rparr>"
  have "\<exists>c. tcp_reader h 5 [1, 0, 0, 0, 1, 0, 0, 0, 7, 9] None ?c = Some (Again, c) \<and> handled c = [\<lparr>Event = 1, Body = [7], BodySize = 1\<rparr>] \<and>
      reader_done (base c) = reader_done (base ?c)"
    using site_accepts [of TransportTCP, folded assms]
    by (clarsimp simp add: tcp_reader_def processInput_def server_decode_example sample_message dispatch_def after_input_def site_conn_def)
      (simp add: on_base_def after_input_def start_conn_def newNetConnection_def refreshActivity_def countReceived_def)
  moreover have "conn_started (base ?c)" "\<not> reader_done (base ?c)"
    by (simp_all add: site_conn_def start_conn_def newNetConnection_def)
  ultimately show ?thesis by auto
qed

lemma site_ws_run:
  "\<exists>rs c. run_ops (ws_exec h) [TBase CStart, TRound 5 (Inr (2, [1, 0, 0, 0, 1, 0, 0, 0, 7]))] (site_conn TransportWebSocket) = Some (rs, c)"
proof -
  let ?new = "site_conn TransportWebSocket"
  let ?c = "?new\<lparr>base := start_conn (base ?new)\<rparr>"
  let ?max = "MaxFrameLength (options (srv site))"
  have start: "ws_exec h (TBase CStart) ?new = Some (None, ?c)" by simp
  have "8 \<le> ?max" using running_system_serves(1) [OF site_running(1-3)] by (simp add: server_wf_def)
  from ws.delivered_exec [OF ws.delivered_new [OF this site_conn_new] start] have "ws.delivered ?max ?c" .
  moreover have "\<not> reader_done (base ?c)" "conn_started (base ?c)"
    by (simp_all add: site_conn_def start_conn_def newNetConnection_def)
  ultimately obtain r c' where "ws_exec h (TRound 5 (Inr (2, [1, 0, 0, 0, 1, 0, 0, 0, 7]))) ?c = Some (Some r, c')"
    using ws.delivered_round by blast
  with start show ?thesis by (simp only: run_ops.simps option.case prod.case option.map apfst_conv) blast
qed

section \<open>Properties\<close>

text \<open>
  C3. From the bytes to the handlers. In any reachable state in which the server runs, whatever
  its connections, its pool and its shutdowns have done before, a TCP connection with a new ID is
  opened. Its reader runs, interleaved with the connection's other goroutines and, before each
  request and after the last one, with any events of the pool: its workers, the requests of
  other connections, cancellations, a drain. Then the messages read have, one after the other,
  the encodings that make up the bytes received; and the connection's tasks in the pool are these
  messages, in order, each once and with the handlers of its route. All are accepted
  while the reader runs, and all but the last one if it was refused. The workers have taken up
  the first ones, and all when they are idle; and a request taken up is at work, or its handlers
  have been started, all of them in order, unless it was cancelled first.\<close>

theorem request_end_to_end:
  assumes "sys_reachable grow env s" and "lc_state (lc s) = stateRunning" and "\<not> crashed (pool s)" and "phases s cid = Absent"
    and "newConnection TransportTCP (MaxFrameLength (options (srv s))) writeBufferSize now m (srv s, 0) = Ok c0"
    and "run_ops (tcp_exec (serveRequest env cid TransportTCP calm slots)) evs c0 = Some (rs, c)"
    and "p = run_others env cid calm afterwards (workerPool (fst (server c)))"
  shows "(\<exists>frames rest. map Encoder_Encode (handled c) = map Ok frames \<and> rx c = concat frames @ rest) \<and>
    requests_in_order calm cid (srv_routing (srv s)) (handled c) (\<not> reader_done (base c)) p"
  using running_system_serves [OF assms(1-3)] assms(4-7) by (intro tcp_end_to_end)

theorem request_end_to_end_witness:
  "\<exists>rs c. run_ops (tcp_exec (serveRequest counting_env 5 TransportTCP True quiet_slot))
       [TBase CStart, TRound 5 ([1, 0, 0, 0, 1, 0, 0, 0, 7, 9], None)] (site_conn TransportTCP) = Some (rs, c) \<and>
     requests_in_order True 5 (srv_routing (srv site)) [\<lparr>Event = 1, Body = [7], BodySize = 1\<rparr>] True (workerPool (fst (server c)))"
proof -
  obtain rs c where run: "run_ops (tcp_exec (serveRequest counting_env 5 TransportTCP True quiet_slot))
      [TBase CStart, TRound 5 ([1, 0, 0, 0, 1, 0, 0, 0, 7, 9], None)] (site_conn TransportTCP) = Some (rs, c)"
    "handled c = [\<lparr>Event = 1, Body = [7], BodySize = 1\<rparr>]" "\<not> reader_done (base c)"
    using site_tcp_run [OF HOL.refl] by blast
  have "requests_in_order True 5 (srv_routing (srv site)) (handled c) (\<not> reader_done (base c))
      (run_others counting_env 5 True [] (workerPool (fst (server c))))"
    using request_end_to_end [OF site_running(1-4) site_conn_new run(1) HOL.refl] by blast
  then have "requests_in_order True 5 (srv_routing (srv site)) [\<lparr>Event = 1, Body = [7], BodySize = 1\<rparr>] True (workerPool (fst (server c)))"
    using run(2,3) by (simp add: run_others_def)
  with run(1) show ?thesis by blast
qed

text \<open>
  C36. The same over WebSocket, where a message of the peer holds whole frames: while the reader
  runs, every byte received belongs to a message whose request is in the pool.\<close>

theorem ws_request_end_to_end:
  assumes "sys_reachable grow env s" and "lc_state (lc s) = stateRunning" and "\<not> crashed (pool s)" and "phases s cid = Absent"
    and "newConnection TransportWebSocket (MaxFrameLength (options (srv s))) writeBufferSize now m (srv s, 0) = Ok c0"
    and "run_ops (ws_exec (serveRequest env cid TransportWebSocket calm slots)) evs c0 = Some (rs, c)"
    and "p = run_others env cid calm afterwards (workerPool (fst (server c)))"
  shows "(\<exists>frames rest. map Encoder_Encode (handled c) = map Ok frames \<and> rx c = concat frames @ rest \<and>
      (\<not> reader_done (base c) \<longrightarrow> rest = [])) \<and>
    requests_in_order calm cid (srv_routing (srv s)) (handled c) (\<not> reader_done (base c)) p"
  using running_system_serves [OF assms(1-3)] assms(4-7) by (intro ws_end_to_end)

theorem ws_request_end_to_end_witness:
  "\<exists>rs c. run_ops (ws_exec (serveRequest counting_env 5 TransportWebSocket True quiet_slot))
       [TBase CStart, TRound 5 (Inr (2, [1, 0, 0, 0, 1, 0, 0, 0, 7]))] (site_conn TransportWebSocket) = Some (rs, c) \<and>
     requests_in_order True 5 (srv_routing (srv site)) (handled c) (\<not> reader_done (base c))
       (run_others counting_env 5 True [] (workerPool (fst (server c))))"
proof -
  obtain rs c where run: "run_ops (ws_exec (serveRequest counting_env 5 TransportWebSocket True quiet_slot))
      [TBase CStart, TRound 5 (Inr (2, [1, 0, 0, 0, 1, 0, 0, 0, 7]))] (site_conn TransportWebSocket) = Some (rs, c)"
    using site_ws_run by blast
  show ?thesis
    using ws_request_end_to_end [OF site_running(1-4) site_conn_new run HOL.refl] run by blast
qed

end
