(* ===== verification/Stats_Export.thy ===== *)
theory Stats_Export
  imports Stats
begin

text \<open>
  The export of the statistics over HTTP, \<open>src/stats_export.go\<close>: a handler for JSON and one for
  the text format of Prometheus, and the mode of the debug output, \<open>src/mode.go\<close> and
  \<open>src/debug.go\<close>. The properties say that what is exported can be read back.
\<close>

section \<open>Text\<close>

abbreviation newline :: char where "newline \<equiv> CHR 0x0A"
abbreviation quotation :: char where "quotation \<equiv> CHR 0x22"

text \<open>\<open>strconv.FormatUint\<close> with base 10, and the text of an \<open>int64\<close>.\<close>

definition digit :: "nat \<Rightarrow> char" where
  "digit d = char_of (48 + d)"

fun FormatUint :: "nat \<Rightarrow> string" where
  "FormatUint n = (if n < 10 then [digit n] else FormatUint (n div 10) @ [digit (n mod 10)])"

definition FormatInt :: "int \<Rightarrow> string" where
  "FormatInt i = (if i < 0 then CHR ''-'' # FormatUint (nat (- i)) else FormatUint (nat i))"

declare FormatUint.simps [simp del]

text \<open>\<open>Transport.String\<close>, the name of a transport in error texts and the label in the exports.\<close>

definition Transport_String :: "Transport \<Rightarrow> string" where
  "Transport_String t =
     (if t = TransportTCP then ''tcp''
      else if t = TransportWebSocket then ''websocket''
      else ''Transport('' @ FormatUint (unat t) @ '')'')"

section \<open>HTTP\<close>

record http_response =
  resp_status :: nat
  resp_header :: "(string \<times> string) list"
  resp_body :: string

text \<open>The response as a handler finds it: status 200 unless it sets another one.\<close>

definition newResponse :: http_response where
  "newResponse = \<lparr>resp_status = 200, resp_header = [], resp_body = []\<rparr>"

definition Header_Set :: "string \<Rightarrow> string \<Rightarrow> http_response \<Rightarrow> http_response" where
  "Header_Set key value writer = writer\<lparr>resp_header := map_put key value (resp_header writer)\<rparr>"

definition http_Error :: "string \<Rightarrow> nat \<Rightarrow> http_response \<Rightarrow> http_response" where
  "http_Error message code writer =
     (let w1 = Header_Set ''X-Content-Type-Options'' ''nosniff'' (Header_Set ''Content-Type'' ''text/plain; charset=utf-8'' writer)
      in w1\<lparr>resp_status := code, resp_body := resp_body w1 @ message @ [newline]\<rparr>)"

text \<open>The two guards: the response and whether the handler goes on.\<close>

definition allowStatsExportRequest :: "string \<Rightarrow> http_response \<Rightarrow> bool \<times> http_response" where
  "allowStatsExportRequest method writer =
     (if method = ''GET'' \<or> method = ''HEAD'' then (True, writer)
      else (False, http_Error ''method not allowed'' 405 (Header_Set ''Allow'' ''GET, HEAD'' writer)))"

definition requireStatsExportServer :: "serverMetrics option \<Rightarrow> http_response \<Rightarrow> bool \<times> http_response" where
  "requireStatsExportServer server writer =
     (if server \<noteq> None then (True, writer) else (False, http_Error ''ramix stats server is nil'' 500 writer))"

section \<open>JSON\<close>

record statsJSONTransport =
  json_ActiveConnections :: uint64
  json_QueuedTasks :: uint64
  json_ReceivedMessages :: uint64
  json_ReceivedBytes :: uint64
  json_SentMessages :: uint64
  json_SentBytes :: uint64
  json_RejectedTasks :: uint64
  json_ConnectionErrors :: uint64
  json_CompletedRequests :: uint64
  json_TotalRequestDurationNS :: goint
  json_MaximumRequestDurationNS :: goint

record statsJSONSnapshot =
  json_Total :: statsJSONTransport
  json_TCP :: statsJSONTransport
  json_WebSocket :: statsJSONTransport

definition statsJSONTransportFrom :: "TransportStats \<Rightarrow> statsJSONTransport" where
  "statsJSONTransportFrom stats =
     \<lparr>json_ActiveConnections = ActiveConnections stats, json_QueuedTasks = QueuedTasks stats,
      json_ReceivedMessages = ReceivedMessages stats, json_ReceivedBytes = ReceivedBytes stats,
      json_SentMessages = SentMessages stats, json_SentBytes = SentBytes stats, json_RejectedTasks = RejectedTasks stats,
      json_ConnectionErrors = ConnectionErrors stats, json_CompletedRequests = CompletedRequests stats,
      json_TotalRequestDurationNS = TotalRequestDuration stats, json_MaximumRequestDurationNS = MaximumRequestDuration stats\<rparr>"

definition statsJSONSnapshotFrom :: "ServerStats \<Rightarrow> statsJSONSnapshot" where
  "statsJSONSnapshotFrom stats =
     \<lparr>json_Total = statsJSONTransportFrom (Total stats), json_TCP = statsJSONTransportFrom (TCP stats),
      json_WebSocket = statsJSONTransportFrom (WebSocket stats)\<rparr>"

text \<open>
  The JSON values that occur, their text as \<open>encoding/json\<close> writes it, and the values of the two
  structures, with the keys of their tags in the order of the fields.
\<close>

datatype json = JNum int | JObj "(string \<times> json) list"

fun json_text :: "json \<Rightarrow> string" and members_text :: "(string \<times> json) list \<Rightarrow> string" where
  "json_text (JNum i) = FormatInt i"
| "json_text (JObj fs) = CHR ''{'' # members_text fs @ ''}''"
| "members_text [] = []"
| "members_text [f] = quotation # fst f @ [quotation, CHR '':''] @ json_text (snd f)"
| "members_text (f # g # fs) = quotation # fst f @ [quotation, CHR '':''] @ json_text (snd f) @ '','' @ members_text (g # fs)"

definition json_of_transport :: "statsJSONTransport \<Rightarrow> json" where
  "json_of_transport t = JObj
     [(''active_connections'', JNum (uint (json_ActiveConnections t))),
      (''queued_tasks'', JNum (uint (json_QueuedTasks t))),
      (''received_messages'', JNum (uint (json_ReceivedMessages t))),
      (''received_bytes'', JNum (uint (json_ReceivedBytes t))),
      (''sent_messages'', JNum (uint (json_SentMessages t))),
      (''sent_bytes'', JNum (uint (json_SentBytes t))),
      (''rejected_tasks'', JNum (uint (json_RejectedTasks t))),
      (''connection_errors'', JNum (uint (json_ConnectionErrors t))),
      (''completed_requests'', JNum (uint (json_CompletedRequests t))),
      (''total_request_duration_ns'', JNum (sint (json_TotalRequestDurationNS t))),
      (''maximum_request_duration_ns'', JNum (sint (json_MaximumRequestDurationNS t)))]"

definition json_of_snapshot :: "statsJSONSnapshot \<Rightarrow> json" where
  "json_of_snapshot s = JObj [(''total'', json_of_transport (json_Total s)), (''tcp'', json_of_transport (json_TCP s)),
     (''websocket'', json_of_transport (json_WebSocket s))]"

definition StatsJSONHandler :: "serverMetrics option \<Rightarrow> string \<Rightarrow> http_response" where
  "StatsJSONHandler server method =
     (let (allowed, w1) = allowStatsExportRequest method newResponse in
      if \<not> allowed then w1
      else let (present, w2) = requireStatsExportServer server w1 in
      if \<not> present then w2
      else let w3 = Header_Set ''Content-Type'' ''application/json; charset=utf-8'' w2 in
      if method = ''HEAD'' then w3
      else w3\<lparr>resp_body := resp_body w3 @ json_text (json_of_snapshot (statsJSONSnapshotFrom (serverMetrics_snapshot (the server)))) @ [newline]\<rparr>)"

section \<open>Prometheus\<close>

record prometheusMetric =
  metric_name :: string
  metric_help :: string
  metric_typ :: string
  metric_value :: "TransportStats \<Rightarrow> string"

definition prometheusUint64 :: "(TransportStats \<Rightarrow> uint64) \<Rightarrow> TransportStats \<Rightarrow> string" where
  "prometheusUint64 get stats = FormatUint (unat (get stats))"

text \<open>
  \<open>FormatSeconds d\<close> is \<open>strconv.FormatFloat(d.Seconds(), 'f', -1, 64)\<close>, the shortest decimal text
  of a floating-point number. It is an argument.
\<close>

definition prometheusDurationSeconds :: "(duration \<Rightarrow> string) \<Rightarrow> (TransportStats \<Rightarrow> duration) \<Rightarrow> TransportStats \<Rightarrow> string" where
  "prometheusDurationSeconds FormatSeconds get stats = FormatSeconds (get stats)"

definition statsPrometheusMetrics :: "(duration \<Rightarrow> string) \<Rightarrow> prometheusMetric list" where
  "statsPrometheusMetrics FormatSeconds =
     [\<lparr>metric_name = ''ramix_active_connections'',
       metric_help = ''Approximate number of currently open Ramix connections.'',
       metric_typ = ''gauge'', metric_value = prometheusUint64 ActiveConnections\<rparr>,
      \<lparr>metric_name = ''ramix_queued_tasks'',
       metric_help = ''Approximate number of Ramix request tasks currently waiting to run.'',
       metric_typ = ''gauge'', metric_value = prometheusUint64 QueuedTasks\<rparr>,
      \<lparr>metric_name = ''ramix_received_messages_total'',
       metric_help = ''Lifetime-cumulative number of received Ramix messages.'',
       metric_typ = ''counter'', metric_value = prometheusUint64 ReceivedMessages\<rparr>,
      \<lparr>metric_name = ''ramix_received_bytes_total'',
       metric_help = ''Lifetime-cumulative number of received Ramix message body bytes, excluding protocol headers and transport overhead.'',
       metric_typ = ''counter'', metric_value = prometheusUint64 ReceivedBytes\<rparr>,
      \<lparr>metric_name = ''ramix_sent_messages_total'',
       metric_help = ''Lifetime-cumulative number of sent Ramix messages.'',
       metric_typ = ''counter'', metric_value = prometheusUint64 SentMessages\<rparr>,
      \<lparr>metric_name = ''ramix_sent_bytes_total'',
       metric_help = ''Lifetime-cumulative number of sent Ramix message body bytes, excluding protocol headers and transport overhead.'',
       metric_typ = ''counter'', metric_value = prometheusUint64 SentBytes\<rparr>,
      \<lparr>metric_name = ''ramix_rejected_tasks_total'',
       metric_help = ''Lifetime-cumulative number of Ramix request tasks rejected because worker queues were full.'',
       metric_typ = ''counter'', metric_value = prometheusUint64 RejectedTasks\<rparr>,
      \<lparr>metric_name = ''ramix_connection_errors_total'',
       metric_help = ''Lifetime-cumulative number of reported Ramix connection errors.'',
       metric_typ = ''counter'', metric_value = prometheusUint64 ConnectionErrors\<rparr>,
      \<lparr>metric_name = ''ramix_completed_requests_total'',
       metric_help = ''Lifetime-cumulative number of completed Ramix request handlers.'',
       metric_typ = ''counter'', metric_value = prometheusUint64 CompletedRequests\<rparr>,
      \<lparr>metric_name = ''ramix_request_duration_seconds_total'',
       metric_help = ''Saturated lifetime-cumulative Ramix request handler duration in seconds.'',
       metric_typ = ''counter'', metric_value = prometheusDurationSeconds FormatSeconds TotalRequestDuration\<rparr>,
      \<lparr>metric_name = ''ramix_request_duration_seconds_max'',
       metric_help = ''Maximum observed Ramix request handler duration in seconds.'',
       metric_typ = ''gauge'', metric_value = prometheusDurationSeconds FormatSeconds MaximumRequestDuration\<rparr>]"

text \<open>The label of a sample, and the four lines of a metric.\<close>

definition sample_prefix :: "string \<Rightarrow> string \<Rightarrow> string" where
  "sample_prefix name label = name @ ''{transport='' @ [quotation] @ label @ [quotation] @ ''} ''"

definition metric_lines :: "ServerStats \<Rightarrow> prometheusMetric \<Rightarrow> string list" where
  "metric_lines stats metric =
     [''# HELP '' @ metric_name metric @ '' '' @ metric_help metric,
      ''# TYPE '' @ metric_name metric @ '' '' @ metric_typ metric,
      sample_prefix (metric_name metric) ''tcp'' @ metric_value metric (TCP stats),
      sample_prefix (metric_name metric) ''websocket'' @ metric_value metric (WebSocket stats)]"

definition writePrometheusStats :: "(duration \<Rightarrow> string) \<Rightarrow> ServerStats \<Rightarrow> string" where
  "writePrometheusStats FormatSeconds stats =
     concat (map (\<lambda>metric. concat (map (\<lambda>line. line @ [newline]) (metric_lines stats metric))) (statsPrometheusMetrics FormatSeconds))"

definition StatsPrometheusHandler :: "(duration \<Rightarrow> string) \<Rightarrow> serverMetrics option \<Rightarrow> string \<Rightarrow> http_response" where
  "StatsPrometheusHandler FormatSeconds server method =
     (let (allowed, w1) = allowStatsExportRequest method newResponse in
      if \<not> allowed then w1
      else let (present, w2) = requireStatsExportServer server w1 in
      if \<not> present then w2
      else let w3 = Header_Set ''Content-Type'' ''text/plain; version=0.0.4; charset=utf-8'' w2 in
      if method = ''HEAD'' then w3
      else w3\<lparr>resp_body := resp_body w3 @ writePrometheusStats FormatSeconds (serverMetrics_snapshot (the server))\<rparr>)"

section \<open>Mode and debug output\<close>

definition DebugMode :: string where "DebugMode = ''debug''"
definition ReleaseMode :: string where "ReleaseMode = ''release''"

definition SetMode :: "string \<Rightarrow> ('e, string) outcome" where
  "SetMode v = (if v = ReleaseMode then Ok ReleaseMode else if v = DebugMode then Ok DebugMode else Panic)"

definition IsDebugMode :: "string \<Rightarrow> bool" where
  "IsDebugMode mode \<longleftrightarrow> mode = DebugMode"

text \<open>
  \<open>debug\<close>, as what it writes to \<open>DefaultWriter\<close>. \<open>render\<close> is \<open>fmt.Sprintf\<close> on the arguments and
  \<open>now\<close> the formatted time.
\<close>

definition debug :: "(string \<Rightarrow> string) \<Rightarrow> string \<Rightarrow> string \<Rightarrow> string \<Rightarrow> string" where
  "debug render now mode message =
     (if IsDebugMode mode
      then let message1 = (if message \<noteq> [] \<and> last message = newline then message else message @ [newline])
           in render (''[ramix-debug] '' @ now @ '' | '' @ message1)
      else [])"

section \<open>Reading the exported text\<close>

text \<open>A decimal number and what follows it.\<close>

definition is_digit :: "char \<Rightarrow> bool" where
  "is_digit c \<longleftrightarrow> 48 \<le> (of_char c :: nat) \<and> (of_char c :: nat) \<le> 57"

definition digits_value :: "string \<Rightarrow> nat" where
  "digits_value ds = foldl (\<lambda>n c. 10 * n + (of_char c - 48)) 0 ds"

definition read_uint :: "string \<Rightarrow> (nat \<times> string) option" where
  "read_uint s = (let ds = takeWhile is_digit s in if ds = [] then None else Some (digits_value ds, dropWhile is_digit s))"

definition read_int :: "string \<Rightarrow> (int \<times> string) option" where
  "read_int s = (case s of
       [] \<Rightarrow> None
     | c # cs \<Rightarrow> if c = CHR ''-'' then map_option (\<lambda>(n, r). (- int n, r)) (read_uint cs)
                 else map_option (\<lambda>(n, r). (int n, r)) (read_uint s))"

text \<open>A JSON value of numbers and objects; the first argument bounds the depth of the calls.\<close>

fun read_json :: "nat \<Rightarrow> string \<Rightarrow> (json \<times> string) option"
  and read_members :: "nat \<Rightarrow> string \<Rightarrow> ((string \<times> json) list \<times> string) option" where
  "read_json 0 s = None"
| "read_json (Suc n) s =
     (case s of
        [] \<Rightarrow> None
      | c # cs \<Rightarrow>
          if c = CHR ''{'' then
            (case cs of
               [] \<Rightarrow> None
             | d # r \<Rightarrow> if d = CHR ''}'' then Some (JObj [], r)
                        else map_option (\<lambda>(fs, r). (JObj fs, r)) (read_members n cs))
          else map_option (\<lambda>(i, r). (JNum i, r)) (read_int s))"
| "read_members 0 s = None"
| "read_members (Suc n) s =
     (let key = takeWhile (\<lambda>c. c \<noteq> quotation) (tl s); s1 = dropWhile (\<lambda>c. c \<noteq> quotation) (tl s) in
      if s \<noteq> [] \<and> hd s = quotation \<and> take 2 s1 = [quotation, CHR '':''] then
        (case read_json n (drop 2 s1) of
           None \<Rightarrow> None
         | Some (v, r) \<Rightarrow>
             (case r of
                [] \<Rightarrow> None
              | c # r' \<Rightarrow>
                  if c = CHR ''}'' then Some ([(key, v)], r')
                  else if c = CHR '','' then map_option (\<lambda>(fs, r2). ((key, v) # fs, r2)) (read_members n r')
                  else None))
      else None)"

text \<open>The statistics that a JSON value describes, by the keys of its objects.\<close>

definition member :: "string \<Rightarrow> json \<Rightarrow> json option" where
  "member key v = (case v of JObj fs \<Rightarrow> map_of fs key | JNum i \<Rightarrow> None)"

definition number :: "string \<Rightarrow> json \<Rightarrow> 64 word option" where
  "number key v = (case member key v of Some (JNum i) \<Rightarrow> Some (word_of_int i) | _ \<Rightarrow> None)"

definition transport_of_json :: "json \<Rightarrow> TransportStats option" where
  "transport_of_json v =
     (case map (\<lambda>key. number key v) [''active_connections'', ''queued_tasks'', ''received_messages'', ''received_bytes'',
        ''sent_messages'', ''sent_bytes'', ''rejected_tasks'', ''connection_errors'', ''completed_requests'',
        ''total_request_duration_ns'', ''maximum_request_duration_ns''] of
        [Some ac, Some qt, Some rm, Some rb, Some sm, Some sb, Some rt, Some ce, Some cr, Some td, Some md] \<Rightarrow>
          Some \<lparr>ActiveConnections = ac, QueuedTasks = qt, ReceivedMessages = rm, ReceivedBytes = rb, SentMessages = sm,
                SentBytes = sb, RejectedTasks = rt, ConnectionErrors = ce, CompletedRequests = cr,
                TotalRequestDuration = td, MaximumRequestDuration = md\<rparr>
      | _ \<Rightarrow> None)"

definition stats_of_json :: "json \<Rightarrow> ServerStats option" where
  "stats_of_json v =
     (case map (\<lambda>key. Option.bind (member key v) transport_of_json) [''total'', ''tcp'', ''websocket''] of
        [Some t, Some p, Some w] \<Rightarrow> Some \<lparr>Total = t, TCP = p, WebSocket = w\<rparr>
      | _ \<Rightarrow> None)"

text \<open>The samples of a metric with a label, in the text format of Prometheus.\<close>

fun lines_of :: "string \<Rightarrow> string list" where
  "lines_of [] = []"
| "lines_of (c # cs) =
     (if c = newline then [] # lines_of cs
      else case lines_of cs of [] \<Rightarrow> [[c]] | l # ls \<Rightarrow> (c # l) # ls)"

fun strip_prefix :: "string \<Rightarrow> string \<Rightarrow> string option" where
  "strip_prefix [] s = Some s"
| "strip_prefix (p # ps) [] = None"
| "strip_prefix (p # ps) (c # cs) = (if p = c then strip_prefix ps cs else None)"

definition samples :: "string \<Rightarrow> string \<Rightarrow> string \<Rightarrow> string list" where
  "samples name label text = List.map_filter (strip_prefix (sample_prefix name label)) (lines_of text)"

section \<open>Lemmas\<close>

lemma of_char_digit: "d < 10 \<Longrightarrow> (of_char (digit d) :: nat) = 48 + d"
  by (simp add: digit_def)

lemma is_digit_digit: "d < 10 \<Longrightarrow> is_digit (digit d)"
  by (simp add: is_digit_def of_char_digit)

lemma FormatUint_digits: "c \<in> set (FormatUint n) \<Longrightarrow> is_digit c"
proof (induction n rule: FormatUint.induct)
  case (1 n)
  then show ?case
    by (subst (asm) (2) FormatUint.simps) (auto simp: is_digit_digit split: if_splits)
qed

lemma FormatUint_not_Nil [simp]: "FormatUint n \<noteq> []"
  by (subst FormatUint.simps) simp

lemma digits_value_FormatUint: "digits_value (FormatUint n) = n"
proof (induction n rule: FormatUint.induct)
  case (1 n)
  have snoc: "digits_value (ds @ [digit d]) = 10 * digits_value ds + d" if "d < 10" for ds d
    using that by (simp add: digits_value_def of_char_digit)
  show ?case
    using 1 snoc [of "n mod 10" "FormatUint (n div 10)"] snoc [of n "[]"]
    by (subst FormatUint.simps) (auto simp: digits_value_def)
qed

text \<open>Different transports have different names.\<close>

lemma Transport_String_inj: "Transport_String t = Transport_String u \<Longrightarrow> t = u"
proof -
  have num: "FormatUint m = FormatUint n \<Longrightarrow> m = n" for m n by (metis digits_value_FormatUint)
  assume "Transport_String t = Transport_String u"
  then show ?thesis
    by (auto simp: Transport_String_def word_unat_eq_iff dest!: num split: if_splits)
qed

definition ends_number :: "string \<Rightarrow> bool" where
  "ends_number rest \<longleftrightarrow> rest = [] \<or> \<not> is_digit (hd rest)"

lemma read_uint_FormatUint: "ends_number rest \<Longrightarrow> read_uint (FormatUint n @ rest) = Some (n, rest)"
proof -
  assume "ends_number rest"
  then have "takeWhile is_digit rest = [] \<and> dropWhile is_digit rest = rest"
    by (cases rest) (auto simp: ends_number_def)
  then show ?thesis
    using FormatUint_digits [of _ n] by (simp add: read_uint_def takeWhile_append2 dropWhile_append2 digits_value_FormatUint)
qed

lemma read_int_FormatInt: "ends_number rest \<Longrightarrow> read_int (FormatInt i @ rest) = Some (i, rest)"
proof -
  assume rest: "ends_number rest"
  obtain c cs where shape: "FormatUint (nat i) = c # cs" by (meson FormatUint_not_Nil neq_Nil_conv)
  then have "is_digit c" using FormatUint_digits [of c "nat i"] by simp
  then have "c \<noteq> CHR ''-''" by (auto simp: is_digit_def)
  then show ?thesis
    using read_uint_FormatUint [OF rest, of "nat i"] read_uint_FormatUint [OF rest, of "nat (- i)"] shape
    by (simp add: FormatInt_def read_int_def)
qed

text \<open>The calls that reading a value needs, and keys that need no escapes.\<close>

fun json_need :: "json \<Rightarrow> nat" and members_need :: "(string \<times> json) list \<Rightarrow> nat" where
  "json_need (JNum i) = 1"
| "json_need (JObj fs) = Suc (members_need fs)"
| "members_need [] = 0"
| "members_need (f # fs) = Suc (json_need (snd f) + members_need fs)"

fun plain_keys :: "json \<Rightarrow> bool" and plain_members :: "(string \<times> json) list \<Rightarrow> bool" where
  "plain_keys (JNum i) = True"
| "plain_keys (JObj fs) = plain_members fs"
| "plain_members [] = True"
| "plain_members (f # fs) = (quotation \<notin> set (fst f) \<and> plain_keys (snd f) \<and> plain_members fs)"

lemma read_key:
  assumes "quotation \<notin> set k"
  shows "takeWhile (\<lambda>c. c \<noteq> quotation) (k @ quotation # s) = k"
    and "dropWhile (\<lambda>c. c \<noteq> quotation) (k @ quotation # s) = quotation # s"
proof -
  have "\<forall>c\<in>set k. c \<noteq> quotation" using assms by blast
  then show "takeWhile (\<lambda>c. c \<noteq> quotation) (k @ quotation # s) = k"
    "dropWhile (\<lambda>c. c \<noteq> quotation) (k @ quotation # s) = quotation # s"
    by (simp_all add: takeWhile_append2 dropWhile_append2)
qed

lemma FormatInt_Cons: "\<exists>c cs. FormatInt i = c # cs \<and> c \<noteq> CHR ''{''"
proof -
  obtain c cs where shape: "FormatUint (nat i) = c # cs" by (meson FormatUint_not_Nil neq_Nil_conv)
  then have "is_digit c" using FormatUint_digits [of c "nat i"] by simp
  then have "c \<noteq> CHR ''{''" by (auto simp: is_digit_def)
  then show ?thesis using shape by (simp add: FormatInt_def)
qed

lemma ends_number_simps [simp]:
  "ends_number (CHR '','' # s)" "ends_number (CHR ''}'' # s)" "ends_number [newline]"
  by (simp_all add: ends_number_def is_digit_def)

text \<open>One member of an object, with what follows it.\<close>

lemma read_member:
  assumes "quotation \<notin> set k" "read_json n (s @ c # r) = Some (v, c # r)"
  shows "read_members (Suc n) (quotation # k @ [quotation, CHR '':''] @ s @ c # r) =
    (if c = CHR ''}'' then Some ([(k, v)], r)
     else if c = CHR '','' then map_option (\<lambda>(fs, r2). ((k, v) # fs, r2)) (read_members n r) else None)"
  using assms read_key [OF assms(1)] by (simp add: Let_def)

lemma read_text:
  "plain_keys v \<Longrightarrow> json_need v \<le> n \<Longrightarrow> ends_number rest \<Longrightarrow> read_json n (json_text v @ rest) = Some (v, rest)"
  "fs \<noteq> [] \<Longrightarrow> plain_members fs \<Longrightarrow> members_need fs \<le> n \<Longrightarrow> read_members n (members_text fs @ CHR ''}'' # rest) = Some (fs, rest)"
proof (induction v and fs arbitrary: n rest and n rest rule: json_text_members_text.induct)
  case (1 i)
  then show ?case using read_int_FormatInt [of rest i] FormatInt_Cons [of i] by (cases n) auto
next
  case (2 fs)
  then obtain m where n: "n = Suc m" by (cases n) auto
  show ?case
  proof (cases fs)
    case (Cons f gs)
    then have "\<exists>s. members_text fs = quotation # s" by (cases gs) auto
    then show ?thesis using 2 n Cons by auto
  qed (simp add: n)
next
  case (4 f)
  then obtain m where n: "n = Suc m" by (cases n) auto
  show ?case using 4 n read_member [of "fst f" m "json_text (snd f)" "CHR ''}''" rest "snd f"] by simp
next
  case (5 f g fs)
  then obtain m where n: "n = Suc m" by (cases n) auto
  show ?case
    using 5 n read_member [of "fst f" m "json_text (snd f)" "CHR '',''" "members_text (g # fs) @ CHR ''}'' # rest" "snd f"] by simp
qed simp

lemma json_of_snapshot_ok: "plain_keys (json_of_snapshot s)" "json_need (json_of_snapshot s) = 73"
  by (simp_all add: json_of_snapshot_def json_of_transport_def)

lemma transport_of_json_of: "transport_of_json (json_of_transport (statsJSONTransportFrom stats)) = Some stats"
  by (simp add: transport_of_json_def number_def member_def json_of_transport_def statsJSONTransportFrom_def)

lemma stats_of_json_of: "stats_of_json (json_of_snapshot (statsJSONSnapshotFrom stats)) = Some stats"
  by (simp add: stats_of_json_def member_def json_of_snapshot_def statsJSONSnapshotFrom_def transport_of_json_of)

lemma lines_of_line: "newline \<notin> set l \<Longrightarrow> lines_of (l @ newline # s) = l # lines_of s"
  by (induction l) auto

lemma lines_of_concat: "\<forall>l\<in>set ls. newline \<notin> set l \<Longrightarrow> lines_of (concat (map (\<lambda>l. l @ [newline]) ls)) = ls"
  by (induction ls) (auto simp: lines_of_line)

lemma strip_prefix_append [simp]: "strip_prefix (p @ q) (p @ s) = strip_prefix q s"
  by (induction p) auto

lemma strip_other_name:
  "CHR ''{'' \<notin> set n \<Longrightarrow> CHR ''{'' \<notin> set m \<Longrightarrow> n \<noteq> m \<Longrightarrow> strip_prefix (n @ CHR ''{'' # s) (m @ CHR ''{'' # t) = None"
proof (induction n arbitrary: m)
  case Nil
  then show ?case by (cases m) auto
next
  case (Cons c n)
  then show ?case by (cases m) auto
qed

definition plain_name :: "string \<Rightarrow> bool" where
  "plain_name n \<longleftrightarrow> n \<noteq> [] \<and> hd n \<noteq> CHR ''#'' \<and> CHR ''{'' \<notin> set n \<and> newline \<notin> set n"

lemma samples_metric:
  assumes "plain_name name" "plain_name (metric_name m)" "label \<in> {''tcp'', ''websocket''}"
  shows "List.map_filter (strip_prefix (sample_prefix name label)) (metric_lines stats m) =
    (if metric_name m = name then [metric_value m (if label = ''tcp'' then TCP stats else WebSocket stats)] else [])"
proof -
  have hash: "strip_prefix (sample_prefix name label) (CHR ''#'' # s) = None" for s
    using assms(1) by (cases name) (auto simp: plain_name_def sample_prefix_def)
  have own: "strip_prefix (sample_prefix name label) (sample_prefix name label' @ s) = (if label = label' then Some s else None)"
    if "label' \<in> {''tcp'', ''websocket''}" for label' s
    using that assms(3) by (auto simp: sample_prefix_def)
  have other: "strip_prefix (sample_prefix name label) (sample_prefix (metric_name m) label' @ s) = None" if "metric_name m \<noteq> name" for label' s
    using that assms(1,2) strip_other_name [of name "metric_name m"] by (simp add: sample_prefix_def plain_name_def)
  show ?thesis
    using assms(3) hash own other by (auto simp: metric_lines_def List.map_filter_def)
qed

lemma map_filter_concat: "List.map_filter f (concat xss) = concat (map (List.map_filter f) xss)"
  by (induction xss) (simp_all add: List.map_filter_def)

lemma concat_map_concat: "concat (map f (concat xss)) = concat (map (concat \<circ> map f) xss)"
  by (induction xss) simp_all

lemma metric_names:
  "\<forall>m\<in>set (statsPrometheusMetrics fs). plain_name (metric_name m) \<and> newline \<notin> set (metric_help m) \<and> newline \<notin> set (metric_typ m)"
  by (simp add: statsPrometheusMetrics_def plain_name_def)

lemma FormatUint_line: "newline \<notin> set (FormatUint n)"
  using FormatUint_digits [of newline n] by (auto simp: is_digit_def)

lemma metric_values_line:
  assumes "\<And>d. newline \<notin> set (FormatSeconds d)"
  shows "\<forall>m\<in>set (statsPrometheusMetrics FormatSeconds). newline \<notin> set (metric_value m stats)"
  by (simp add: statsPrometheusMetrics_def prometheusUint64_def prometheusDurationSeconds_def FormatUint_line assms)

lemma write_lines:
  assumes "\<And>d. newline \<notin> set (FormatSeconds d)"
  shows "lines_of (writePrometheusStats FormatSeconds stats) = concat (map (metric_lines stats) (statsPrometheusMetrics FormatSeconds))"
proof -
  have "writePrometheusStats FormatSeconds stats =
      concat (map (\<lambda>l. l @ [newline]) (concat (map (metric_lines stats) (statsPrometheusMetrics FormatSeconds))))"
    by (simp add: writePrometheusStats_def concat_map_concat comp_def)
  moreover have "\<forall>l\<in>set (concat (map (metric_lines stats) (statsPrometheusMetrics FormatSeconds))). newline \<notin> set l"
    using metric_names [of FormatSeconds] metric_values_line [OF assms] by (auto simp: metric_lines_def sample_prefix_def plain_name_def)
  ultimately show ?thesis using lines_of_concat by simp
qed

lemma samples_write:
  assumes "\<And>d. newline \<notin> set (FormatSeconds d)" "plain_name name" "label \<in> {''tcp'', ''websocket''}"
  shows "samples name label (writePrometheusStats FormatSeconds stats) =
    map (\<lambda>m. metric_value m (if label = ''tcp'' then TCP stats else WebSocket stats))
      (filter (\<lambda>m. metric_name m = name) (statsPrometheusMetrics FormatSeconds))"
proof -
  have "concat (map (\<lambda>m. List.map_filter (strip_prefix (sample_prefix name label)) (metric_lines stats m)) ms) =
      map (\<lambda>m. metric_value m (if label = ''tcp'' then TCP stats else WebSocket stats)) (filter (\<lambda>m. metric_name m = name) ms)"
    if "\<forall>m\<in>set ms. plain_name (metric_name m)" for ms
    using that by (induction ms) (auto simp: samples_metric [OF assms(2) _ assms(3)])
  then show ?thesis
    using metric_names [of FormatSeconds] by (simp add: samples_def write_lines [OF assms(1)] map_filter_concat comp_def)
qed

section \<open>Properties\<close>

text \<open>The counters of a transport and the duration metrics, by the names under which Prometheus reads them.\<close>

definition prometheus_counters :: "(string \<times> (transportMetrics \<Rightarrow> uint64)) list" where
  "prometheus_counters =
     [(''ramix_active_connections'', activeConnections), (''ramix_queued_tasks'', queuedTasks),
      (''ramix_received_messages_total'', receivedMessages), (''ramix_received_bytes_total'', receivedBytes),
      (''ramix_sent_messages_total'', sentMessages), (''ramix_sent_bytes_total'', sentBytes),
      (''ramix_rejected_tasks_total'', rejectedTasks), (''ramix_connection_errors_total'', connectionErrors),
      (''ramix_completed_requests_total'', completedRequests)]"

text \<open>
  C17. The JSON export can be read back exactly. A GET request to the JSON handler of a server is
  answered with status 200, and reading the body as JSON, with nothing but the final newline
  left, and looking up the documented keys gives exactly the snapshot of the server's
  statistics, totals and durations included, for all values of the counters.
\<close>

theorem json_export_roundtrip:
  "resp_status (StatsJSONHandler (Some m) ''GET'') = 200 \<and>
   (\<exists>v. read_json 73 (resp_body (StatsJSONHandler (Some m) ''GET'')) = Some (v, [newline]) \<and>
        stats_of_json v = Some (serverMetrics_snapshot m))"
proof -
  let ?v = "json_of_snapshot (statsJSONSnapshotFrom (serverMetrics_snapshot m))"
  have "resp_body (StatsJSONHandler (Some m) ''GET'') = json_text ?v @ [newline]" "resp_status (StatsJSONHandler (Some m) ''GET'') = 200"
    by (simp_all add: StatsJSONHandler_def allowStatsExportRequest_def requireStatsExportServer_def Header_Set_def newResponse_def)
  then show ?thesis using read_text(1) [of ?v 73 "[newline]"] json_of_snapshot_ok stats_of_json_of by simp
qed

text \<open>
  C38. The Prometheus export is right and unambiguous. In the body of the answer to a GET request
  there is exactly one sample for each metric and transport, its value is the current counter
  of that transport, written in decimal, or the duration as \<open>FormatFloat\<close> writes it. That text
  is only supposed to contain no newline.
\<close>

theorem prometheus_export_exact:
  assumes "\<And>d. newline \<notin> set (FormatSeconds d)"
    and "body = resp_body (StatsPrometheusHandler FormatSeconds (Some m) ''GET'')"
    and "(label, t) \<in> {(''tcp'', tcp m), (''websocket'', webSocket m)}"
  shows "(\<forall>(name, counter)\<in>set prometheus_counters. map read_uint (samples name label body) = [Some (unat (counter t), [])]) \<and>
    samples ''ramix_request_duration_seconds_total'' label body = [FormatSeconds (counterDuration (totalRequestDuration t))] \<and>
    samples ''ramix_request_duration_seconds_max'' label body = [FormatSeconds (counterDuration (maximumRequestDuration t))]"
proof -
  let ?st = "serverMetrics_snapshot m"
  have body: "body = writePrometheusStats FormatSeconds ?st"
    by (simp add: assms(2) StatsPrometheusHandler_def allowStatsExportRequest_def requireStatsExportServer_def Header_Set_def newResponse_def)
  have label: "label \<in> {''tcp'', ''websocket''}" using assms(3) by auto
  have stats: "(if label = ''tcp'' then TCP ?st else WebSocket ?st) = transportMetrics_snapshot t"
    using assms(3) by (auto simp: serverMetrics_snapshot_def Let_def)
  note sampled = samples_write [where FormatSeconds = FormatSeconds and stats = ?st, OF assms(1) _ label, unfolded stats]
  have read: "read_uint (FormatUint k) = Some (k, [])" for k using read_uint_FormatUint [of "[]" k] by (simp add: ends_number_def)
  show ?thesis
    unfolding body
    by (simp add: sampled plain_name_def prometheus_counters_def statsPrometheusMetrics_def prometheusUint64_def prometheusDurationSeconds_def
        transportMetrics_snapshot_def read)
qed

theorem prometheus_export_exact_witness:
  "map read_uint (samples ''ramix_sent_bytes_total'' ''websocket''
     (resp_body (StatsPrometheusHandler (\<lambda>d. FormatUint (unat d)) (Some (messageSent TransportWebSocket 9 zeroServerMetrics)) ''GET''))) = [Some (9, [])]"
proof -
  let ?m = "messageSent TransportWebSocket 9 zeroServerMetrics"
  have "unat (sentBytes (webSocket ?m)) = 9"
    by (simp add: messageSent_def forTransport_def zeroServerMetrics_def zeroTransportMetrics_def unat_saturatingAdd)
  moreover have "(''ramix_sent_bytes_total'', sentBytes) \<in> set prometheus_counters" by (simp add: prometheus_counters_def)
  moreover note prometheus_export_exact [where FormatSeconds = "\<lambda>d. FormatUint (unat d)" and m = ?m and label = "''websocket''"
      and t = "webSocket ?m", OF FormatUint_line HOL.refl]
  ultimately show ?thesis by fastforce
qed

text \<open>
  The guards of the two handlers. A method other than GET and HEAD is answered with 405 and
  the header \<open>Allow\<close>, whether there is a server or not; without a server the answer is 500; a HEAD
  request gets the status and the header of the GET request and no body.
\<close>

lemma stats_export_guards:
  assumes "handler = StatsJSONHandler \<or> handler = StatsPrometheusHandler FormatSeconds"
  shows "(method \<notin> {''GET'', ''HEAD''} \<longrightarrow> resp_status (handler server method) = 405 \<and>
      map_of (resp_header (handler server method)) ''Allow'' = Some ''GET, HEAD'') \<and>
    (method \<in> {''GET'', ''HEAD''} \<longrightarrow> resp_status (handler server method) = (if server = None then 500 else 200)) \<and>
    resp_status (handler server ''HEAD'') = resp_status (handler server ''GET'') \<and>
    resp_header (handler server ''HEAD'') = resp_header (handler server ''GET'') \<and>
    (server \<noteq> None \<longrightarrow> resp_body (handler server ''HEAD'') = [])"
  using assms
  by (auto simp: StatsJSONHandler_def StatsPrometheusHandler_def allowStatsExportRequest_def requireStatsExportServer_def Header_Set_def
      newResponse_def http_Error_def Let_def)

end
