(* ===== verification/Spec2Isabelle.thy ===== *)
theory Spec2Isabelle
  imports Integration Stats_Export
begin

text \<open>
  A verification of Ramix, a Go framework for message servers over TCP and WebSocket.

  \<^bold>\<open>The program.\<close> A server accepts connections. Each connection has a reader, a writer, a heartbeat
  and a supervisor goroutine. The reader cuts the byte stream into frames, decodes each frame to
  a message and hands it, as a request with the handlers of its route, to a pool of workers; all
  requests of a connection go to the same worker. A handler answers through the connection's
  \<open>Send\<close>, which queues the encoded message for the writer. A manager keeps the open connections
  and those that are being finalized. A shutdown stops the intake, drains the pool and the
  connections, closes them and waits for them, within a deadline.

  \<^bold>\<open>The theories\<close>, with the files under \<open>src/\<close> that they model:

  \<^item> \<open>Ramix_Prelude\<close>: Go's integers as words, outcomes (value, error, panic), slicing, byte order,
    maps as association lists, runs of operations, and as locales functional refinement and
    progress towards a final state.
  \<^item> \<open>Errors\<close>: \<open>errors.go\<close>. An error is a constructor; a wrapped error carries the reason instead of
    its text.
  \<^item> \<open>Codec\<close>: \<open>message.go\<close>, \<open>encoder.go\<close>, \<open>decoder.go\<close>. Encoding and decoding are inverse to each
    other, and the decoder refuses everything else.
  \<^item> \<open>Frame_Decoder\<close>: \<open>frame_decoder.go\<close>, the stateful extraction of length-prefixed frames with
    its 64-bit checks: it is total, chunking does not matter, the buffer is bounded.
  \<^item> \<open>Wire\<close>: the two together, as a connection uses them.
  \<^item> \<open>Options\<close>: \<open>option.go\<close>, options, defaults and validation.
  \<^item> \<open>Stats\<close>: \<open>stats.go\<close>, the counters, with every interleaving of the compare-and-swap loops; and
    \<open>Stats_Export\<close>: \<open>stats_export.go\<close>, \<open>mode.go\<close>, \<open>debug.go\<close>, the two HTTP exports, which are read back.
  \<^item> \<open>Router\<close>: \<open>router.go\<close> and the states of \<open>server_state.go\<close>, over Go slices whose backing arrays can
    be shared; it refines a value semantics.
  \<^item> \<open>Handlers\<close>: \<open>context.go\<close>, \<open>request.go\<close>, \<open>recovery.go\<close>, \<open>logger.go\<close>. A handler is an interaction tree: what it
    does next, as a function of what it has observed.
  \<^item> \<open>Worker_Pool\<close>: \<open>worker_pool.go\<close>, \<open>worker.go\<close>, a state machine of submissions, workers and the
    drain.
  \<^item> \<open>Manager\<close>: \<open>manager.go\<close>, a data structure that refines a map, and \<open>waitAll\<close> as a step relation beside
    the connections.
  \<^item> \<open>Connection\<close>: \<open>connection.go\<close>, \<open>heartbeat.go\<close>, the state machine of a connection and its goroutines;
    \<open>Transports\<close>: \<open>tcp_connection.go\<close>, \<open>ws_connection.go\<close>, the readers, with the locale \<open>request_reader\<close>
    interpreted for both.
  \<^item> \<open>Server\<close>: construction, callbacks, preparation of a run and \<open>handleRequest\<close> of \<open>server.go\<close>.
  \<^item> \<open>Requests\<close>: the readers, the server and the pool together, from the bytes of a peer to the
    handlers of a request. Seen from the server a reader is a sequence of calls (\<open>serve\<close>); the calls go
    to \<open>handleRequest\<close>, and between two of them the pool makes any steps of its own and of other
    connections (\<open>run_others\<close>). What became of the requests is an invariant (\<open>in_service\<close>, \<open>inv_run\<close>).
  \<^item> \<open>Lifecycle\<close>: \<open>Run\<close>, \<open>Shutdown\<close>, \<open>shutdownOwner\<close>, set-ups and services (\<open>server.go\<close>, \<open>server_state.go\<close>,
    \<open>tcp_server.go\<close>, \<open>websocket_server.go\<close>) as one system: a record with the life cycle, the server with
    its pool and manager, the phase and the state of every connection. Its invariant is a
    conjunction of one predicate per concern (\<open>life_inv\<close>, \<open>registry_ok\<close>, \<open>pool_ok\<close>, \<open>conns_ok\<close>,
    \<open>drain_ok\<close>, \<open>wait_ok\<close>), each kept by every step, and rests on the invariants of the components.
    \<open>Shutdown\<close> holds concrete runs of the system and the properties of its life cycle.
  \<^item> \<open>Integration\<close>: the request path inside that system. Every reachable running system is as
    \<open>Requests\<close> needs it (\<open>service_ok\<close>), so the path from the bytes to the handlers holds for every
    connection it opens.

  \<^bold>\<open>State and concurrency.\<close> A struct is a record, an operation a function on it. Where goroutines
  interleave, a goroutine has a program counter, and a step is what it does between two critical
  sections, channel operations or calls of another component; an event carries what the
  environment decides (what a read or \<open>listen\<close> returns, whether a context has ended, which ready
  case a \<open>select\<close> takes). A run is any sequence of enabled events, so a theorem about reachable
  states covers every schedule. A panic that would end the process is a value, and no step
  follows it.

  \<^bold>\<open>Interfaces.\<close> What one part needs of another is a locale, interpreted on the model: \<open>message_codec\<close> (an
  encoder with its decoder), \<open>framing\<close> (a decoder of frames with its loop) and \<open>framed_codec\<close> (both,
  for the stream of a connection); \<open>atomic_update\<close> and \<open>commuting_update\<close> (a retry loop with its effect);
  \<open>functional_refinement\<close> (operations that implement an abstract specification), for the router and
  the manager; \<open>request_reader\<close> (a round of a reader) and its extension \<open>serving_reader\<close> (how a round
  calls the server), for TCP and WebSocket; \<open>progressing\<close> and \<open>terminating\<close> (a machine that comes to an
  end by itself), for the workers of a running pool, the drain of the pool, a closing connection
  and the owner of a shutdown.

  \<^bold>\<open>Bounds.\<close> Integers have the width of the code: \<open>uint32\<close>, \<open>uint64\<close>, and \<open>int\<close> as on a 64-bit
  platform. The loop of the frame decoder is a partial function, where not returning is the
  value \<open>None\<close>, and it is proved to return; \<open>writeFull\<close> has a termination proof; \<open>Context.Next\<close>, which
  handlers call again, has as fuel one more than the number of handlers, and it is proved that
  this is enough. The reader of JSON used to state the round trip has a depth bound of 73, which
  is the exact need of the exported value. A step that opens a connection requires that the
  64-bit counter of IDs has not come round to an ID in use.

  \<^bold>\<open>Parameters.\<close> Handlers and hooks, the environment of a handler (sending, time, printing), the growth
  of Go's slices, sockets (as the results of reads, writes and deadlines), the text of a
  floating-point number and the rendering of format strings are arguments of the definitions.

  \<^bold>\<open>Findings.\<close> After \<open>Recovery\<close> has answered a panic the chain goes on behind the handler that
  panicked; some WebSocket paths that cannot match pass the validation
  (\<open>websocket_path_gaps\<close>); a three-byte length field is read in the wrong order with the native byte order
  (\<open>native_endian_three_bytes\<close>); concurrent upgrades can exceed the limit on
  connections; a connection can outlive a shutdown that timed out.

  \<^bold>\<open>Not modelled.\<close> The programs under \<open>examples/\<close> only call the library. TLS is the loading of the
  certificate and its error; the wrapped listeners and the HTTP server are opaque. The texts of
  errors, the stack trace that \<open>Recovery\<close> logs and the accessors that return a field are left
  out. Memory is sequentially consistent: data races
  below the level of the locks and atomic operations of the code are not considered. The server's
  metrics are kept with the pool and with each connection, each updated by its own steps.
\<close>

end
